(* ===== verification/Pinx_Prelude.thy ===== *)
theory Pinx_Prelude
  imports Main "HOL-Library.Word" "HOL-Library.Monad_Syntax"
begin

text \<open>
  The vocabulary every component theory shares.

  Machine integers are words of the source's width.  The repository's Makefile runs a plain
  \<^verbatim>\<open>cargo build\<close>, that is the dev profile, in which integer overflow, an out-of-range slice
  and \<^verbatim>\<open>kpanic!\<close> all stop the kernel.  A definition that can stop the kernel returns
  an \<open>option\<close>: \<open>None\<close> is "the kernel panicked and halted", so the do-notation of
  \<open>Monad_Syntax\<close> propagates a panic the way the hardware does.  The checked operations
  \<open>cadd\<close>, \<open>csub\<close> and \<open>cmul\<close> are the source's \<open>+\<close>, \<open>-\<close> and \<open>*\<close> in that profile (and also
  Rust's \<^verbatim>\<open>checked_add\<close> and \<^verbatim>\<open>checked_mul\<close>); \<open>rd\<close> and \<open>wr\<close> are slice accesses.
  Indices and lengths of type \<^verbatim>\<open>usize\<close> are \<open>nat\<close>.
\<close>

unbundle bit_operations_syntax

type_synonym u8 = "8 word"
type_synonym u16 = "16 word"
type_synonym u32 = "32 word"
type_synonym u64 = "64 word"

named_theorems buf_simps \<open>reading and writing byte buffers\<close>
named_theorems word_nat \<open>words read as natural numbers\<close>

section \<open>Checked arithmetic\<close>

definition cadd :: "'a::len word \<Rightarrow> 'a word \<Rightarrow> 'a word option" where
  "cadd a b = (if unat a + unat b < 2 ^ LENGTH('a) then Some (a + b) else None)"

definition csub :: "'a::len word \<Rightarrow> 'a word \<Rightarrow> 'a word option" where
  "csub a b = (if b \<le> a then Some (a - b) else None)"

definition cmul :: "'a::len word \<Rightarrow> 'a word \<Rightarrow> 'a word option" where
  "cmul a b = (if unat a * unat b < 2 ^ LENGTH('a) then Some (a * b) else None)"

lemma cadd_Some:
  "cadd a b = Some c \<longleftrightarrow> c = a + b \<and> unat a + unat b < 2 ^ LENGTH('a)"
  for a b c :: "'a::len word"
  by (auto simp: cadd_def)

lemma cadd_unat [word_nat]:
  "cadd a b = Some c \<Longrightarrow> unat c = unat a + unat b"
  for a b c :: "'a::len word"
  by (auto simp: cadd_def unat_word_ariths take_bit_nat_eq_self split: if_splits)

lemma csub_Some: "csub a b = Some c \<longleftrightarrow> c = a - b \<and> b \<le> a"
  by (auto simp: csub_def)

lemma csub_unat [word_nat]: "csub a b = Some c \<Longrightarrow> unat c = unat a - unat b"
  by (auto simp: csub_def unat_sub split: if_splits)

lemma cmul_Some:
  "cmul a b = Some c \<longleftrightarrow> c = a * b \<and> unat a * unat b < 2 ^ LENGTH('a)"
  for a b c :: "'a::len word"
  by (auto simp: cmul_def)

lemma cmul_unat [word_nat]:
  "cmul a b = Some c \<Longrightarrow> unat c = unat a * unat b"
  for a b c :: "'a::len word"
  by (auto simp: cmul_def unat_word_ariths take_bit_nat_eq_self split: if_splits)

lemma unat_add_bounded:
  "unat a + unat b < 2 ^ LENGTH('a) \<Longrightarrow> unat (a + b) = unat a + unat b"
  for a b :: "'a::len word"
  by (simp add: unat_word_ariths)

lemma unat_mult_bounded:
  "unat a * unat b < 2 ^ LENGTH('a) \<Longrightarrow> unat (a * b) = unat a * unat b"
  for a b :: "'a::len word"
  by (simp add: unat_word_ariths)

lemma unat_of_nat_bounded:
  "n < 2 ^ LENGTH('a) \<Longrightarrow> unat (of_nat n :: 'a::len word) = n"
  by (simp add: unat_of_nat take_bit_nat_eq_self)

lemma unat_u64: "unat x < 2 ^ 64" for x :: u64
proof -
  have "unat x < 2 ^ LENGTH(64)"
    by (rule unsigned_less)
  then show ?thesis
    by simp
qed

lemma word_mod_less: "n \<noteq> 0 \<Longrightarrow> x mod n < n" for x n :: "'a::len word"
  by (simp add: word_less_nat_alt unat_mod unat_gt_0)

lemma word_eq_unatI: "unat a = unat b \<Longrightarrow> a = b"
  by (rule word_unat_eq_iff [THEN iffD2])

lemma xor_cancel [simp]:
  "a XOR c = b XOR c \<longleftrightarrow> a = b" "c XOR a = c XOR b \<longleftrightarrow> a = b" for a b c :: "'a::len word"
  by (auto simp: bit_eq_iff bit_simps)

lemma bit_less_exp:
  fixes x :: "'a::len word"
  assumes x: "x < 2 ^ k" and b: "bit x n"
  shows "n < k"
proof (rule ccontr)
  assume n: "\<not> n < k"
  have "n < LENGTH('a)" using b by (rule bit_imp_le_length)
  then have "take_bit k x = x" using x n by (simp add: less_mask_eq take_bit_eq_mask)
  then show False using b n by (metis bit_take_bit_iff)
qed

section \<open>Alignment\<close>

lemma and_not_mask: "x AND NOT (mask n) = push_bit n (drop_bit n x)" for x :: "'a::len word"
  by (rule bit_word_eqI) (auto simp: bit_simps)

lemma unat_align_down: "unat (x AND NOT (mask n)) = unat x div 2 ^ n * 2 ^ n" for x :: "'a::len word"
proof -
  have "unat x div 2 ^ n * 2 ^ n \<le> unat x"
    by simp
  also have "\<dots> < 2 ^ LENGTH('a)"
    by (rule unsigned_less)
  finally show ?thesis
    unfolding and_not_mask unsigned_push_bit_eq unsigned_drop_bit_eq
    by (simp add: drop_bit_eq_div push_bit_eq_mult take_bit_nat_eq_self)
qed

lemma unat_align_low: "unat (x AND mask n) = unat x mod 2 ^ n" for x :: "'a::len word"
  unfolding take_bit_eq_mask [symmetric] unsigned_take_bit_eq by (rule take_bit_eq_mod)

lemma page_mask: "(0xFFF :: u64) = mask 12"
  by (simp add: mask_eq_exp_minus_1)

section \<open>Options as computations that may halt the kernel\<close>

lemma bind_eq_Some [simp]:
  "Option.bind m f = Some y \<longleftrightarrow> (\<exists>x. m = Some x \<and> f x = Some y)"
  by (cases m) auto

section \<open>Little-endian integers\<close>

text \<open>\<^verbatim>\<open>uN::from_le_bytes\<close> and \<^verbatim>\<open>to_le_bytes\<close>.\<close>

fun from_le_bytes :: "u8 list \<Rightarrow> 'a::len word" where
  "from_le_bytes [] = 0"
| "from_le_bytes (b # bs) = ucast b OR push_bit 8 (from_le_bytes bs)"

definition to_le_bytes :: "nat \<Rightarrow> 'a::len word \<Rightarrow> u8 list" where
  "to_le_bytes n w = map (\<lambda>i. ucast (drop_bit (8 * i) w)) [0..<n]"

lemma length_to_le_bytes [simp]: "length (to_le_bytes n w) = n"
  by (simp add: to_le_bytes_def)

lemma bit_from_le_bytes:
  "bit (from_le_bytes bs :: 'a::len word) k
     \<longleftrightarrow> k < LENGTH('a) \<and> k div 8 < length bs \<and> bit (bs ! (k div 8)) (k mod 8)"
proof (induction bs arbitrary: k)
  case Nil
  then show ?case by simp
next
  case (Cons b bs)
  show ?case
  proof (cases "k < 8")
    case True
    then show ?thesis
      by (auto simp: bit_simps)
  next
    case False
    then have "k div 8 = Suc ((k - 8) div 8)" "k mod 8 = (k - 8) mod 8"
      by (simp_all add: le_div_geq le_mod_geq)
    with False Cons.IH [of "k - 8"] show ?thesis
      by (auto simp: bit_simps dest: bit_imp_le_length)
  qed
qed

lemma from_to_le_bytes:
  assumes "LENGTH('a) = 8 * n"
  shows "from_le_bytes (to_le_bytes n w) = (w :: 'a::len word)"
proof (rule bit_word_eqI)
  fix k
  assume k: "k < LENGTH('a)"
  have "8 * (k div 8) + k mod 8 = k"
    by simp
  moreover have "k div 8 < n"
    using k assms by simp
  ultimately show "bit (from_le_bytes (to_le_bytes n w) :: 'a word) k = bit w k"
    using k by (simp add: bit_from_le_bytes to_le_bytes_def bit_simps)
qed

lemma from_to_le_bytes_sizes [simp]:
  "from_le_bytes (to_le_bytes 2 a) = (a :: u16)"
  "from_le_bytes (to_le_bytes 4 b) = (b :: u32)"
  "from_le_bytes (to_le_bytes 8 c) = (c :: u64)"
  by (simp_all add: from_to_le_bytes)

section \<open>Byte buffers\<close>

text \<open>\<open>rd b off n\<close> is \<^verbatim>\<open>&b[off..off + n]\<close>; \<open>wr b off bs\<close> copies \<open>bs\<close> to \<open>b\<close> at \<open>off\<close>.\<close>

definition rd :: "u8 list \<Rightarrow> nat \<Rightarrow> nat \<Rightarrow> u8 list option" where
  "rd b off n = (if off + n \<le> length b then Some (take n (drop off b)) else None)"

definition wr :: "u8 list \<Rightarrow> nat \<Rightarrow> u8 list \<Rightarrow> u8 list option" where
  "wr b off bs = (if off + length bs \<le> length b
     then Some (take off b @ bs @ drop (off + length bs) b) else None)"

lemma rd_length: "rd b off n = Some x \<Longrightarrow> length x = n"
  by (auto simp: rd_def split: if_splits)

lemma rd_Some: "rd b off n = Some x \<longleftrightarrow> off + n \<le> length b \<and> x = take n (drop off b)"
  by (auto simp: rd_def)

lemma wr_length [buf_simps]: "wr b off bs = Some b' \<Longrightarrow> length b' = length b"
  by (auto simp: wr_def split: if_splits)

lemma wr_Some:
  "wr b off bs = Some b' \<longleftrightarrow>
     off + length bs \<le> length b \<and> b' = take off b @ bs @ drop (off + length bs) b"
  by (auto simp: wr_def)

lemma rd_wr_same [buf_simps]:
  "wr b off bs = Some b' \<Longrightarrow> n = length bs \<Longrightarrow> rd b' off n = Some bs"
  by (auto simp: wr_def rd_def split: if_splits)

lemma wr_nth:
  "wr b off bs = Some b' \<Longrightarrow> k < length b \<Longrightarrow>
     b' ! k = (if off \<le> k \<and> k < off + length bs then bs ! (k - off) else b ! k)"
  by (auto simp: wr_def nth_append split: if_splits)

lemma rd_wr_other [buf_simps]:
  assumes "wr b off bs = Some b'" and "o2 + n \<le> off \<or> off + length bs \<le> o2"
  shows "rd b' o2 n = rd b o2 n"
proof (cases "o2 + n \<le> length b")
  case True
  have "take n (drop o2 b') = take n (drop o2 b)"
  proof (rule nth_equalityI)
    show "length (take n (drop o2 b')) = length (take n (drop o2 b))"
      using wr_length [OF assms(1)] by simp
  next
    fix i
    assume i: "i < length (take n (drop o2 b'))"
    then have "i < n" "o2 + i < length b"
      using True wr_length [OF assms(1)] by auto
    then show "take n (drop o2 b') ! i = take n (drop o2 b) ! i"
      using wr_nth [OF assms(1), of "o2 + i"] assms(2) i by auto
  qed
  then show ?thesis
    using True wr_length [OF assms(1)] by (simp add: rd_def)
next
  case False
  then show ?thesis
    using wr_length [OF assms(1)] by (simp add: rd_def)
qed

section \<open>Loops over a range\<close>

text \<open>\<^verbatim>\<open>for x in xs\<close> with a body that changes the state and may halt the kernel.\<close>

fun for_each :: "'a list \<Rightarrow> ('a \<Rightarrow> 's \<Rightarrow> 's option) \<Rightarrow> 's \<Rightarrow> 's option" where
  "for_each [] f s = Some s"
| "for_each (x # xs) f s = do { s \<leftarrow> f x s; for_each xs f s }"

lemma for_each_cong [fundef_cong]:
  "xs = ys \<Longrightarrow> s = t \<Longrightarrow> (\<And>x s. x \<in> set ys \<Longrightarrow> f x s = g x s) \<Longrightarrow> for_each xs f s = for_each ys g t"
  by (induction xs arbitrary: ys s t) (force intro: Option.bind_cong)+

lemma for_each_append: "for_each (xs @ ys) f s = Option.bind (for_each xs f s) (for_each ys f)"
  by (induction xs arbitrary: s) (auto split: Option.bind_split)

text \<open>Total correctness of a loop by an invariant.\<close>

lemma for_each_inv:
  assumes "P s" "\<And>x s. x \<in> set xs \<Longrightarrow> P s \<Longrightarrow> \<exists>s'. f x s = Some s' \<and> P s'"
  shows "\<exists>s'. for_each xs f s = Some s' \<and> P s'"
  using assms
proof (induction xs arbitrary: s)
  case (Cons x xs)
  from Cons.prems obtain s1 where "f x s = Some s1" "P s1" by force
  then show ?case using Cons by force
qed simp

text \<open>The same for a counting loop, with an invariant that names the number of rounds.\<close>

lemma for_each_upt:
  assumes "P m s" "\<And>i s. m \<le> i \<Longrightarrow> i < n \<Longrightarrow> P i s \<Longrightarrow> \<exists>s'. f i s = Some s' \<and> P (Suc i) s'" "m \<le> n"
  shows "\<exists>s'. for_each [m..<n] f s = Some s' \<and> P n s'"
proof -
  have "k \<le> n - m \<Longrightarrow> \<exists>s'. for_each [m..<m + k] f s = Some s' \<and> P (m + k) s'" for k
  proof (induction k)
    case (Suc k)
    then obtain s1 where s1: "for_each [m..<m + k] f s = Some s1" "P (m + k) s1" by auto
    have "m + k < n" using Suc.prems by simp
    with assms(2) [of "m + k" s1] s1 obtain s2 where "f (m + k) s1 = Some s2" "P (m + Suc k) s2" by auto
    then show ?case using s1 by (auto simp: for_each_append)
  qed (use assms(1) in simp)
  from this [of "n - m"] show ?thesis using assms(3) by simp
qed

end
