(* ===== verification/Crc.thy ===== *)
theory Crc
  imports Pinx_Prelude
begin

text \<open>
  \<^verbatim>\<open>src/crc.rs\<close>: the reflected, table-driven CRC-32 and CRC-32C.  \<open>build_table\<close> and \<open>update\<close>
  are the source's loops; \<open>crc_serial\<close> is the bit-serial definition of a reflected CRC, and
  the component's contract is that the table-driven code computes it.
\<close>

section \<open>The code\<close>

definition POLY_CRC32 :: u32 where
  "POLY_CRC32 = 0xEDB88320"

definition POLY_CRC32C :: u32 where
  "POLY_CRC32C = 0x82F63B78"

text \<open>One turn of the inner loop of \<^verbatim>\<open>build_table\<close>.\<close>

definition crc_step :: "u32 \<Rightarrow> u32 \<Rightarrow> u32" where
  "crc_step poly crc = (if crc AND 1 \<noteq> 0 then drop_bit 1 crc XOR poly else drop_bit 1 crc)"

definition build_table :: "u32 \<Rightarrow> u32 list" where
  "build_table poly = map (\<lambda>i. (crc_step poly ^^ 8) (of_nat i)) [0..<256]"

definition TABLE_CRC32 :: "u32 list" where
  "TABLE_CRC32 = build_table POLY_CRC32"

definition TABLE_CRC32C :: "u32 list" where
  "TABLE_CRC32C = build_table POLY_CRC32C"

fun update :: "u32 list \<Rightarrow> u32 \<Rightarrow> u8 list \<Rightarrow> u32" where
  "update table crc [] = crc"
| "update table crc (byte # data) =
     update table (drop_bit 8 crc XOR table ! unat ((crc XOR ucast byte) AND 0xFF)) data"

definition crc32 :: "u32 \<Rightarrow> u8 list \<Rightarrow> u32" where
  "crc32 crc data = update TABLE_CRC32 crc data"

definition crc32c :: "u32 \<Rightarrow> u8 list \<Rightarrow> u32" where
  "crc32c crc data = update TABLE_CRC32C crc data"

section \<open>The reference: a bit-serial shift register\<close>

fun crc_serial :: "u32 \<Rightarrow> u32 \<Rightarrow> u8 list \<Rightarrow> u32" where
  "crc_serial poly crc [] = crc"
| "crc_serial poly crc (byte # data) =
     crc_serial poly ((crc_step poly ^^ 8) (crc XOR ucast byte)) data"

lemma and_one_neq_0: "x AND 1 \<noteq> 0 \<longleftrightarrow> bit x 0" for x :: "'a::len word"
  by (simp add: and_one_eq mod_2_eq_odd bit_0)

lemma crc_step_xor: "crc_step poly (a XOR b) = crc_step poly a XOR crc_step poly b"
  by (rule bit_word_eqI) (auto simp: crc_step_def and_one_neq_0 bit_simps)

lemma crc_steps_xor:
  "(crc_step poly ^^ n) (a XOR b) = (crc_step poly ^^ n) a XOR (crc_step poly ^^ n) b"
  by (induction n arbitrary: a b) (simp_all add: crc_step_xor)

lemma crc_steps_shift:
  "(\<And>k. k < n \<Longrightarrow> \<not> bit x k) \<Longrightarrow> (crc_step poly ^^ n) x = drop_bit n x"
proof (induction n)
  case (Suc n)
  then have "(crc_step poly ^^ n) x = drop_bit n x" and "\<not> bit x n"
    by simp_all
  moreover have "crc_step poly (drop_bit n x) = drop_bit (Suc n) x" if "\<not> bit x n"
    using that by (simp add: crc_step_def and_one_neq_0 bit_simps)
  ultimately show ?case
    by simp
qed simp

lemma byte_mask: "(0xFF :: u32) = mask 8"
  by (simp add: mask_eq_exp_minus_1)

text \<open>Eight register steps are one table lookup.\<close>

lemma build_table_nth:
  "build_table poly ! unat (x AND 0xFF) = (crc_step poly ^^ 8) (x AND 0xFF)"
proof -
  have "unat (x AND 0xFF) \<le> unat (0xFF :: u32)"
    by (rule word_and_le1 [THEN word_le_nat_alt [THEN iffD1]])
  then have "unat (x AND 0xFF) < 256"
    by simp
  then show ?thesis
    by (simp add: build_table_def)
qed

lemma table_lookup:
  "drop_bit 8 x XOR build_table poly ! unat (x AND 0xFF) = (crc_step poly ^^ 8) x"
proof -
  have split: "x = (x AND NOT 0xFF) XOR (x AND 0xFF)"
    by (rule bit_word_eqI) (auto simp: bit_simps)
  have "(crc_step poly ^^ 8) (x AND NOT 0xFF) = drop_bit 8 (x AND NOT 0xFF)"
    by (rule crc_steps_shift) (auto simp: byte_mask bit_simps)
  moreover have "drop_bit 8 (x AND NOT 0xFF) = drop_bit 8 x"
    by (rule bit_word_eqI) (auto simp: byte_mask bit_simps dest: bit_imp_le_length)
  ultimately show ?thesis
    by (metis (no_types) split crc_steps_xor build_table_nth)
qed

lemma update_build_table: "update (build_table poly) crc data = crc_serial poly crc data"
proof (induction data arbitrary: crc)
  case (Cons b data)
  have "drop_bit 8 (crc XOR ucast b) = drop_bit 8 crc"
    by (rule bit_word_eqI) (auto simp: bit_simps dest: bit_imp_le_length)
  then show ?case
    using table_lookup [of "crc XOR ucast b" poly] by (simp add: Cons.IH)
qed simp

lemma crc32_serial: "crc32 crc data = crc_serial POLY_CRC32 crc data"
  by (simp add: crc32_def TABLE_CRC32_def update_build_table)

lemma crc32c_serial: "crc32c crc data = crc_serial POLY_CRC32C crc data"
  by (simp add: crc32c_def TABLE_CRC32C_def update_build_table)

lemma crc_serial_append:
  "crc_serial poly crc (a @ b) = crc_serial poly (crc_serial poly crc a) b"
  by (induction a arbitrary: crc) simp_all

section \<open>Injectivity of the register, and the errors it detects\<close>

lemma crc_step_inj:
  assumes "bit poly 31" and "crc_step poly x = crc_step poly y"
  shows "x = y"
proof -
  have top: "bit (crc_step poly z) 31 = bit z 0" for z
    using assms(1) by (auto simp: crc_step_def and_one_neq_0 bit_simps dest: bit_imp_le_length)
  have "bit x 0 = bit y 0"
    using top [of x] top [of y] assms(2) by simp
  moreover from this have "drop_bit 1 x = drop_bit 1 y"
    using assms(2) by (auto simp: crc_step_def and_one_neq_0 split: if_splits)
  then have "bit x (Suc k) = bit y (Suc k)" for k
    by (metis bit_drop_bit_eq comp_apply plus_1_eq_Suc)
  ultimately have "bit x k = bit y k" for k
    by (cases k) simp_all
  then show ?thesis
    by (simp add: bit_eq_iff)
qed

lemma crc_steps_inj:
  "bit poly 31 \<Longrightarrow> (crc_step poly ^^ n) x = (crc_step poly ^^ n) y \<Longrightarrow> x = y"
  by (induction n) (auto dest: crc_step_inj)

lemma crc_serial_inj:
  "bit poly 31 \<Longrightarrow> crc_serial poly x data = crc_serial poly y data \<Longrightarrow> x = y"
proof (induction data arbitrary: x y)
  case (Cons b data)
  then have "(crc_step poly ^^ 8) (x XOR ucast b) = (crc_step poly ^^ 8) (y XOR ucast b)"
    by simp
  then have "x XOR ucast b = y XOR ucast b"
    by (rule crc_steps_inj [OF Cons.prems(1)])
  then show ?case
    by simp
qed simp

lemma from_le_bytes_xor:
  "from_le_bytes (b # bs) = (ucast b XOR push_bit 8 (from_le_bytes bs) :: u32)"
  by (rule bit_word_eqI) (auto simp: bit_simps dest: bit_imp_le_length)

text \<open>A run of up to four bytes enters the register as one little-endian word.\<close>

lemma crc_serial_word:
  "length bs \<le> 4 \<Longrightarrow>
     crc_serial poly crc bs = (crc_step poly ^^ (8 * length bs)) (crc XOR from_le_bytes bs)"
proof (induction bs arbitrary: crc)
  case (Cons b bs)
  let ?le = "from_le_bytes bs :: u32"
  have "(crc_step poly ^^ 8) (push_bit 8 ?le) = drop_bit 8 (push_bit 8 ?le)"
    by (rule crc_steps_shift) (auto simp: bit_simps)
  also have "\<dots> = ?le"
    using Cons.prems
    by (intro bit_word_eqI) (auto simp: bit_simps bit_from_le_bytes div_nat_eqI)
  finally have le: "(crc_step poly ^^ 8) (push_bit 8 ?le) = ?le" .
  have "crc_serial poly crc (b # bs)
      = (crc_step poly ^^ (8 * length bs)) ((crc_step poly ^^ 8) (crc XOR ucast b) XOR ?le)"
    using Cons by simp
  also have "\<dots> = (crc_step poly ^^ (8 * length bs))
      ((crc_step poly ^^ 8) ((crc XOR ucast b) XOR push_bit 8 ?le))"
    by (simp add: crc_steps_xor [where n = 8] le)
  also have "\<dots> = (crc_step poly ^^ (8 * length (b # bs))) (crc XOR from_le_bytes (b # bs))"
    by (simp add: from_le_bytes_xor funpow_add xor.assoc add.commute [of 8] del: from_le_bytes.simps)
  finally show ?case .
qed simp

lemma from_le_bytes_inj:
  assumes "length a = 4" "length b = 4" "from_le_bytes a = (from_le_bytes b :: u32)"
  shows "a = b"
proof (rule nth_equalityI)
  show "length a = length b"
    using assms by simp
next
  fix i
  assume i: "i < length a"
  show "a ! i = b ! i"
  proof (rule bit_word_eqI)
    fix n
    assume n: "n < LENGTH(8)"
    then have "(8 * i + n) div 8 = i" "(8 * i + n) mod 8 = n" "8 * i + n < 32"
      using i assms(1) by (auto simp: div_nat_eqI)
    moreover have "bit (from_le_bytes a :: u32) (8 * i + n) = bit (from_le_bytes b :: u32) (8 * i + n)"
      using assms(3) by simp
    ultimately show "bit (a ! i) n = bit (b ! i) n"
      using i n assms(1,2) by (simp add: bit_from_le_bytes)
  qed
qed

lemma crc_serial_burst:
  assumes poly: "bit poly 31"
    and eq: "crc_serial poly crc (p @ a @ s) = crc_serial poly crc (p @ b @ s)"
    and len: "length a = 4" "length b = 4"
  shows "a = b"
proof -
  have "crc_serial poly (crc_serial poly crc p) a = crc_serial poly (crc_serial poly crc p) b"
    using eq by (auto simp: crc_serial_append dest: crc_serial_inj [OF poly])
  then have "crc_serial poly crc p XOR from_le_bytes a = crc_serial poly crc p XOR from_le_bytes b"
    using len by (auto simp: crc_serial_word dest: crc_steps_inj [OF poly])
  then have "from_le_bytes a = (from_le_bytes b :: u32)"
    by simp
  then show ?thesis
    using len by (rule from_le_bytes_inj [rotated 2])
qed

lemma poly_top_bit: "bit POLY_CRC32 31" "bit POLY_CRC32C 31"
  by (simp_all add: POLY_CRC32_def POLY_CRC32C_def bit_numeral_rec)

section \<open>Properties\<close>

text \<open>
  C17: the table-driven \<^verbatim>\<open>crc32\<close> and \<^verbatim>\<open>crc32c\<close> compute the bit-serial reflected CRC of their
  polynomial, for every register value and every message.
\<close>

theorem crc_table_driven_is_serial:
  "crc32 crc data = crc_serial POLY_CRC32 crc data
     \<and> crc32c crc data = crc_serial POLY_CRC32C crc data"
  by (simp add: crc32_serial crc32c_serial)

text \<open>
  The checksums the on-disk structures rely on detect every corruption that is confined to
  four consecutive bytes, wherever it lies in the message.
\<close>

lemma crc_detects_four_byte_burst:
  assumes "length a = 4" and "length b = 4" and "a \<noteq> b"
  shows "crc32 crc (p @ a @ s) \<noteq> crc32 crc (p @ b @ s)
    \<and> crc32c crc (p @ a @ s) \<noteq> crc32c crc (p @ b @ s)"
  using assms crc_serial_burst [OF poly_top_bit(1)] crc_serial_burst [OF poly_top_bit(2)]
  by (metis crc32_serial crc32c_serial)

end
