(* ===== verification/Keyboard.thy ===== *)
theory Keyboard
  imports Pinx_Prelude
begin

text \<open>
  \<^verbatim>\<open>src/keyboard.rs\<close>: the PS/2 scancode decoder and its key ring.  The static variables are
  the record \<open>keyboard\<close>; \<open>irq\<close> takes the byte the source reads from port \<^verbatim>\<open>0x60\<close>.  The
  ring is specified by the locale \<open>key_ring\<close> as a bounded queue and \<open>buffer_push\<close>,
  \<open>input\<close> and \<open>has_input\<close> are shown to implement it.  The programming of the controller
  (\<^verbatim>\<open>kbd_cmd\<close> to \<^verbatim>\<open>init\<close>) takes the I/O ports as a parameter.
\<close>

section \<open>Scancode tables\<close>

definition BUFFER_SIZE :: u32 where
  "BUFFER_SIZE = 256"

definition KEY_NONE :: u8 where
  "KEY_NONE = 0"

definition table :: "(nat \<times> u8) list \<Rightarrow> u8 list" where
  "table entries = fold (\<lambda>(i, v) out. out[i := v]) entries (replicate 128 KEY_NONE)"

text \<open>The keypad block is the same in both tables.\<close>

definition SCANCODE_TO_ASCII :: "u8 list" where
  "SCANCODE_TO_ASCII = table
    [(0x01, 0x1B),
     (0x02, of_char CHR ''1''), (0x03, of_char CHR ''2''), (0x04, of_char CHR ''3''),
     (0x05, of_char CHR ''4''), (0x06, of_char CHR ''5''), (0x07, of_char CHR ''6''),
     (0x08, of_char CHR ''7''), (0x09, of_char CHR ''8''), (0x0A, of_char CHR ''9''),
     (0x0B, of_char CHR ''0''), (0x0C, of_char CHR ''-''), (0x0D, of_char CHR ''=''),
     (0x0E, 0x08), (0x0F, 0x09),
     (0x10, of_char CHR ''q''), (0x11, of_char CHR ''w''), (0x12, of_char CHR ''e''),
     (0x13, of_char CHR ''r''), (0x14, of_char CHR ''t''), (0x15, of_char CHR ''y''),
     (0x16, of_char CHR ''u''), (0x17, of_char CHR ''i''), (0x18, of_char CHR ''o''),
     (0x19, of_char CHR ''p''), (0x1A, of_char CHR ''[''), (0x1B, of_char CHR '']''),
     (0x1C, 0x0A),
     (0x1E, of_char CHR ''a''), (0x1F, of_char CHR ''s''), (0x20, of_char CHR ''d''),
     (0x21, of_char CHR ''f''), (0x22, of_char CHR ''g''), (0x23, of_char CHR ''h''),
     (0x24, of_char CHR ''j''), (0x25, of_char CHR ''k''), (0x26, of_char CHR ''l''),
     (0x27, of_char CHR '';''), (0x28, 0x27), (0x29, 0x60), (0x2B, 0x5C),
     (0x2C, of_char CHR ''z''), (0x2D, of_char CHR ''x''), (0x2E, of_char CHR ''c''),
     (0x2F, of_char CHR ''v''), (0x30, of_char CHR ''b''), (0x31, of_char CHR ''n''),
     (0x32, of_char CHR ''m''), (0x33, of_char CHR '',''), (0x34, of_char CHR ''.''),
     (0x35, of_char CHR ''/''), (0x37, of_char CHR ''*''), (0x39, 0x20),
     (0x47, of_char CHR ''7''), (0x48, of_char CHR ''8''), (0x49, of_char CHR ''9''),
     (0x4A, of_char CHR ''-''), (0x4B, of_char CHR ''4''), (0x4C, of_char CHR ''5''),
     (0x4D, of_char CHR ''6''), (0x4E, of_char CHR ''+''), (0x4F, of_char CHR ''1''),
     (0x50, of_char CHR ''2''), (0x51, of_char CHR ''3''), (0x52, of_char CHR ''0''),
     (0x53, of_char CHR ''.'')]"

definition SCANCODE_TO_ASCII_SHIFT :: "u8 list" where
  "SCANCODE_TO_ASCII_SHIFT = table
    [(0x01, 0x1B),
     (0x02, of_char CHR ''!''), (0x03, of_char CHR ''@''), (0x04, of_char CHR ''#''),
     (0x05, of_char CHR ''$''), (0x06, of_char CHR ''%''), (0x07, of_char CHR ''^''),
     (0x08, of_char CHR ''&''), (0x09, of_char CHR ''*''), (0x0A, of_char CHR ''(''),
     (0x0B, of_char CHR '')''), (0x0C, of_char CHR ''_''), (0x0D, of_char CHR ''+''),
     (0x0E, 0x08), (0x0F, 0x09),
     (0x10, of_char CHR ''Q''), (0x11, of_char CHR ''W''), (0x12, of_char CHR ''E''),
     (0x13, of_char CHR ''R''), (0x14, of_char CHR ''T''), (0x15, of_char CHR ''Y''),
     (0x16, of_char CHR ''U''), (0x17, of_char CHR ''I''), (0x18, of_char CHR ''O''),
     (0x19, of_char CHR ''P''), (0x1A, of_char CHR ''{''), (0x1B, of_char CHR ''}''),
     (0x1C, 0x0A),
     (0x1E, of_char CHR ''A''), (0x1F, of_char CHR ''S''), (0x20, of_char CHR ''D''),
     (0x21, of_char CHR ''F''), (0x22, of_char CHR ''G''), (0x23, of_char CHR ''H''),
     (0x24, of_char CHR ''J''), (0x25, of_char CHR ''K''), (0x26, of_char CHR ''L''),
     (0x27, of_char CHR '':''), (0x28, 0x22), (0x29, of_char CHR ''~''),
     (0x2B, of_char CHR ''|''),
     (0x2C, of_char CHR ''Z''), (0x2D, of_char CHR ''X''), (0x2E, of_char CHR ''C''),
     (0x2F, of_char CHR ''V''), (0x30, of_char CHR ''B''), (0x31, of_char CHR ''N''),
     (0x32, of_char CHR ''M''), (0x33, of_char CHR ''<''), (0x34, of_char CHR ''>''),
     (0x35, of_char CHR ''?''), (0x37, of_char CHR ''*''), (0x39, 0x20),
     (0x47, of_char CHR ''7''), (0x48, of_char CHR ''8''), (0x49, of_char CHR ''9''),
     (0x4A, of_char CHR ''-''), (0x4B, of_char CHR ''4''), (0x4C, of_char CHR ''5''),
     (0x4D, of_char CHR ''6''), (0x4E, of_char CHR ''+''), (0x4F, of_char CHR ''1''),
     (0x50, of_char CHR ''2''), (0x51, of_char CHR ''3''), (0x52, of_char CHR ''0''),
     (0x53, of_char CHR ''.'')]"

definition EXTENDED_TO_KEY :: "u8 list" where
  "EXTENDED_TO_KEY = table
    [(0x48, 0x80), (0x50, 0x81), (0x4B, 0x82), (0x4D, 0x83),
     (0x47, 0x84), (0x4F, 0x85), (0x49, 0x86), (0x51, 0x87), (0x52, 0x88), (0x53, 0x89),
     (0x3B, 0x8A), (0x3C, 0x8B), (0x3D, 0x8C), (0x3E, 0x8D), (0x3F, 0x8E), (0x40, 0x8F),
     (0x41, 0x90), (0x42, 0x91), (0x43, 0x92), (0x44, 0x93), (0x57, 0x94), (0x5D, 0x95),
     (0x1D, KEY_NONE), (0x38, KEY_NONE), (0x5B, KEY_NONE)]"

section \<open>State and ring buffer\<close>

record keyboard =
  kb_buffer :: "u8 list"
  kb_head :: u32
  kb_tail :: u32
  shift_held :: u8
  ctrl_held :: u8
  alt_held :: u8
  caps_lock :: u8
  extended_prefix :: u8

definition keyboard_start :: keyboard where
  "keyboard_start = \<lparr>kb_buffer = replicate 256 0, kb_head = 0, kb_tail = 0, shift_held = 0,
     ctrl_held = 0, alt_held = 0, caps_lock = 0, extended_prefix = 0\<rparr>"

definition buffer_push :: "u8 \<Rightarrow> keyboard \<Rightarrow> keyboard" where
  "buffer_push key k =
     (let next = (kb_head k + 1) mod BUFFER_SIZE in
      if next \<noteq> kb_tail k
      then k\<lparr>kb_buffer := (kb_buffer k)[unat (kb_head k) := key], kb_head := next\<rparr>
      else k)"

definition input :: "keyboard \<Rightarrow> u8 \<times> keyboard" where
  "input k =
     (if kb_head k = kb_tail k then (KEY_NONE, k)
      else (kb_buffer k ! unat (kb_tail k), k\<lparr>kb_tail := (kb_tail k + 1) mod BUFFER_SIZE\<rparr>))"

definition has_input :: "keyboard \<Rightarrow> bool" where
  "has_input k \<longleftrightarrow> kb_head k \<noteq> kb_tail k"

section \<open>The controller\<close>

text \<open>
  Programming the controller over its two ports.  The ports are a parameter: a read may change the device, so both operations thread its state.  The
  waits give up after a thousand polls; \<^verbatim>\<open>kbd_flush\<close> reads as long as the controller offers a byte.
\<close>

definition DATA_PORT :: u16 where "DATA_PORT = 0x60"
definition CMD_PORT :: u16 where "CMD_PORT = 0x64"

record 'h ports =
  inb :: "u16 \<Rightarrow> 'h \<Rightarrow> u8 \<times> 'h"
  outb :: "u16 \<Rightarrow> u8 \<Rightarrow> 'h \<Rightarrow> 'h"

definition io_wait :: "'h ports \<Rightarrow> 'h \<Rightarrow> 'h" where "io_wait P = outb P 0x80 0"

fun kbd_send :: "'h ports \<Rightarrow> nat \<Rightarrow> u16 \<Rightarrow> u8 \<Rightarrow> 'h \<Rightarrow> 'h" where
  "kbd_send P 0 port val h = h"
| "kbd_send P (Suc n) port val h =
     (let (status, h) = inb P CMD_PORT h in
      if status AND 0x02 = 0 then outb P port val h else kbd_send P n port val (io_wait P h))"

definition kbd_cmd :: "'h ports \<Rightarrow> u8 \<Rightarrow> 'h \<Rightarrow> 'h" where "kbd_cmd P = kbd_send P 1000 CMD_PORT"
definition kbd_write :: "'h ports \<Rightarrow> u8 \<Rightarrow> 'h \<Rightarrow> 'h" where "kbd_write P = kbd_send P 1000 DATA_PORT"

fun kbd_poll :: "'h ports \<Rightarrow> nat \<Rightarrow> 'h \<Rightarrow> u8 \<times> 'h" where
  "kbd_poll P 0 h = (0, h)"
| "kbd_poll P (Suc n) h =
     (let (status, h) = inb P CMD_PORT h in
      if status AND 0x01 \<noteq> 0 then inb P DATA_PORT h else kbd_poll P n (io_wait P h))"

definition kbd_read :: "'h ports \<Rightarrow> 'h \<Rightarrow> u8 \<times> 'h" where "kbd_read P = kbd_poll P 1000"

partial_function (option) kbd_flush :: "'h ports \<Rightarrow> 'h \<Rightarrow> 'h option" where
  "kbd_flush P h =
     (let (status, h) = inb P CMD_PORT h in
      if status AND 0x01 \<noteq> 0 then kbd_flush P (io_wait P (snd (inb P DATA_PORT h))) else Some h)"

definition keyboard_init :: "'h ports \<Rightarrow> 'h \<times> keyboard \<Rightarrow> ('h \<times> keyboard) option" where
  "keyboard_init P = (\<lambda>(h, k). do {
     h \<leftarrow> kbd_flush P (kbd_cmd P 0xAD h);
     let (config, h) = kbd_read P (kbd_cmd P 0x20 h);
     let config = ((config OR 0x01) OR 0x40) AND NOT 0x10;
     let h = kbd_write P config (kbd_cmd P 0x60 h);
     let h = kbd_cmd P 0xAE h;
     let (_, h) = kbd_read P (kbd_write P 0xF4 h);
     Some (h, k\<lparr>shift_held := 0, ctrl_held := 0, alt_held := 0, caps_lock := 0, extended_prefix := 0, kb_head := 0, kb_tail := 0\<rparr>)
   })"

section \<open>Decoding\<close>

definition is_ascii_lowercase :: "u8 \<Rightarrow> bool" where
  "is_ascii_lowercase c \<longleftrightarrow> 0x61 \<le> c \<and> c \<le> 0x7A"

definition is_ascii_uppercase :: "u8 \<Rightarrow> bool" where
  "is_ascii_uppercase c \<longleftrightarrow> 0x41 \<le> c \<and> c \<le> 0x5A"

definition apply_caps_lock :: "keyboard \<Rightarrow> u8 \<Rightarrow> bool \<Rightarrow> u8" where
  "apply_caps_lock k c is_alpha =
     (if caps_lock k = 0 \<or> \<not> is_alpha then c
      else if is_ascii_lowercase c then c - 32
      else if is_ascii_uppercase c then c + 32
      else c)"

definition scancode_is_alpha :: "u8 \<Rightarrow> bool" where
  "scancode_is_alpha scancode \<longleftrightarrow>
     (0x10 \<le> scancode \<and> scancode \<le> 0x19) \<or> (0x1E \<le> scancode \<and> scancode \<le> 0x26)
       \<or> (0x2C \<le> scancode \<and> scancode \<le> 0x32)"

text \<open>The tail of \<^verbatim>\<open>irq\<close>, reached by a press of an ordinary key.\<close>

definition irq_key :: "u8 \<Rightarrow> keyboard \<Rightarrow> keyboard" where
  "irq_key scancode k =
     (let is_shift = shift_held k \<noteq> 0;
          is_alpha = scancode_is_alpha scancode;
          c = (if is_shift then SCANCODE_TO_ASCII_SHIFT ! unat scancode
               else SCANCODE_TO_ASCII ! unat scancode)
      in if c = KEY_NONE then k
         else let c = (if is_alpha then apply_caps_lock k c True
                       else if caps_lock k \<noteq> 0 \<and> is_shift then apply_caps_lock k c False
                       else c);
                  c = (if ctrl_held k \<noteq> 0
                       then (if is_ascii_lowercase c then c - 0x61 + 1
                             else if is_ascii_uppercase c then c - 0x41 + 1
                             else c)
                       else c)
              in buffer_push c k)"

definition irq :: "u8 \<Rightarrow> keyboard \<Rightarrow> keyboard" where
  "irq scancode k =
     (if scancode = 0xE0 then k\<lparr>extended_prefix := 1\<rparr>
      else if extended_prefix k \<noteq> 0 then
        (let k = k\<lparr>extended_prefix := 0\<rparr> in
         if scancode = 0x2A \<or> scancode = 0x36 then k\<lparr>shift_held := 0\<rparr>
         else if scancode AND 0x80 \<noteq> 0 then k
         else let key = EXTENDED_TO_KEY ! unat scancode in
              if key \<noteq> KEY_NONE then buffer_push key k else k)
      else if scancode = 0x2A \<or> scancode = 0x36 then k\<lparr>shift_held := 1\<rparr>
      else if scancode = 0x1D then k\<lparr>ctrl_held := 1\<rparr>
      else if scancode = 0x38 then k\<lparr>alt_held := 1\<rparr>
      else if scancode = 0x3A then k\<lparr>caps_lock := caps_lock k XOR 1\<rparr>
      else if scancode AND 0x80 \<noteq> 0 then
        (let released = scancode AND 0x7F in
         if released = 0x2A \<or> released = 0x36 then k\<lparr>shift_held := 0\<rparr>
         else if released = 0x1D then k\<lparr>ctrl_held := 0\<rparr>
         else if released = 0x38 then k\<lparr>alt_held := 0\<rparr>
         else k)
      else if scancode \<ge> 128 then k
      else irq_key scancode k)"

section \<open>The ring as a bounded queue\<close>

text \<open>\<open>drain pop n s\<close> is what \<open>n\<close> reads in a row return.\<close>

primrec drain :: "('s \<Rightarrow> 'x \<times> 's) \<Rightarrow> nat \<Rightarrow> 's \<Rightarrow> 'x list" where
  "drain pop 0 s = []"
| "drain pop (Suc n) s = fst (pop s) # drain pop n (snd (pop s))"

locale key_ring =
  fixes push :: "'x \<Rightarrow> 's \<Rightarrow> 's"
    and pop :: "'s \<Rightarrow> 'x \<times> 's"
    and ready :: "'s \<Rightarrow> bool"
    and queue :: "'s \<Rightarrow> 'x list"
    and invar :: "'s \<Rightarrow> bool"
    and cap :: nat
  assumes queue_push:
      "invar s \<Longrightarrow> queue (push x s) = (if length (queue s) < cap then queue s @ [x] else queue s)"
    and queue_pop: "invar s \<Longrightarrow> queue (snd (pop s)) = tl (queue s)"
    and fst_pop: "invar s \<Longrightarrow> queue s \<noteq> [] \<Longrightarrow> fst (pop s) = hd (queue s)"
    and ready_queue: "invar s \<Longrightarrow> ready s \<longleftrightarrow> queue s \<noteq> []"
    and invar_push: "invar s \<Longrightarrow> invar (push x s)"
    and invar_pop: "invar s \<Longrightarrow> invar (snd (pop s))"
begin

lemma invar_pushes: "invar s \<Longrightarrow> invar (fold push xs s)"
  by (induction xs arbitrary: s) (auto simp: invar_push)

lemma queue_pushes:
  "invar s \<Longrightarrow> queue (fold push xs s) = queue s @ take (cap - length (queue s)) xs"
proof (induction xs arbitrary: s)
  case (Cons x xs)
  then show ?case
    by (auto simp: invar_push queue_push take_Cons')
qed simp

lemma drain_queue: "invar s \<Longrightarrow> n \<le> length (queue s) \<Longrightarrow> drain pop n s = take n (queue s)"
proof (induction n arbitrary: s)
  case (Suc n)
  then have "queue s \<noteq> []"
    by auto
  with Suc show ?case
    by (cases "queue s") (auto simp: fst_pop queue_pop invar_pop)
qed simp

lemma drain_pushes:
  assumes "invar s" and "n \<le> length (queue s) + min (cap - length (queue s)) (length xs)"
  shows "drain pop n (fold push xs s) = take n (queue s @ take (cap - length (queue s)) xs)"
  using assms by (subst drain_queue) (auto simp: invar_pushes queue_pushes)

end

definition kb_wf :: "keyboard \<Rightarrow> bool" where
  "kb_wf k \<longleftrightarrow> length (kb_buffer k) = 256 \<and> kb_head k < 256 \<and> kb_tail k < 256"

definition kb_count :: "keyboard \<Rightarrow> nat" where
  "kb_count k = (unat (kb_head k) + 256 - unat (kb_tail k)) mod 256"

lemma ring_mod: "x < 512 \<Longrightarrow> x mod 256 = (if x < 256 then x else x - 256)" for x :: nat
  by (simp add: mod_if)

definition kb_queue :: "keyboard \<Rightarrow> u8 list" where
  "kb_queue k = map (\<lambda>i. kb_buffer k ! ((unat (kb_tail k) + i) mod 256)) [0..<kb_count k]"

lemma length_kb_queue [simp]: "length (kb_queue k) = kb_count k"
  by (simp add: kb_queue_def)

lemma unat_ring_succ:
  assumes "w < 256"
  shows "unat ((w + 1) mod BUFFER_SIZE) = (unat w + 1) mod 256"
proof -
  have "unat w < 256"
    using assms by (simp add: word_less_nat_alt)
  then show ?thesis
    by (simp add: BUFFER_SIZE_def unat_mod unat_add_bounded)
qed

lemma kb_wf_unat:
  "kb_wf k \<longleftrightarrow> length (kb_buffer k) = 256 \<and> unat (kb_head k) < 256 \<and> unat (kb_tail k) < 256"
  by (simp add: kb_wf_def word_less_nat_alt)

lemma ring_full:
  assumes "kb_wf k"
  shows "(kb_head k + 1) mod BUFFER_SIZE \<noteq> kb_tail k \<longleftrightarrow> kb_count k < 255"
proof -
  have "(kb_head k + 1) mod BUFFER_SIZE = kb_tail k
      \<longleftrightarrow> (unat (kb_head k) + 1) mod 256 = unat (kb_tail k)"
    using assms by (simp add: word_unat_eq_iff unat_ring_succ kb_wf_def)
  then show ?thesis
    using assms by (auto simp: kb_wf_unat kb_count_def ring_mod split: if_splits)
qed

lemma kb_wf_buffer_push: "kb_wf k \<Longrightarrow> kb_wf (buffer_push x k)"
  by (auto simp: kb_wf_def buffer_push_def Let_def word_less_nat_alt unat_ring_succ)

lemma kb_count_push:
  assumes "kb_wf k" "kb_count k < 255"
  shows "kb_count (buffer_push x k) = Suc (kb_count k)"
proof -
  have ht: "unat (kb_head k) < 256" "unat (kb_tail k) < 256" "kb_head k < 256"
    using assms by (simp_all add: kb_wf_def word_less_nat_alt)
  have "buffer_push x k = k\<lparr>kb_buffer := (kb_buffer k)[unat (kb_head k) := x],
      kb_head := (kb_head k + 1) mod BUFFER_SIZE\<rparr>"
    using assms ring_full [OF assms(1)] by (simp add: buffer_push_def Let_def)
  with ht assms(2) show ?thesis
    by (auto simp: unat_ring_succ kb_count_def ring_mod split: if_splits)
qed

lemma kb_queue_push:
  assumes wf: "kb_wf k"
  shows "kb_queue (buffer_push x k)
    = (if length (kb_queue k) < 255 then kb_queue k @ [x] else kb_queue k)"
proof (cases "kb_count k < 255")
  case True
  let ?h = "unat (kb_head k)" and ?t = "unat (kb_tail k)"
  have ht: "?h < 256" "?t < 256" "length (kb_buffer k) = 256"
    using wf by (auto simp: kb_wf_unat)
  have k': "kb_buffer (buffer_push x k) = (kb_buffer k)[?h := x]"
      "kb_tail (buffer_push x k) = kb_tail k"
    using True wf by (simp_all add: buffer_push_def ring_full)
  have last: "(?t + kb_count k) mod 256 = ?h"
    using ht by (auto simp: kb_count_def ring_mod split: if_splits)
  have other: "?h \<noteq> (?t + i) mod 256" if "i < kb_count k" for i
    using that ht by (auto simp: kb_count_def ring_mod split: if_splits)
  have "kb_queue (buffer_push x k)
      = map (\<lambda>i. (kb_buffer k)[?h := x] ! ((?t + i) mod 256)) [0..<kb_count k] @ [x]"
    using ht by (simp add: kb_queue_def kb_count_push [OF wf True] k' last)
  also have "\<dots> = kb_queue k @ [x]"
    by (simp add: kb_queue_def nth_list_update_neq [OF other])
  finally show ?thesis
    using True by simp
next
  case False
  then have "buffer_push x k = k"
    using ring_full [OF wf] by (simp add: buffer_push_def Let_def)
  with False show ?thesis
    by simp
qed

lemma kb_empty: "kb_wf k \<Longrightarrow> kb_head k = kb_tail k \<longleftrightarrow> kb_queue k = []"
proof -
  assume "kb_wf k"
  then have "unat (kb_head k) < 256" "unat (kb_tail k) < 256"
    by (auto simp: kb_wf_unat)
  then have "unat (kb_head k) = unat (kb_tail k) \<longleftrightarrow> kb_count k = 0"
    by (auto simp: kb_count_def ring_mod split: if_splits)
  then show ?thesis
    by (simp add: word_unat_eq_iff kb_queue_def)
qed

lemma kb_wf_input: "kb_wf k \<Longrightarrow> kb_wf (snd (input k))"
  by (auto simp: kb_wf_def input_def word_less_nat_alt unat_ring_succ)

lemma kb_queue_input:
  assumes wf: "kb_wf k" and ne: "kb_queue k \<noteq> []"
  shows "kb_queue k = fst (input k) # kb_queue (snd (input k))"
proof -
  let ?t = "unat (kb_tail k)"
  have ht: "unat (kb_head k) < 256" "?t < 256" "kb_tail k < 256"
    using wf by (simp_all add: kb_wf_def word_less_nat_alt)
  have step: "input k
      = (kb_buffer k ! ?t, k\<lparr>kb_tail := (kb_tail k + 1) mod BUFFER_SIZE\<rparr>)"
    using kb_empty [OF wf] ne by (simp add: input_def)
  have "kb_count k \<noteq> 0"
    using ne by (simp add: kb_queue_def)
  then have cnt: "kb_count k = Suc (kb_count (snd (input k)))"
    using ht by (auto simp: step kb_count_def unat_ring_succ ring_mod split: if_splits)
  have "(?t + Suc i) mod 256 = ((?t + 1) mod 256 + i) mod 256" for i
    by (simp add: mod_simps)
  then have "map (\<lambda>i. kb_buffer k ! ((?t + Suc i) mod 256)) [0..<kb_count (snd (input k))]
      = kb_queue (snd (input k))"
    using ht by (simp add: kb_queue_def step unat_ring_succ)
  then show ?thesis
    using ht by (simp add: kb_queue_def [of k] cnt step map_upt_Suc del: upt_Suc)
qed

interpretation kb: key_ring buffer_push input has_input kb_queue kb_wf 255
proof
  fix k :: keyboard
  assume wf: "kb_wf k"
  show "kb_queue (snd (input k)) = tl (kb_queue k)"
    using kb_queue_input [OF wf] kb_empty [OF wf] by (cases "kb_queue k") (auto simp: input_def)
  show "fst (input k) = hd (kb_queue k)" if "kb_queue k \<noteq> []"
    using kb_queue_input [OF wf that] by (metis list.sel(1))
  show "has_input k \<longleftrightarrow> kb_queue k \<noteq> []"
    using kb_empty [OF wf] by (simp add: has_input_def)
qed (auto simp: kb_queue_push kb_wf_buffer_push kb_wf_input)

section \<open>What an interrupt does to the queue\<close>

lemma kb_queue_flags [simp]:
  "kb_queue (k\<lparr>shift_held := a\<rparr>) = kb_queue k" "kb_queue (k\<lparr>ctrl_held := a\<rparr>) = kb_queue k"
  "kb_queue (k\<lparr>alt_held := a\<rparr>) = kb_queue k" "kb_queue (k\<lparr>caps_lock := a\<rparr>) = kb_queue k"
  "kb_queue (k\<lparr>extended_prefix := a\<rparr>) = kb_queue k"
  by (simp_all add: kb_queue_def kb_count_def)

lemma kb_wf_flags [simp]:
  "kb_wf (k\<lparr>shift_held := a\<rparr>) = kb_wf k" "kb_wf (k\<lparr>ctrl_held := a\<rparr>) = kb_wf k"
  "kb_wf (k\<lparr>alt_held := a\<rparr>) = kb_wf k" "kb_wf (k\<lparr>caps_lock := a\<rparr>) = kb_wf k"
  "kb_wf (k\<lparr>extended_prefix := a\<rparr>) = kb_wf k"
  by (simp_all add: kb_wf_def)

text \<open>
  The 26 letter scancodes: the plain table holds a lower-case letter and the shifted table the
  matching upper-case one.
\<close>

lemma alpha_table_check:
  "list_all (\<lambda>(i, a, b). scancode_is_alpha (of_nat i) \<longrightarrow> is_ascii_lowercase a \<and> b = a - 32)
     (zip [0..<128] (zip SCANCODE_TO_ASCII SCANCODE_TO_ASCII_SHIFT))"
  by code_simp

lemma length_tables:
  "length SCANCODE_TO_ASCII = 128" "length SCANCODE_TO_ASCII_SHIFT = 128" "length EXTENDED_TO_KEY = 128"
  by code_simp+

lemma alpha_table:
  assumes "scancode_is_alpha sc"
  shows "is_ascii_lowercase (SCANCODE_TO_ASCII ! unat sc)"
    and "SCANCODE_TO_ASCII_SHIFT ! unat sc = SCANCODE_TO_ASCII ! unat sc - 32"
proof -
  have "unat sc < 128"
    using assms by (auto simp: scancode_is_alpha_def word_le_nat_alt)
  then show "is_ascii_lowercase (SCANCODE_TO_ASCII ! unat sc)"
    and "SCANCODE_TO_ASCII_SHIFT ! unat sc = SCANCODE_TO_ASCII ! unat sc - 32"
    using alpha_table_check assms by (auto simp: list_all_length length_tables)
qed

lemma high_bit_u8: "sc AND 0x80 \<noteq> 0 \<longleftrightarrow> 128 \<le> sc" for sc :: u8
proof -
  have "unat sc < 2 ^ LENGTH(8)"
    by (rule unsigned_less)
  then have "unat sc div 128 = (if 128 \<le> unat sc then 1 else 0)"
    by (auto simp: div_nat_eqI)
  moreover have "sc AND 2 ^ 7 \<noteq> 0 \<longleftrightarrow> bit sc 7"
    by (simp only: and_exp_eq_0_iff_not_bit not_not)
  moreover have "bit sc 7 \<longleftrightarrow> odd (unat sc div 128)"
    using bit_unsigned_iff [where w = sc and n = 7 and 'a = nat] by (simp add: bit_iff_odd)
  ultimately show ?thesis
    by (simp add: word_le_nat_alt)
qed

lemma lowercase_unat: "is_ascii_lowercase c \<longleftrightarrow> 97 \<le> unat c \<and> unat c \<le> 122"
  by (simp add: is_ascii_lowercase_def word_le_nat_alt)

lemma uppercase_unat: "is_ascii_uppercase c \<longleftrightarrow> 65 \<le> unat c \<and> unat c \<le> 90"
  by (simp add: is_ascii_uppercase_def word_le_nat_alt)

lemma lowercase_facts:
  assumes "is_ascii_lowercase c"
  shows "is_ascii_uppercase (c - 32)" "\<not> is_ascii_lowercase (c - 32)" "c \<noteq> 0" "c \<noteq> 32"
    "c \<noteq> 96" "\<not> is_ascii_uppercase c"
proof -
  have "unat (c - 32) = unat c - 32"
    using assms by (subst unat_sub) (simp_all add: lowercase_unat word_le_nat_alt)
  then show "is_ascii_uppercase (c - 32)" "\<not> is_ascii_lowercase (c - 32)" "c \<noteq> 0" "c \<noteq> 32"
      "c \<noteq> 96" "\<not> is_ascii_uppercase c"
    using assms by (auto simp: lowercase_unat uppercase_unat)
qed

lemma uppercase_facts:
  assumes "is_ascii_uppercase c"
  shows "c + 32 \<noteq> 0" "c \<noteq> 64" "c \<noteq> 0"
proof -
  have "unat (c + 32) = unat c + 32"
    using assms by (simp add: uppercase_unat unat_add_bounded)
  then show "c + 32 \<noteq> 0" "c \<noteq> 64" "c \<noteq> 0"
    using assms by (auto simp: uppercase_unat)
qed

text \<open>The key a letter produces under the modifiers.\<close>

definition letter_key :: "keyboard \<Rightarrow> u8 \<Rightarrow> u8" where
  "letter_key k sc = (let lower = SCANCODE_TO_ASCII ! unat sc in
     if ctrl_held k \<noteq> 0 then lower - 96
     else if (shift_held k \<noteq> 0) \<noteq> (caps_lock k \<noteq> 0) then lower - 32 else lower)"

lemma irq_letter:
  assumes "scancode_is_alpha sc" and "extended_prefix k = 0"
  shows "irq sc k = buffer_push (letter_key k sc) k"
proof -
  have "sc \<noteq> 0xE0" "sc \<noteq> 0x2A" "sc \<noteq> 0x36" "sc \<noteq> 0x1D" "sc \<noteq> 0x38" "sc \<noteq> 0x3A" "\<not> 128 \<le> sc"
    using assms(1) by (auto simp: scancode_is_alpha_def word_le_nat_alt)
  then have "irq sc k = irq_key sc k"
    using assms(2) high_bit_u8 [of sc] by (simp add: irq_def)
  also have "\<dots> = buffer_push (letter_key k sc) k"
    using alpha_table [OF assms(1)] lowercase_facts [OF alpha_table(1) [OF assms(1)]] assms(1)
    by (simp add: irq_key_def letter_key_def Let_def apply_caps_lock_def KEY_NONE_def)
  finally show ?thesis .
qed

lemma apply_caps_lock_nonzero: "c \<noteq> 0 \<Longrightarrow> apply_caps_lock k c a \<noteq> 0"
  by (simp add: apply_caps_lock_def lowercase_facts uppercase_facts)

lemma ctrl_code_nonzero:
  "c \<noteq> 0 \<Longrightarrow> (if is_ascii_lowercase c then c - 0x61 + 1
     else if is_ascii_uppercase c then c - 0x41 + 1 else c) \<noteq> (0 :: u8)"
  by (simp add: lowercase_facts uppercase_facts)

lemma irq_key_cases:
  "irq_key sc k = k \<or> (\<exists>c. c \<noteq> KEY_NONE \<and> irq_key sc k = buffer_push c k)"
proof -
  define c0 where "c0 = (if shift_held k \<noteq> 0 then SCANCODE_TO_ASCII_SHIFT ! unat sc
    else SCANCODE_TO_ASCII ! unat sc)"
  define c1 where "c1 = (if scancode_is_alpha sc then apply_caps_lock k c0 True
    else if caps_lock k \<noteq> 0 \<and> shift_held k \<noteq> 0 then apply_caps_lock k c0 False else c0)"
  define c2 where "c2 = (if ctrl_held k \<noteq> 0
    then (if is_ascii_lowercase c1 then c1 - 0x61 + 1
          else if is_ascii_uppercase c1 then c1 - 0x41 + 1 else c1) else c1)"
  have "irq_key sc k = (if c0 = 0 then k else buffer_push c2 k)"
    unfolding irq_key_def Let_def KEY_NONE_def c0_def [symmetric] c1_def [symmetric] c2_def [symmetric] ..
  moreover have "c2 \<noteq> 0" if "c0 \<noteq> 0"
    using that ctrl_code_nonzero [of c1] by (auto simp: c1_def c2_def apply_caps_lock_nonzero)
  ultimately show ?thesis
    by (auto simp: KEY_NONE_def)
qed

text \<open>One interrupt buffers at most one key, and never \<^verbatim>\<open>KEY_NONE\<close>.\<close>

definition buffers_one :: "keyboard \<Rightarrow> keyboard \<Rightarrow> bool" where
  "buffers_one k k' \<longleftrightarrow> (kb_wf k \<longrightarrow> kb_wf k') \<and> (kb_queue k' = kb_queue k
     \<or> (\<exists>c. c \<noteq> KEY_NONE \<and> kb_count k < 255 \<and> kb_queue k' = kb_queue k @ [c]))"

lemma buffers_one_flags:
  "buffers_one k k" "buffers_one k (k\<lparr>shift_held := a\<rparr>)" "buffers_one k (k\<lparr>ctrl_held := a\<rparr>)"
  "buffers_one k (k\<lparr>alt_held := a\<rparr>)" "buffers_one k (k\<lparr>caps_lock := a\<rparr>)"
  "buffers_one k (k\<lparr>extended_prefix := a\<rparr>)"
  "buffers_one k (k\<lparr>extended_prefix := a, shift_held := b\<rparr>)"
  by (simp_all add: buffers_one_def)

lemma buffers_one_push:
  "kb_wf k \<Longrightarrow> c \<noteq> KEY_NONE \<Longrightarrow> buffers_one k (buffer_push c k)"
  "kb_wf k \<Longrightarrow> c \<noteq> KEY_NONE \<Longrightarrow> buffers_one k (buffer_push c (k\<lparr>extended_prefix := a\<rparr>))"
  by (auto simp: buffers_one_def kb_queue_push kb_wf_buffer_push)

lemma buffers_one_irq_key: "kb_wf k \<Longrightarrow> buffers_one k (irq_key sc k)"
  using irq_key_cases [of sc k] by (auto simp: buffers_one_flags buffers_one_push)

lemma buffers_one_irq: "kb_wf k \<Longrightarrow> buffers_one k (irq sc k)"
  unfolding irq_def Let_def
  by (simp add: buffers_one_flags buffers_one_push buffers_one_irq_key)

text \<open>Every history of interrupts and reads keeps the ring free of \<^verbatim>\<open>KEY_NONE\<close>.\<close>

datatype kb_event = Irq u8 | Input

primrec kb_event_step :: "kb_event \<Rightarrow> keyboard \<Rightarrow> keyboard" where
  "kb_event_step (Irq sc) k = irq sc k"
| "kb_event_step Input k = snd (input k)"

definition kb_inv :: "keyboard \<Rightarrow> bool" where
  "kb_inv k \<longleftrightarrow> kb_wf k \<and> KEY_NONE \<notin> set (kb_queue k)"

lemma kb_inv_start: "kb_inv keyboard_start"
  by (simp add: kb_inv_def kb_wf_def keyboard_start_def kb_queue_def kb_count_def)

lemma kb_inv_step: "kb_inv k \<Longrightarrow> kb_inv (kb_event_step e k)"
proof (cases e)
  case (Irq sc)
  assume "kb_inv k"
  then show ?thesis
    using buffers_one_irq [of k sc] Irq by (auto simp: kb_inv_def buffers_one_def)
next
  case Input
  assume "kb_inv k"
  then show ?thesis
    using Input by (cases "kb_queue k") (auto simp: kb_inv_def kb_wf_input kb.queue_pop)
qed

lemma kb_inv_run: "kb_inv k \<Longrightarrow> kb_inv (fold kb_event_step es k)"
  by (induction es arbitrary: k) (auto simp: kb_inv_step)

section \<open>Properties\<close>

text \<open>
  C20: the key ring is a first-in first-out queue of 255 keys.  From any well-formed state,
  pushing keys and then reading returns the buffered keys followed by the pushed ones in
  order; the keys that do not fit are the newest ones, and they are dropped.
\<close>

theorem key_ring_fifo:
  assumes "kb_wf k"
    and "n \<le> length (kb_queue k) + min (255 - length (kb_queue k)) (length ks)"
  shows "drain input n (fold buffer_push ks k)
    = take n (kb_queue k @ take (255 - length (kb_queue k)) ks)"
  using assms by (rule kb.drain_pushes)

theorem key_ring_fifo_witness:
  "drain input 2 (fold buffer_push [10, 20, 30] keyboard_start) = [10, 20]"
proof -
  have "kb_wf keyboard_start" and "kb_queue keyboard_start = []"
    by (simp_all add: kb_wf_def keyboard_start_def kb_queue_def kb_count_def)
  then show ?thesis
    using key_ring_fifo [of keyboard_start 2 "[10, 20, 30]"] by (simp add: numeral_eq_Suc)
qed

text \<open>
  After any history of keyboard interrupts and reads from power-on, \<^verbatim>\<open>input\<close> answers
  \<^verbatim>\<open>KEY_NONE\<close> exactly when nothing is buffered, so the sentinel is never ambiguous.
\<close>

lemma input_none_iff_empty:
  "fst (input (fold kb_event_step es keyboard_start)) = KEY_NONE
     \<longleftrightarrow> \<not> has_input (fold kb_event_step es keyboard_start)"
proof -
  let ?k = "fold kb_event_step es keyboard_start"
  have inv: "kb_inv ?k"
    by (rule kb_inv_run [OF kb_inv_start])
  then have "fst (input ?k) \<in> set (kb_queue ?k)" if "kb_queue ?k \<noteq> []"
    using that kb.fst_pop [of ?k] by (simp add: kb_inv_def)
  then show ?thesis
    using inv kb.ready_queue [of ?k] by (auto simp: kb_inv_def input_def has_input_def)
qed

text \<open>
  A letter key press buffers the letter in upper case exactly when one of shift and
  caps lock (and not both) is active, and the control code of the letter when ctrl is held,
  whatever the case.
\<close>

lemma letter_key_decoding:
  assumes "kb_wf k" and "length (kb_queue k) < 255" and "extended_prefix k = 0"
    and "scancode_is_alpha sc"
  shows "kb_queue (irq sc k) = kb_queue k
    @ [let lower = SCANCODE_TO_ASCII ! unat sc in
       if ctrl_held k \<noteq> 0 then lower - 96
       else if (shift_held k \<noteq> 0) \<noteq> (caps_lock k \<noteq> 0) then lower - 32 else lower]"
  using assms by (simp add: irq_letter kb_queue_push letter_key_def del: length_kb_queue)

end
