(* ===== verification/Pmm.thy ===== *)
theory Pmm
  imports Pinx_Prelude
begin

text \<open>
  The physical frame allocator of \<^verbatim>\<open>src/mm.rs\<close> (\<^verbatim>\<open>pmm_init\<close>, \<^verbatim>\<open>pmm_alloc_page\<close>,
  \<^verbatim>\<open>pmm_free_page\<close>).  The bitmap the source reaches through the raw pointer \<^verbatim>\<open>BITMAP\<close> is the
  list \<open>bitmap\<close> of its 64-bit words; what Limine answers (the memory map and the HHDM offset) is
  an argument.  The contract is the locale \<open>frame_allocator\<close>: an allocator is a set of free frames,
  allocation takes one out and freeing puts it back.
\<close>

section \<open>The code\<close>

definition PAGE_SIZE :: u64 where
  "PAGE_SIZE = 4096"

definition PMM_NO_PAGE :: u64 where
  "PMM_NO_PAGE = - 1"

definition MEMMAP_USABLE :: u64 where
  "MEMMAP_USABLE = 0"

record LimineMemmapEntry =
  entry_base :: u64
  entry_length :: u64
  entry_type :: u64

record pmm =
  bitmap_ptr :: u64
  bitmap :: "u64 list"
  bitmap_entries :: u64
  alloc_hint :: u64

text \<open>\<^verbatim>\<open>*bitmap.add(page / 64) &= !(1 << (page % 64))\<close> and its \<^verbatim>\<open>|=\<close> counterpart.\<close>

definition bitmap_clear :: "u64 \<Rightarrow> u64 list \<Rightarrow> u64 list" where
  "bitmap_clear page bm = (let i = unat (page div 64) in
     bm[i := bm ! i AND NOT (push_bit (unat (page mod 64)) 1)])"

definition bitmap_set :: "u64 \<Rightarrow> u64 list \<Rightarrow> u64 list" where
  "bitmap_set page bm = (let i = unat (page div 64) in
     bm[i := bm ! i OR push_bit (unat (page mod 64)) 1])"

text \<open>
  The first loop over the memory map: the highest usable address and the largest usable region.
  A null entry pointer is \<open>None\<close>.
\<close>

fun pmm_scan_map :: "LimineMemmapEntry option list \<Rightarrow> u64 \<Rightarrow> u64 \<Rightarrow> u64 \<Rightarrow> (u64 \<times> u64 \<times> u64) option" where
  "pmm_scan_map [] highest_address largest_base largest_len =
     Some (highest_address, largest_base, largest_len)"
| "pmm_scan_map (None # es) highest_address largest_base largest_len =
     pmm_scan_map es highest_address largest_base largest_len"
| "pmm_scan_map (Some e # es) highest_address largest_base largest_len =
     (if entry_type e \<noteq> MEMMAP_USABLE then pmm_scan_map es highest_address largest_base largest_len
      else let (largest_len, largest_base) =
                 (if entry_length e > largest_len then (entry_length e, entry_base e) else (largest_len, largest_base))
           in do {
             region_end \<leftarrow> cadd (entry_base e) (entry_length e);
             pmm_scan_map es (if region_end > highest_address then region_end else highest_address)
               largest_base largest_len
           })"

text \<open>The second loop: free what the map calls usable.\<close>

fun pmm_free_usable :: "LimineMemmapEntry option list \<Rightarrow> u64 list \<Rightarrow> u64 list" where
  "pmm_free_usable [] bm = bm"
| "pmm_free_usable (None # es) bm = pmm_free_usable es bm"
| "pmm_free_usable (Some e # es) bm =
     (if entry_type e \<noteq> MEMMAP_USABLE then pmm_free_usable es bm
      else let start_page = entry_base e div PAGE_SIZE; page_count = entry_length e div PAGE_SIZE in
           pmm_free_usable es
             (fold (\<lambda>page. bitmap_clear (start_page + of_nat page)) [0..<unat page_count] bm))"

definition pmm_init :: "LimineMemmapEntry option list option \<Rightarrow> u64 option \<Rightarrow> pmm option" where
  "pmm_init memmap_response hhdm_response = do {
     memmap \<leftarrow> memmap_response;
     hhdm_base \<leftarrow> hhdm_response;
     (highest_address, largest_base, largest_len) \<leftarrow> pmm_scan_map memmap 0 0 0;
     if largest_len = 0 then None
     else let total_pages = highest_address div PAGE_SIZE;
              bitmap_entries = (total_pages + 63) div 64;
              bitmap_size = bitmap_entries * 8;
              bitmap_pages = (bitmap_size + PAGE_SIZE - 1) div PAGE_SIZE
          in if bitmap_pages > largest_len div PAGE_SIZE then None
             else do {
               let bitmap_physical =
                 (largest_base + largest_len - bitmap_pages * PAGE_SIZE) AND NOT (PAGE_SIZE - 1);
               ptr \<leftarrow> cadd bitmap_physical hhdm_base;
               let bm = replicate (unat bitmap_entries) (- 1);
               let bm = pmm_free_usable memmap bm;
               let bm = fold (\<lambda>i. bitmap_set (bitmap_physical div PAGE_SIZE + of_nat i))
                          [0..<unat bitmap_pages] bm;
               Some \<lparr>bitmap_ptr = ptr, bitmap = bm, bitmap_entries = bitmap_entries, alloc_hint = 0\<rparr>
             }
   }"

text \<open>The scan of \<^verbatim>\<open>pmm_alloc_page\<close>: the first word that is not full, then its first clear bit.\<close>

fun pmm_find :: "pmm \<Rightarrow> nat list \<Rightarrow> (u64 \<times> nat) option" where
  "pmm_find s [] = None"
| "pmm_find s (scanned # rest) =
     (let index = (alloc_hint s + of_nat scanned) mod bitmap_entries s;
          word = bitmap s ! unat index
      in if word = - 1 then pmm_find s rest
         else case List.find (\<lambda>b. word AND push_bit b 1 = 0) [0..<64] of
                Some b \<Rightarrow> Some (index, b)
              | None \<Rightarrow> pmm_find s rest)"

definition pmm_alloc_page :: "pmm \<Rightarrow> u64 \<times> pmm" where
  "pmm_alloc_page s =
     (if bitmap_entries s \<noteq> 0 then
        (case pmm_find s [0..<unat (bitmap_entries s)] of
           None \<Rightarrow> (PMM_NO_PAGE, s)
         | Some (index, b) \<Rightarrow>
             ((index * 64 + of_nat b) * PAGE_SIZE,
              s\<lparr>bitmap := (bitmap s)[unat index := bitmap s ! unat index OR push_bit b 1],
                alloc_hint := (index * 64 + of_nat b + 1) mod bitmap_entries s\<rparr>))
      else (PMM_NO_PAGE, s))"

definition pmm_free_page :: "u64 \<Rightarrow> pmm \<Rightarrow> pmm option" where
  "pmm_free_page page s =
     (if page mod PAGE_SIZE \<noteq> 0 then None
      else let page_number = page div PAGE_SIZE in
        if page_number div 64 \<ge> bitmap_entries s then None
        else let s = s\<lparr>bitmap := bitmap_clear page_number (bitmap s)\<rparr> in
             Some (if page_number div 64 < alloc_hint s
                   then s\<lparr>alloc_hint := page_number div 64\<rparr> else s))"

section \<open>Bits of the bitmap\<close>

definition bm_bit :: "u64 list \<Rightarrow> nat \<Rightarrow> bool" where
  "bm_bit bm p \<longleftrightarrow> bit (bm ! (p div 64)) (p mod 64)"

lemma unat_div_mod_64: "unat (p div 64) = unat p div 64" "unat (p mod 64) = unat p mod 64" for p :: u64
  by (simp_all add: unat_div unat_mod)

lemma length_bitmap_ops [simp]:
  "length (bitmap_clear p bm) = length bm" "length (bitmap_set p bm) = length bm"
  by (simp_all add: bitmap_clear_def bitmap_set_def Let_def)

lemma page_number_eq: "q = unat p \<longleftrightarrow> q div 64 = unat p div 64 \<and> q mod 64 = unat p mod 64" for p :: u64
  by (metis div_mult_mod_eq)

lemma bm_bit_clear:
  assumes "q div 64 < length bm"
  shows "bm_bit (bitmap_clear p bm) q \<longleftrightarrow> bm_bit bm q \<and> q \<noteq> unat p"
  using assms unfolding page_number_eq
  by (cases "q div 64 = unat p div 64")
    (auto simp: bm_bit_def bitmap_clear_def Let_def unat_div_mod_64 bit_simps)

lemma bm_bit_set:
  assumes "q div 64 < length bm"
  shows "bm_bit (bitmap_set p bm) q \<longleftrightarrow> bm_bit bm q \<or> q = unat p"
  using assms unfolding page_number_eq
  by (cases "q div 64 = unat p div 64")
    (auto simp: bm_bit_def bitmap_set_def Let_def unat_div_mod_64 bit_simps)

section \<open>Well-formedness and the set of free frames\<close>

definition pmm_wf :: "pmm \<Rightarrow> bool" where
  "pmm_wf s \<longleftrightarrow> length (bitmap s) = unat (bitmap_entries s) \<and> unat (bitmap_entries s) \<le> 2 ^ 46
     \<and> (bitmap_entries s \<noteq> 0 \<longrightarrow> alloc_hint s < bitmap_entries s)"

definition page_free :: "pmm \<Rightarrow> nat \<Rightarrow> bool" where
  "page_free s p \<longleftrightarrow> p div 64 < length (bitmap s) \<and> \<not> bm_bit (bitmap s) p"

definition free_frames :: "pmm \<Rightarrow> u64 set" where
  "free_frames s = {a. unat a mod 4096 = 0 \<and> page_free s (unat a div 4096)}"

lemma unat_PAGE_SIZE [simp]: "unat PAGE_SIZE = 4096"
  by (simp add: PAGE_SIZE_def)

lemma aligned_eqI:
  assumes "unat x mod 4096 = 0" "unat y mod 4096 = 0" "unat x div 4096 = unat y div 4096"
  shows "x = y"
proof (rule word_eq_unatI)
  have "unat x = unat x div 4096 * 4096 + unat x mod 4096" "unat y = unat y div 4096 * 4096 + unat y mod 4096"
    by simp_all
  then show "unat x = unat y"
    using assms by simp
qed

lemma unat_page_addr:
  assumes "unat i < 2 ^ 46" "b < 64"
  shows "unat ((i * 64 + of_nat b) * PAGE_SIZE) = (unat i * 64 + b) * 4096"
proof -
  have 1: "unat (i * 64) = unat i * 64"
    using assms by (subst unat_mult_bounded) auto
  have 2: "unat (of_nat b :: u64) = b"
    using assms by (simp add: unat_of_nat_bounded)
  have 3: "unat (i * 64 + of_nat b) = unat i * 64 + b"
    using assms 1 2 by (subst unat_add_bounded) auto
  show ?thesis
    using assms by (subst unat_mult_bounded) (auto simp: 3)
qed

lemma word_not_full: "w \<noteq> - 1 \<longleftrightarrow> (\<exists>b<64. \<not> bit w b)" for w :: u64
  by (auto simp: bit_eq_iff)

lemma pmm_find_Some:
  assumes "pmm_find s xs = Some (i, b)" and "bitmap_entries s \<noteq> 0"
  shows "i < bitmap_entries s \<and> b < 64 \<and> \<not> bit (bitmap s ! unat i) b"
  using assms
proof (induction s xs rule: pmm_find.induct)
  case (2 s scanned rest)
  then show ?case
    by (auto simp: Let_def and_exp_eq_0_iff_not_bit find_Some_iff word_mod_less
        split: if_splits option.splits)
qed simp

lemma pmm_find_None:
  "pmm_find s xs = None \<Longrightarrow> x \<in> set xs \<Longrightarrow>
     bitmap s ! unat ((alloc_hint s + of_nat x) mod bitmap_entries s) = - 1"
proof (induction s xs rule: pmm_find.induct)
  case (2 s scanned rest)
  then show ?case
    by (auto simp: Let_def and_exp_eq_0_iff_not_bit find_None_iff word_not_full
        split: if_splits option.splits)
qed simp

lemma scan_covers:
  assumes wf: "pmm_wf s" and j: "j < unat (bitmap_entries s)"
  obtains x where "x < unat (bitmap_entries s)"
    "unat ((alloc_hint s + of_nat x) mod bitmap_entries s) = j"
proof -
  let ?n = "unat (bitmap_entries s)" and ?h = "unat (alloc_hint s)"
  have n: "?n \<le> 2 ^ 46" "?h < ?n"
    using wf j by (auto simp: pmm_wf_def word_less_nat_alt)
  define x where "x = (j + ?n - ?h) mod ?n"
  have x: "x < ?n"
    using j by (simp add: x_def)
  have "unat (of_nat x :: u64) = x"
    using x n by (simp add: unat_of_nat_bounded)
  then have "unat ((alloc_hint s + of_nat x) mod bitmap_entries s) = (?h + x) mod ?n"
    using x n by (simp add: unat_mod unat_add_bounded)
  also have "\<dots> = (?h + (j + ?n - ?h)) mod ?n"
    by (simp add: x_def mod_simps)
  also have "\<dots> = j"
    using j n by simp
  finally show ?thesis
    using x that by blast
qed

lemma pmm_find_exhausted:
  assumes wf: "pmm_wf s" and none: "pmm_find s [0..<unat (bitmap_entries s)] = None"
  shows "free_frames s = {}"
proof -
  have full: "bitmap s ! j = - 1" if "j < unat (bitmap_entries s)" for j
    using scan_covers [OF wf that] pmm_find_None [OF none] by (metis atLeastLessThan_iff less_eq_nat.simps(1) set_upt)
  have "bm_bit (bitmap s) p" if "p div 64 < length (bitmap s)" for p
    using that full [of "p div 64"] wf by (simp add: bm_bit_def pmm_wf_def)
  then show ?thesis
    by (auto simp: free_frames_def page_free_def)
qed

lemma page_free_mark:
  assumes "i < length (bitmap s)" "b < 64"
  shows "page_free (s\<lparr>bitmap := (bitmap s)[i := bitmap s ! i OR push_bit b 1], alloc_hint := h\<rparr>) q
    \<longleftrightarrow> page_free s q \<and> q \<noteq> i * 64 + b"
proof -
  have "q = i * 64 + b \<longleftrightarrow> q div 64 = i \<and> q mod 64 = b"
    using assms(2) by auto
  then show ?thesis
    using assms by (cases "q div 64 = i") (auto simp: page_free_def bm_bit_def bit_simps)
qed

text \<open>The two outcomes of an allocation.\<close>

lemma pmm_alloc_page_cases:
  assumes wf: "pmm_wf s"
  obtains (none) "pmm_alloc_page s = (PMM_NO_PAGE, s)" "free_frames s = {}"
  | (page) a s' where "pmm_alloc_page s = (a, s')" "a \<in> free_frames s"
      "free_frames s' = free_frames s - {a}" "pmm_wf s'" "bitmap_entries s' = bitmap_entries s"
proof (cases "bitmap_entries s = 0")
  case True
  then have "free_frames s = {}"
    using wf by (simp add: free_frames_def page_free_def pmm_wf_def)
  with True none show ?thesis
    by (simp add: pmm_alloc_page_def)
next
  case nz: False
  show ?thesis
  proof (cases "pmm_find s [0..<unat (bitmap_entries s)]")
    case None
    then show ?thesis
      using nz none pmm_find_exhausted [OF wf] by (simp add: pmm_alloc_page_def)
  next
    case (Some ib)
    then obtain i b where ib: "pmm_find s [0..<unat (bitmap_entries s)] = Some (i, b)"
      by (cases ib) auto
    let ?a = "(i * 64 + of_nat b) * PAGE_SIZE"
    let ?s = "s\<lparr>bitmap := (bitmap s)[unat i := bitmap s ! unat i OR push_bit b 1],
      alloc_hint := (i * 64 + of_nat b + 1) mod bitmap_entries s\<rparr>"
    have f: "i < bitmap_entries s" "b < 64" "\<not> bit (bitmap s ! unat i) b"
      using pmm_find_Some [OF ib nz] by auto
    then have len: "unat i < length (bitmap s)" and small: "unat i < 2 ^ 46"
      using wf by (auto simp: pmm_wf_def word_less_nat_alt)
    have a: "unat ?a = (unat i * 64 + b) * 4096"
      using small f(2) by (rule unat_page_addr)
    show ?thesis
    proof (rule page)
      show "pmm_alloc_page s = (?a, ?s)"
        using nz ib by (simp add: pmm_alloc_page_def)
      show "?a \<in> free_frames s"
        using len f a by (simp add: free_frames_def page_free_def bm_bit_def)
      have "x = ?a" if "unat x mod 4096 = 0" "unat x div 4096 = unat i * 64 + b" for x
        using that a by (intro aligned_eqI) auto
      then show "free_frames ?s = free_frames s - {?a}"
        using page_free_mark [OF len f(2)] a unfolding free_frames_def by fastforce
      show "pmm_wf ?s"
        using wf nz by (auto simp: pmm_wf_def word_mod_less)
    qed simp
  qed
qed

section \<open>Freeing\<close>

definition managed_frames :: "pmm \<Rightarrow> u64 set" where
  "managed_frames s = {a. unat a mod 4096 = 0 \<and> unat a div 4096 div 64 < unat (bitmap_entries s)}"

lemma pmm_free_page_None: "a \<notin> managed_frames s \<Longrightarrow> pmm_free_page a s = None"
proof -
  assume "a \<notin> managed_frames s"
  moreover have "a mod PAGE_SIZE = 0 \<longleftrightarrow> unat a mod 4096 = 0"
    by (simp add: word_unat_eq_iff unat_mod)
  moreover have "bitmap_entries s \<le> a div PAGE_SIZE div 64
      \<longleftrightarrow> unat (bitmap_entries s) \<le> unat a div 4096 div 64"
    by (simp add: word_le_nat_alt unat_div)
  ultimately show ?thesis
    by (auto simp: pmm_free_page_def managed_frames_def Let_def)
qed

lemma pmm_free_page_Some:
  assumes wf: "pmm_wf s" and a: "a \<in> managed_frames s"
  obtains s' where "pmm_free_page a s = Some s'" "pmm_wf s'"
    "free_frames s' = insert a (free_frames s)" "bitmap_entries s' = bitmap_entries s"
proof -
  let ?p = "a div PAGE_SIZE"
  let ?s = "s\<lparr>bitmap := bitmap_clear ?p (bitmap s)\<rparr>"
  define s' where "s' = (if ?p div 64 < alloc_hint ?s then ?s\<lparr>alloc_hint := ?p div 64\<rparr> else ?s)"
  have p: "unat ?p = unat a div 4096" and "a mod PAGE_SIZE = 0" and lt: "?p div 64 < bitmap_entries s"
    using a by (auto simp: managed_frames_def unat_div word_unat_eq_iff unat_mod word_less_nat_alt)
  then have "pmm_free_page a s = Some s'"
    by (simp add: pmm_free_page_def Let_def s'_def not_le)
  moreover have "pmm_wf s'"
    using wf lt by (auto simp: s'_def pmm_wf_def)
  moreover have "free_frames s' = insert a (free_frames s)"
  proof -
    have bm: "bitmap s' = bitmap_clear ?p (bitmap s)"
      by (simp add: s'_def)
    have "unat a div 4096 div 64 < length (bitmap s)"
      using a wf by (simp add: managed_frames_def pmm_wf_def)
    moreover have "x = a" if "unat x mod 4096 = 0" "unat x div 4096 = unat a div 4096" for x
      using that a by (intro aligned_eqI) (auto simp: managed_frames_def)
    ultimately show ?thesis
      using a by (auto simp: free_frames_def page_free_def bm bm_bit_clear p managed_frames_def)
  qed
  moreover have "bitmap_entries s' = bitmap_entries s"
    by (simp add: s'_def)
  ultimately show ?thesis
    using that by blast
qed

section \<open>The allocator contract\<close>

text \<open>\<open>alloc_n alloc n s\<close> is \<open>n\<close> allocations in a row.\<close>

primrec alloc_n :: "('s \<Rightarrow> u64 \<times> 's) \<Rightarrow> nat \<Rightarrow> 's \<Rightarrow> u64 list \<times> 's" where
  "alloc_n alloc 0 s = ([], s)"
| "alloc_n alloc (Suc n) s =
     (let (a, s) = alloc s; (as, s) = alloc_n alloc n s in (a # as, s))"

locale frame_allocator =
  fixes alloc :: "'s \<Rightarrow> u64 \<times> 's"
    and release :: "u64 \<Rightarrow> 's \<Rightarrow> 's option"
    and frees :: "'s \<Rightarrow> u64 set"
    and managed :: "'s \<Rightarrow> u64 set"
    and invar :: "'s \<Rightarrow> bool"
    and no_frame :: u64
  assumes alloc_none: "invar s \<Longrightarrow> frees s = {} \<Longrightarrow> alloc s = (no_frame, s)"
    and alloc_some: "invar s \<Longrightarrow> frees s \<noteq> {} \<Longrightarrow> alloc s = (a, s') \<Longrightarrow>
      a \<in> frees s \<and> frees s' = frees s - {a}"
    and invar_alloc: "invar s \<Longrightarrow> invar (snd (alloc s))"
    and managed_alloc: "invar s \<Longrightarrow> managed (snd (alloc s)) = managed s"
    and frees_managed: "invar s \<Longrightarrow> frees s \<subseteq> managed s"
    and no_frame_managed: "invar s \<Longrightarrow> no_frame \<notin> managed s"
    and release_none: "a \<notin> managed s \<Longrightarrow> release a s = None"
    and release_some: "invar s \<Longrightarrow> a \<in> managed s \<Longrightarrow>
      \<exists>s'. release a s = Some s' \<and> invar s' \<and> frees s' = insert a (frees s) \<and> managed s' = managed s"
begin

lemma alloc_no_frame_iff: "invar s \<Longrightarrow> fst (alloc s) = no_frame \<longleftrightarrow> frees s = {}"
  using alloc_none alloc_some frees_managed no_frame_managed by (metis fst_conv prod.collapse subsetD)

lemma alloc_n_distinct:
  "invar s \<Longrightarrow> finite (frees s) \<Longrightarrow> n \<le> card (frees s) \<Longrightarrow> alloc_n alloc n s = (as, s') \<Longrightarrow>
     length as = n \<and> distinct as \<and> set as \<subseteq> frees s \<and> frees s' = frees s - set as \<and> invar s'"
proof (induction n arbitrary: s as)
  case 0
  then show ?case by simp
next
  case (Suc n)
  obtain a s1 where a: "alloc s = (a, s1)"
    by fastforce
  obtain as1 where as: "alloc_n alloc n s1 = (as1, s')" "as = a # as1"
    using Suc.prems(4) a by (auto split: prod.splits)
  have "frees s \<noteq> {}"
    using Suc.prems(3) by auto
  then have f: "a \<in> frees s" "frees s1 = frees s - {a}" and inv: "invar s1"
    using alloc_some [OF Suc.prems(1) _ a] invar_alloc [OF Suc.prems(1)] a by auto
  then have "length as1 = n \<and> distinct as1 \<and> set as1 \<subseteq> frees s1 \<and> frees s' = frees s1 - set as1 \<and> invar s'"
    using Suc.prems(2,3) as(1) by (intro Suc.IH) auto
  with f as(2) show ?case
    by auto
qed

lemma alloc_release:
  assumes "invar s" "frees s \<noteq> {}" "alloc s = (a, s1)"
  shows "\<exists>s2. release a s1 = Some s2 \<and> invar s2 \<and> frees s2 = frees s"
proof -
  have "a \<in> frees s" "frees s1 = frees s - {a}"
    using alloc_some [OF assms] by auto
  moreover have "invar s1" "managed s1 = managed s"
    using invar_alloc [OF assms(1)] managed_alloc [OF assms(1)] assms(3) by auto
  ultimately show ?thesis
    using release_some [of s1 a] frees_managed [OF assms(1)] by (metis insert_Diff subsetD)
qed

end

lemma finite_free_frames: "finite (free_frames s)"
  by simp

lemma managed_frames_entries:
  "bitmap_entries s' = bitmap_entries s \<Longrightarrow> managed_frames s' = managed_frames s"
  by (simp add: managed_frames_def)

interpretation pmm: frame_allocator pmm_alloc_page pmm_free_page free_frames managed_frames pmm_wf PMM_NO_PAGE
proof
  fix s :: pmm and a s'
  assume wf: "pmm_wf s"
  show "pmm_alloc_page s = (PMM_NO_PAGE, s)" if "free_frames s = {}"
    using wf by (rule pmm_alloc_page_cases) (use that in simp_all)
  show "a \<in> free_frames s \<and> free_frames s' = free_frames s - {a}"
    if "free_frames s \<noteq> {}" "pmm_alloc_page s = (a, s')"
    using wf by (rule pmm_alloc_page_cases) (use that in simp_all)
  show "pmm_wf (snd (pmm_alloc_page s))"
    using wf by (rule pmm_alloc_page_cases) (simp_all add: wf)
  show "managed_frames (snd (pmm_alloc_page s)) = managed_frames s"
    using wf by (rule pmm_alloc_page_cases) (simp_all add: managed_frames_def)
  show "free_frames s \<subseteq> managed_frames s"
    using wf by (auto simp: free_frames_def managed_frames_def page_free_def pmm_wf_def)
  show "PMM_NO_PAGE \<notin> managed_frames s"
    by (simp add: PMM_NO_PAGE_def managed_frames_def unsigned_minus_1_eq_mask mask_eq_exp_minus_1)
  show "\<exists>s'. pmm_free_page a s = Some s' \<and> pmm_wf s' \<and> free_frames s' = insert a (free_frames s)
      \<and> managed_frames s' = managed_frames s" if "a \<in> managed_frames s"
    using pmm_free_page_Some [OF wf that] managed_frames_entries [of _ s] by metis
qed (rule pmm_free_page_None)

section \<open>Initialisation\<close>

text \<open>The page numbers the memory map declares usable.\<close>

definition usable_page :: "LimineMemmapEntry option list \<Rightarrow> nat \<Rightarrow> bool" where
  "usable_page es p \<longleftrightarrow> (\<exists>e. Some e \<in> set es \<and> entry_type e = MEMMAP_USABLE
     \<and> unat (entry_base e) div 4096 \<le> p
     \<and> p < unat (entry_base e) div 4096 + unat (entry_length e) div 4096)"

lemma unat_offset: "unat a + n < 2 ^ 64 \<Longrightarrow> unat (a + of_nat n :: u64) = unat a + n"
  by (simp add: unat_add_bounded unat_of_nat_bounded)

lemma length_fold_bitmap [simp]:
  "length (fold (\<lambda>i. bitmap_clear (f i)) xs bm) = length bm"
  "length (fold (\<lambda>i. bitmap_set (f i)) xs bm) = length bm"
  by (induction xs arbitrary: bm) simp_all

lemma bm_bit_fold_clear:
  assumes "q div 64 < length bm" "unat a + n < 2 ^ 64"
  shows "bm_bit (fold (\<lambda>i. bitmap_clear (a + of_nat i)) [0..<n] bm) q
      \<longleftrightarrow> bm_bit bm q \<and> \<not> (unat a \<le> q \<and> q < unat a + n)"
  using assms by (induction n) (auto simp: bm_bit_clear unat_offset)

lemma bm_bit_fold_set:
  assumes "q div 64 < length bm" "unat a + n < 2 ^ 64"
  shows "bm_bit (fold (\<lambda>i. bitmap_set (a + of_nat i)) [0..<n] bm) q
      \<longleftrightarrow> bm_bit bm q \<or> (unat a \<le> q \<and> q < unat a + n)"
  using assms by (induction n) (auto simp: bm_bit_set unat_offset)

lemma unat_page_count: "unat (x div PAGE_SIZE) = unat x div 4096"
  by (simp add: unat_div)

lemma page_number_bound: "unat (x div PAGE_SIZE) < 2 ^ 52"
  using unat_u64 [of x] by (simp add: unat_page_count)

lemma length_pmm_free_usable [simp]: "length (pmm_free_usable es bm) = length bm"
  by (induction es bm rule: pmm_free_usable.induct) (auto simp: Let_def)

lemma bm_bit_free_usable:
  "q div 64 < length bm \<Longrightarrow> bm_bit (pmm_free_usable es bm) q \<longleftrightarrow> bm_bit bm q \<and> \<not> usable_page es q"
proof (induction es bm rule: pmm_free_usable.induct)
  case (3 e es bm)
  have "unat (entry_base e div PAGE_SIZE) + unat (entry_length e div PAGE_SIZE) < 2 ^ 64"
    using page_number_bound [of "entry_base e"] page_number_bound [of "entry_length e"] by simp
  note clear = bm_bit_fold_clear [OF "3.prems" this]
  have "usable_page (Some e # es) q \<longleftrightarrow> usable_page es q \<or> (entry_type e = MEMMAP_USABLE
      \<and> unat (entry_base e div PAGE_SIZE) \<le> q
      \<and> q < unat (entry_base e div PAGE_SIZE) + unat (entry_length e div PAGE_SIZE))"
    by (auto simp: usable_page_def unat_page_count)
  with "3.IH" "3.prems" clear show ?case
    by (auto simp: Let_def)
qed (auto simp: usable_page_def)

lemma pmm_scan_map_spec:
  assumes "pmm_scan_map es h b l = Some (h', b', l')" and "unat b + unat l \<le> unat h"
  shows "unat b' + unat l' \<le> unat h'" and "unat h \<le> unat h'"
    and "Some e \<in> set es \<Longrightarrow> entry_type e = MEMMAP_USABLE \<Longrightarrow>
      unat (entry_base e) + unat (entry_length e) \<le> unat h'"
proof -
  have "unat b' + unat l' \<le> unat h' \<and> unat h \<le> unat h' \<and>
    (\<forall>e. Some e \<in> set es \<longrightarrow> entry_type e = MEMMAP_USABLE \<longrightarrow>
      unat (entry_base e) + unat (entry_length e) \<le> unat h')"
    using assms
  proof (induction es h b l rule: pmm_scan_map.induct)
    case (3 e es h b l)
    show ?case
    proof (cases "entry_type e = MEMMAP_USABLE")
      case False
      with 3 show ?thesis by auto
    next
      case True
      let ?l = "if entry_length e > l then entry_length e else l"
      let ?b = "if entry_length e > l then entry_base e else b"
      obtain r where r: "cadd (entry_base e) (entry_length e) = Some r"
        and rest: "pmm_scan_map es (if r > h then r else h) ?b ?l = Some (h', b', l')"
        using "3.prems"(1) True by (auto simp: Let_def split: if_splits)
      have r': "unat r = unat (entry_base e) + unat (entry_length e)"
        using r by (rule cadd_unat)
      have m: "unat (if r > h then r else h) = max (unat h) (unat r)"
        by (auto simp: word_less_nat_alt)
      have "unat ?b + unat ?l \<le> unat (if r > h then r else h)"
        using "3.prems"(2) r' unfolding m by auto
      then have "unat b' + unat l' \<le> unat h' \<and> unat (if r > h then r else h) \<le> unat h' \<and>
        (\<forall>e. Some e \<in> set es \<longrightarrow> entry_type e = MEMMAP_USABLE \<longrightarrow>
          unat (entry_base e) + unat (entry_length e) \<le> unat h')"
        using "3.IH"(2) [OF _ refl _ r] True rest by (auto split: if_splits)
      then show ?thesis
        using r' unfolding m by auto
    qed
  qed auto
  then show "unat b' + unat l' \<le> unat h'" and "unat h \<le> unat h'"
    and "Some e \<in> set es \<Longrightarrow> entry_type e = MEMMAP_USABLE \<Longrightarrow>
      unat (entry_base e) + unat (entry_length e) \<le> unat h'"
    by auto
qed

text \<open>The sizes \<^verbatim>\<open>pmm_init\<close> computes, as numbers.\<close>

lemma pmm_sizes:
  fixes highest :: u64
  defines "entries \<equiv> (highest div PAGE_SIZE + 63) div 64"
  defines "pages \<equiv> (entries * 8 + PAGE_SIZE - 1) div PAGE_SIZE"
  shows "unat entries = (unat highest div 4096 + 63) div 64"
    and "unat entries \<le> 2 ^ 46"
    and "unat pages = (8 * unat entries + 4095) div 4096"
proof -
  have t: "unat (highest div PAGE_SIZE) = unat highest div 4096" "unat highest div 4096 < 2 ^ 52"
    using page_number_bound [of highest] by (simp_all add: unat_page_count)
  then show e: "unat entries = (unat highest div 4096 + 63) div 64"
    by (simp add: entries_def unat_div unat_add_bounded)
  then show b: "unat entries \<le> 2 ^ 46"
    using t(2) by simp
  have m: "unat (entries * 8) = unat entries * 8"
    using b by (simp add: unat_mult_bounded)
  have eq: "entries * 8 + PAGE_SIZE - 1 = entries * 8 + 4095"
    by (simp add: PAGE_SIZE_def)
  have "unat (entries * 8 + PAGE_SIZE - 1) = unat entries * 8 + 4095"
    unfolding eq using b m by (simp add: unat_add_bounded)
  then show "unat pages = (8 * unat entries + 4095) div 4096"
    by (simp add: pages_def unat_div mult.commute)
qed

lemma pmm_bitmap_address:
  fixes b l pages :: u64
  assumes "unat b + unat l < 2 ^ 64" and "\<not> l div PAGE_SIZE < pages"
  shows "unat ((b + l - pages * PAGE_SIZE) AND NOT (PAGE_SIZE - 1)) div 4096 + unat pages
    = (unat b + unat l) div 4096"
proof -
  have p: "unat pages * 4096 \<le> unat l"
    using assms(2) by (simp add: word_less_nat_alt unat_page_count not_less less_eq_div_iff_mult_less_eq)
  have "unat (pages * PAGE_SIZE) = unat pages * 4096"
    using p assms(1) by (simp add: unat_mult_bounded)
  moreover have "unat (b + l) = unat b + unat l"
    using assms(1) by (simp add: unat_add_bounded)
  ultimately have "unat (b + l - pages * PAGE_SIZE) = unat b + unat l - unat pages * 4096"
    using p by (subst unat_sub) (simp_all add: word_le_nat_alt)
  moreover have "PAGE_SIZE - 1 = mask 12"
    by (simp add: PAGE_SIZE_def mask_eq_exp_minus_1)
  ultimately show ?thesis
    using p by (simp add: unat_align_down)
qed

definition own_pages :: "pmm \<Rightarrow> u64 \<Rightarrow> nat set" where
  "own_pages s hhdm = (let first = unat (bitmap_ptr s - hhdm) div 4096 in
     {first..<first + (8 * length (bitmap s) + 4095) div 4096})"

lemma bm_bit_all_ones: "q div 64 < n \<Longrightarrow> bm_bit (replicate n (- 1)) q"
  by (simp add: bm_bit_def)

lemma pmm_init_correct:
  assumes "pmm_init (Some memmap) (Some hhdm) = Some s"
  shows "pmm_wf s"
    and "usable_page memmap p \<Longrightarrow> p div 64 < length (bitmap s)"
    and "p \<in> own_pages s hhdm \<Longrightarrow> p div 64 < length (bitmap s)"
    and "page_free s p \<longleftrightarrow> usable_page memmap p \<and> p \<notin> own_pages s hhdm"
proof -
  from assms obtain h b l where scan: "pmm_scan_map memmap 0 0 0 = Some (h, b, l)"
    by (auto simp: pmm_init_def)
  define entries where "entries = (h div PAGE_SIZE + 63) div 64"
  define pages where "pages = (entries * 8 + PAGE_SIZE - 1) div PAGE_SIZE"
  define phys where "phys = (b + l - pages * PAGE_SIZE) AND NOT (PAGE_SIZE - 1)"
  have fit: "\<not> l div PAGE_SIZE < pages"
    and ptr: "cadd phys hhdm = Some (bitmap_ptr s)"
    and ent: "bitmap_entries s = entries" "alloc_hint s = 0"
    and bm: "bitmap s = fold (\<lambda>i. bitmap_set (phys div PAGE_SIZE + of_nat i)) [0..<unat pages]
        (pmm_free_usable memmap (replicate (unat entries) (- 1)))"
    using assms scan
    by (auto simp: pmm_init_def Let_def phys_def pages_def entries_def split: if_splits)
  note top = pmm_scan_map_spec [OF scan, simplified]
  note sizes = pmm_sizes [of h, folded entries_def, folded pages_def]
  have len: "length (bitmap s) = unat entries"
    by (simp add: bm)
  then show "pmm_wf s"
    using sizes(2) ent by (simp add: pmm_wf_def word_neq_0_conv)
  have covered: "q div 64 < length (bitmap s)" if "q < unat h div 4096" for q
    using that by (simp add: len sizes(1))
  have usable: "q < unat h div 4096" if u: "usable_page memmap q" for q
  proof -
    obtain e where e: "Some e \<in> set memmap" "entry_type e = MEMMAP_USABLE"
        "q < unat (entry_base e) div 4096 + unat (entry_length e) div 4096"
      using u by (auto simp: usable_page_def)
    have "unat (entry_base e) div 4096 + unat (entry_length e) div 4096
        \<le> (unat (entry_base e) + unat (entry_length e)) div 4096"
      by (simp add: div_add1_eq [of "unat (entry_base e)"])
    also have "\<dots> \<le> unat h div 4096"
      using top(3) [OF e(1,2)] by (rule div_le_mono)
    finally show ?thesis
      using e(3) by simp
  qed
  then show "usable_page memmap p \<Longrightarrow> p div 64 < length (bitmap s)"
    using covered by blast
  have "unat b + unat l < 2 ^ 64"
    using top(1) unat_u64 [of h] by simp
  then have phys_end: "unat phys div 4096 + unat pages = (unat b + unat l) div 4096"
    unfolding phys_def using fit by (rule pmm_bitmap_address)
  have "bitmap_ptr s - hhdm = phys"
    using ptr by (auto simp: cadd_Some)
  then have own: "own_pages s hhdm = {unat phys div 4096..<unat phys div 4096 + unat pages}"
    by (simp add: own_pages_def Let_def len sizes(3))
  then show "p \<in> own_pages s hhdm \<Longrightarrow> p div 64 < length (bitmap s)"
    using covered [of p] phys_end div_le_mono [OF top(1), of 4096] by simp
  have "unat (phys div PAGE_SIZE) + unat pages < 2 ^ 64"
    using phys_end div_le_mono [OF top(1), of 4096] page_number_bound [of h]
    by (simp add: unat_page_count)
  note set = bm_bit_fold_set [OF _ this]
  show "page_free s p \<longleftrightarrow> usable_page memmap p \<and> p \<notin> own_pages s hhdm"
  proof (cases "p div 64 < unat entries")
    case True
    then show ?thesis
      by (auto simp: page_free_def bm set bm_bit_free_usable bm_bit_all_ones own unat_page_count)
  next
    case False
    then show ?thesis
      using usable covered by (auto simp: page_free_def len)
  qed
qed

section \<open>Properties\<close>

text \<open>
  C7: when \<^verbatim>\<open>pmm_init\<close> returns, the free frames are exactly the frames of the usable
  memory-map regions less the frames the bitmap itself occupies, and every page number it
  writes to lies inside the bitmap.
\<close>

theorem pmm_init_frees_usable:
  assumes "pmm_init (Some memmap) (Some hhdm) = Some s"
  shows "pmm_wf s
    \<and> free_frames s = {a. unat a mod 4096 = 0 \<and> usable_page memmap (unat a div 4096)
          \<and> unat a div 4096 \<notin> own_pages s hhdm}
    \<and> (\<forall>p. usable_page memmap p \<or> p \<in> own_pages s hhdm \<longrightarrow> p div 64 < length (bitmap s))"
  using pmm_init_correct [OF assms] by (auto simp: free_frames_def)

theorem pmm_init_frees_usable_witness:
  "\<exists>s. pmm_init (Some [None, Some \<lparr>entry_base = 0, entry_length = 0x3000, entry_type = 0\<rparr>])
        (Some 0xFFFF800000000000) = Some s \<and> pmm_wf s \<and> 0x1000 \<in> free_frames s"
proof -
  let ?m = "[None, Some \<lparr>entry_base = 0, entry_length = 0x3000, entry_type = 0\<rparr>]"
  let ?s = "\<lparr>bitmap_ptr = 0xFFFF800000002000, bitmap = [0xFFFFFFFFFFFFFFFC], bitmap_entries = 1,
    alloc_hint = 0\<rparr>"
  have init: "pmm_init (Some ?m) (Some 0xFFFF800000000000) = Some ?s"
    by (simp add: pmm_init_def Let_def MEMMAP_USABLE_def PAGE_SIZE_def cadd_def)
      (simp add: bitmap_clear_def bitmap_set_def upt_rec)
  have "usable_page ?m 1"
    by (simp add: usable_page_def MEMMAP_USABLE_def)
  moreover have "(1 :: nat) \<notin> own_pages ?s 0xFFFF800000000000"
    by (simp add: own_pages_def Let_def)
  ultimately show ?thesis
    using init pmm_init_frees_usable [OF init] by auto
qed

text \<open>
  C6: frames are never handed out twice.  From a well-formed allocator, as many allocations in
  a row as there are free frames all succeed, return pairwise different free frames, and
  leave exactly the remaining frames free.
\<close>

theorem pmm_allocations_distinct:
  assumes "pmm_wf s" and "n \<le> card (free_frames s)"
    and "alloc_n pmm_alloc_page n s = (frames, s')"
  shows "length frames = n \<and> distinct frames \<and> set frames \<subseteq> free_frames s
    \<and> free_frames s' = free_frames s - set frames \<and> pmm_wf s'"
  using pmm.alloc_n_distinct [OF assms(1) finite_free_frames assms(2,3)] .

theorem pmm_allocations_distinct_witness:
  "fst (alloc_n pmm_alloc_page 1
     \<lparr>bitmap_ptr = 0, bitmap = [0xFFFFFFFFFFFFFFFE], bitmap_entries = 1, alloc_hint = 0\<rparr>) = [0]"
proof -
  let ?s = "\<lparr>bitmap_ptr = 0, bitmap = [0xFFFFFFFFFFFFFFFE], bitmap_entries = 1, alloc_hint = 0\<rparr>"
  have wf: "pmm_wf ?s"
    by (simp add: pmm_wf_def)
  have "page_free ?s p \<longleftrightarrow> p = 0" for p
  proof -
    have w: "(0xFFFFFFFFFFFFFFFE :: u64) = NOT 1"
      by simp
    have "page_free ?s p \<longleftrightarrow> p div 64 = 0 \<and> \<not> bit (0xFFFFFFFFFFFFFFFE :: u64) (p mod 64)"
      by (auto simp: page_free_def bm_bit_def)
    also have "\<dots> \<longleftrightarrow> p = 0"
      unfolding w by (auto simp: bit_not_iff bit_1_iff)
    finally show ?thesis .
  qed
  then have "free_frames ?s = {a. unat a mod 4096 = 0 \<and> unat a div 4096 = 0}"
    unfolding free_frames_def by blast
  also have "\<dots> = {0}"
    by (auto intro: aligned_eqI [of _ 0])
  finally have "free_frames ?s = {0}" .
  moreover obtain frames s' where run: "alloc_n pmm_alloc_page 1 ?s = (frames, s')"
    by (rule prod.exhaust)
  ultimately have "length frames = 1" "set frames \<subseteq> {0}"
    using pmm_allocations_distinct [OF wf _ run] by simp_all
  then have "frames = [0]"
    by (cases frames) auto
  then show ?thesis
    unfolding run by simp
qed



end
