(* ===== verification/Vmm.thy ===== *)
theory Vmm
  imports Pmm
begin

text \<open>
  The four-level page tables of \<^verbatim>\<open>src/mm.rs\<close>.  Page-table memory is the explicit store
  \<open>mem\<close>, a function from the address of a 64-bit cell (as the kernel sees it, through the HHDM) to its
  contents, so that two table entries alias exactly when the code's pointers are equal.  Frames come from
  the allocator of theory \<open>Pmm\<close>.  \<^verbatim>\<open>tlb_flush\<close> has no counterpart: the model has no TLB.
\<close>

section \<open>Constants and state\<close>

definition VMM_NO_PHYS :: u64 where "VMM_NO_PHYS = - 1"

definition PTE_PRESENT :: u64 where "PTE_PRESENT = 1"
definition PTE_WRITABLE :: u64 where "PTE_WRITABLE = 2"
definition PTE_USER :: u64 where "PTE_USER = 4"
definition PTE_PWT :: u64 where "PTE_PWT = 8"
definition PTE_PCD :: u64 where "PTE_PCD = 16"
definition PTE_HUGE :: u64 where "PTE_HUGE = 0x80"
definition PTE_ADDR_MASK :: u64 where "PTE_ADDR_MASK = 0x000FFFFFFFFFF000"
definition PTE_ADDR_MASK_1G :: u64 where "PTE_ADDR_MASK_1G = 0x000FFFFFC0000000"
definition PTE_ADDR_MASK_2M :: u64 where "PTE_ADDR_MASK_2M = 0x000FFFFFFFE00000"

record mm =
  frames :: pmm
  mem :: "u64 \<Rightarrow> u64"
  pml4 :: u64
  hhdm :: "u64 option"

text \<open>\<^verbatim>\<open>hhdm_base\<close> stops the kernel when Limine gave no answer.\<close>

definition phys_to_ptr :: "mm \<Rightarrow> u64 \<Rightarrow> u64 option" where
  "phys_to_ptr s physical = do { h \<leftarrow> hhdm s; cadd physical h }"

text \<open>\<^verbatim>\<open>table.add(i)\<close> for a table of 64-bit entries.\<close>

definition cell :: "u64 \<Rightarrow> nat \<Rightarrow> u64" where
  "cell table i = table + 8 * of_nat i"

text \<open>\<^verbatim>\<open>write_bytes(table, 0, 512)\<close>.\<close>

definition zero_table :: "u64 \<Rightarrow> (u64 \<Rightarrow> u64) \<Rightarrow> u64 \<Rightarrow> u64" where
  "zero_table table m a = (if a - table < 4096 \<and> (a - table) AND 7 = 0 then 0 else m a)"

section \<open>Operations\<close>

definition vmm_init :: "u64 \<Rightarrow> mm \<Rightarrow> mm option" where
  "vmm_init cr3 s =
     (if cr3 = 0 then None
      else do {
        p \<leftarrow> phys_to_ptr s (cr3 AND NOT 0xFFF);
        Some (s\<lparr>pml4 := p\<rparr>)
      })"

definition alloc_table :: "mm \<Rightarrow> (u64 \<times> mm) option" where
  "alloc_table s =
     (let (page, fr) = pmm_alloc_page (frames s) in
      if page = PMM_NO_PAGE then None
      else do {
        table \<leftarrow> phys_to_ptr s page;
        Some (table, s\<lparr>frames := fr, mem := zero_table table (mem s)\<rparr>)
      })"

text \<open>The index of level \<open>l\<close> (0 is the page table, 3 the PML4) in a virtual address.\<close>

definition vindex :: "nat \<Rightarrow> u64 \<Rightarrow> nat" where
  "vindex l va = unat (drop_bit (12 + 9 * l) va AND 0x1FF)"

text \<open>
  The block the source repeats for the PML4, the PDPT and the PD: make sure the entry is present, allocating
  and zeroing a table if it is not, and follow it.
\<close>

definition vmm_descend :: "u64 \<Rightarrow> nat \<Rightarrow> u64 \<Rightarrow> mm \<Rightarrow> (u64 \<times> mm) option" where
  "vmm_descend table i flags s =
     (let table_flags = PTE_PRESENT OR PTE_WRITABLE OR (flags AND PTE_USER);
          user = flags AND PTE_USER \<noteq> 0;
          entry = mem s (cell table i)
      in do {
        s \<leftarrow> (if entry AND PTE_PRESENT \<noteq> 0 then
               (if entry AND PTE_HUGE \<noteq> 0 then None
                else Some (if user then s\<lparr>mem := (mem s)(cell table i := entry OR PTE_USER)\<rparr> else s))
             else
               (let (new_page, fr) = pmm_alloc_page (frames s) in
                if new_page = PMM_NO_PAGE then None
                else let s = s\<lparr>frames := fr, mem := (mem s)(cell table i := new_page OR table_flags)\<rparr>
                     in do {
                       p \<leftarrow> phys_to_ptr s new_page;
                       Some (s\<lparr>mem := zero_table p (mem s)\<rparr>)
                     }));
        next_table \<leftarrow> phys_to_ptr s (mem s (cell table i) AND PTE_ADDR_MASK);
        Some (next_table, s)
      })"

definition vmm_map_page_flags :: "u64 \<Rightarrow> u64 \<Rightarrow> u64 \<Rightarrow> mm \<Rightarrow> mm option" where
  "vmm_map_page_flags va physical flags s =
     (if pml4 s = 0 then None
      else if va AND (PAGE_SIZE - 1) \<noteq> 0 \<or> physical AND (PAGE_SIZE - 1) \<noteq> 0 then None
      else do {
        (pdpt, s) \<leftarrow> vmm_descend (pml4 s) (vindex 3 va) flags s;
        (pd, s) \<leftarrow> vmm_descend pdpt (vindex 2 va) flags s;
        (pt, s) \<leftarrow> vmm_descend pd (vindex 1 va) flags s;
        Some (s\<lparr>mem := (mem s)(cell pt (vindex 0 va)
                  := (physical AND PTE_ADDR_MASK) OR PTE_PRESENT OR flags)\<rparr>)
      })"

definition vmm_map_page :: "u64 \<Rightarrow> u64 \<Rightarrow> mm \<Rightarrow> mm option" where
  "vmm_map_page va physical = vmm_map_page_flags va physical (PTE_PRESENT OR PTE_WRITABLE)"

definition vmm_map_user_page :: "u64 \<Rightarrow> u64 \<Rightarrow> mm \<Rightarrow> mm option" where
  "vmm_map_user_page va physical =
     vmm_map_page_flags va physical (PTE_PRESENT OR PTE_WRITABLE OR PTE_USER)"

definition vmm_map_user_page_flags :: "u64 \<Rightarrow> u64 \<Rightarrow> u64 \<Rightarrow> mm \<Rightarrow> mm option" where
  "vmm_map_user_page_flags va physical flags = vmm_map_page_flags va physical (flags OR PTE_USER)"

definition vmm_map_user_mmio :: "u64 \<Rightarrow> u64 \<Rightarrow> mm \<Rightarrow> mm option" where
  "vmm_map_user_mmio va physical = vmm_map_page_flags va physical
     (PTE_PRESENT OR PTE_WRITABLE OR PTE_PWT OR PTE_PCD OR PTE_USER)"

definition vmm_map_mmio :: "u64 \<Rightarrow> u64 \<Rightarrow> mm \<Rightarrow> mm option" where
  "vmm_map_mmio va physical = vmm_map_page_flags va physical
     (PTE_PRESENT OR PTE_WRITABLE OR PTE_PWT OR PTE_PCD)"

definition vmm_unmap_page :: "u64 \<Rightarrow> mm \<Rightarrow> mm option" where
  "vmm_unmap_page va s =
     (if pml4 s = 0 then None
      else let pml4_entry = mem s (cell (pml4 s) (vindex 3 va)) in
        if pml4_entry AND PTE_PRESENT = 0 then Some s
        else if pml4_entry AND PTE_HUGE \<noteq> 0 then None
        else do {
          pdpt \<leftarrow> phys_to_ptr s (pml4_entry AND PTE_ADDR_MASK);
          let pdpt_entry = mem s (cell pdpt (vindex 2 va));
          if pdpt_entry AND PTE_PRESENT = 0 then Some s
          else if pdpt_entry AND PTE_HUGE \<noteq> 0 then None
          else do {
            pd \<leftarrow> phys_to_ptr s (pdpt_entry AND PTE_ADDR_MASK);
            let pd_entry = mem s (cell pd (vindex 1 va));
            if pd_entry AND PTE_PRESENT = 0 then Some s
            else if pd_entry AND PTE_HUGE \<noteq> 0 then None
            else do {
              pt \<leftarrow> phys_to_ptr s (pd_entry AND PTE_ADDR_MASK);
              if mem s (cell pt (vindex 0 va)) AND PTE_PRESENT = 0 then Some s
              else Some (s\<lparr>mem := (mem s)(cell pt (vindex 0 va) := 0)\<rparr>)
            }
          }
        })"

definition vmm_virt_to_phys :: "u64 \<Rightarrow> mm \<Rightarrow> u64 option" where
  "vmm_virt_to_phys va s =
     (if pml4 s = 0 then Some VMM_NO_PHYS
      else let offset = va AND (PAGE_SIZE - 1);
               addr = va AND NOT 0xFFF;
               entry = mem s (cell (pml4 s) (vindex 3 addr))
        in if entry AND PTE_PRESENT = 0 \<or> entry AND PTE_HUGE \<noteq> 0 then Some VMM_NO_PHYS
        else do {
          pdpt \<leftarrow> phys_to_ptr s (entry AND PTE_ADDR_MASK);
          let entry = mem s (cell pdpt (vindex 2 addr));
          if entry AND PTE_PRESENT = 0 then Some VMM_NO_PHYS
          else if entry AND PTE_HUGE \<noteq> 0
            then Some ((entry AND PTE_ADDR_MASK_1G) OR (addr AND 0x3FFFFFFF) OR offset)
          else do {
            pd \<leftarrow> phys_to_ptr s (entry AND PTE_ADDR_MASK);
            let entry = mem s (cell pd (vindex 1 addr));
            if entry AND PTE_PRESENT = 0 then Some VMM_NO_PHYS
            else if entry AND PTE_HUGE \<noteq> 0
              then Some ((entry AND PTE_ADDR_MASK_2M) OR (addr AND 0x1FFFFF) OR offset)
            else do {
              pt \<leftarrow> phys_to_ptr s (entry AND PTE_ADDR_MASK);
              let entry = mem s (cell pt (vindex 0 addr));
              if entry AND PTE_PRESENT = 0 then Some VMM_NO_PHYS
              else Some ((entry AND PTE_ADDR_MASK) OR offset)
            }
          }
        })"

section \<open>The tree of tables\<close>

definition present :: "u64 \<Rightarrow> bool" where "present e \<longleftrightarrow> e AND PTE_PRESENT \<noteq> 0"
definition huge :: "u64 \<Rightarrow> bool" where "huge e \<longleftrightarrow> e AND PTE_HUGE \<noteq> 0"
definition user_bit :: "u64 \<Rightarrow> bool" where "user_bit e \<longleftrightarrow> e AND PTE_USER \<noteq> 0"

text \<open>
  A table is named by the path that leads to it from the PML4, innermost index first: \<open>[]\<close> is the PML4
  itself, \<open>[i]\<close> the PDPT behind its entry \<open>i\<close>, \<open>[j, i]\<close> the PD behind entry \<open>j\<close> of that, and so on.
\<close>

primrec table_of :: "mm \<Rightarrow> nat list \<Rightarrow> u64 option" where
  "table_of s [] = Some (pml4 s)"
| "table_of s (i # p) =
     (case table_of s p of
        None \<Rightarrow> None
      | Some t \<Rightarrow> (let e = mem s (cell t i) in
          if present e \<and> \<not> huge e then phys_to_ptr s (e AND PTE_ADDR_MASK)
          else None))"

definition path_ok :: "nat list \<Rightarrow> bool" where
  "path_ok p \<longleftrightarrow> length p \<le> 3 \<and> (\<forall>i\<in>set p. i < 512)"

text \<open>
  Tables are page aligned, never lie in a frame the allocator could still hand out, and no table is
  reachable on two paths.  Free frames have an address a page-table entry can hold.
\<close>

definition vmm_inv :: "mm \<Rightarrow> bool" where
  "vmm_inv s \<longleftrightarrow> pmm_wf (frames s) \<and> pml4 s \<noteq> 0 \<and>
     (\<exists>h. hhdm s = Some h \<and>
        (\<forall>p t. path_ok p \<longrightarrow> table_of s p = Some t \<longrightarrow>
           (t - h) AND 0xFFF = 0 \<and> t - h \<notin> free_frames (frames s))) \<and>
     (\<forall>p q t. path_ok p \<longrightarrow> path_ok q \<longrightarrow> table_of s p = Some t \<longrightarrow> table_of s q = Some t \<longrightarrow> p = q) \<and>
     (\<forall>a\<in>free_frames (frames s). a AND PTE_ADDR_MASK = a)"

section \<open>Arithmetic of table cells\<close>

lemma vindex_less [simp]: "vindex l va < 512"
proof -
  have "drop_bit (12 + 9 * l) va AND 0x1FF = take_bit 9 (drop_bit (12 + 9 * l) va)"
    by (simp add: take_bit_eq_mask mask_eq_exp_minus_1)
  moreover have "unat (take_bit 9 (drop_bit (12 + 9 * l) va)) < 2 ^ 9"
    by (simp only: unsigned_take_bit_eq take_bit_nat_less_exp)
  ultimately show ?thesis by (simp add: vindex_def)
qed

lemma aligned_dvd: "x AND 0xFFF = 0 \<longleftrightarrow> 4096 dvd unat (x :: u64)"
proof -
  have "unat (x AND 0xFFF) = unat x mod 4096"
    using unat_align_low [of x 12] by (simp add: page_mask)
  then show ?thesis by (metis dvd_eq_mod_eq_0 unat_eq_0)
qed

lemma aligned_diff:
  fixes x y :: u64
  assumes "x AND 0xFFF = 0" "y AND 0xFFF = 0"
  shows "4096 dvd unat (x - y)"
  using assms by (auto simp: aligned_dvd unat_sub_if_size word_size)

lemma aligned_unat:
  fixes d :: u64
  assumes "4096 dvd unat d" "d \<noteq> 0"
  shows "4096 \<le> unat d \<and> unat d + 4096 \<le> 2 ^ 64"
proof -
  obtain k where k: "unat d = 4096 * k" using assms(1) by (elim dvdE)
  have "k \<noteq> 0" using k assms(2) by (cases k) (simp_all add: unat_eq_0)
  moreover have "k < 2 ^ 52" using unat_u64 [of d] k by simp
  ultimately show ?thesis using k by simp
qed

lemma offset_unat: "i < 512 \<Longrightarrow> unat (8 * of_nat i :: u64) = 8 * i"
  by (simp add: unat_mult_bounded unat_of_nat_bounded)

lemma cell_other_table:
  fixes t u h :: u64
  assumes "(t - h) AND 0xFFF = 0" "(u - h) AND 0xFFF = 0" "t \<noteq> u" "i < 512"
  shows "\<not> cell t i - u < 4096"
proof -
  define d where "d = t - u"
  have d: "4096 dvd unat d" "d \<noteq> 0"
    using aligned_diff [OF assms(1,2)] assms(3) by (simp_all add: d_def)
  have "unat (d + 8 * of_nat i) = unat d + 8 * i"
    using aligned_unat [OF d] assms(4) by (simp add: unat_add_bounded offset_unat)
  then have "4096 \<le> unat (d + 8 * of_nat i)" using aligned_unat [OF d] by simp
  moreover have "cell t i - u = d + 8 * of_nat i" by (simp add: cell_def d_def)
  ultimately show ?thesis by (simp add: word_less_nat_alt)
qed

lemma cell_own_table:
  assumes "i < 512"
  shows "cell t i - t < 4096" "(cell t i - t) AND 7 = 0"
proof -
  have u: "cell t i - t = 8 * of_nat i" by (simp add: cell_def)
  show "cell t i - t < 4096" using assms by (simp add: u word_less_nat_alt offset_unat)
  have "(8 * of_nat i :: u64) = push_bit 3 (of_nat i)" by (simp add: push_bit_eq_mult mult.commute)
  then have "take_bit 3 (cell t i - t) = 0" unfolding u by (simp only: take_bit_push_bit) simp
  then show "(cell t i - t) AND 7 = 0" by (simp add: take_bit_eq_mask mask_eq_exp_minus_1)
qed

lemma cell_eq_iff:
  assumes "(t - h) AND 0xFFF = 0" "(u - h) AND 0xFFF = 0" "i < 512" "j < 512"
  shows "cell t i = cell u j \<longleftrightarrow> t = u \<and> i = j"
proof
  assume e: "cell t i = cell u j"
  have "t = u"
  proof (rule ccontr)
    assume "t \<noteq> u"
    then have "\<not> cell t i - u < 4096" by (rule cell_other_table [OF assms(1,2) _ assms(3)])
    then show False using cell_own_table(1) [OF assms(4), of u] e by simp
  qed
  then have "unat (8 * of_nat i :: u64) = unat (8 * of_nat j :: u64)" using e by (simp add: cell_def)
  then show "t = u \<and> i = j" using assms(3,4) \<open>t = u\<close> by (simp add: offset_unat)
qed simp

lemma zero_table_own: "i < 512 \<Longrightarrow> zero_table t m (cell t i) = 0"
  by (simp add: zero_table_def cell_own_table)

lemma zero_table_other:
  "(t - h) AND 0xFFF = 0 \<Longrightarrow> (u - h) AND 0xFFF = 0 \<Longrightarrow> t \<noteq> u \<Longrightarrow> i < 512 \<Longrightarrow>
   zero_table u m (cell t i) = m (cell t i)"
  using cell_other_table [of t h u i] by (simp add: zero_table_def)

section \<open>Entry bits\<close>

lemmas pte_defs = PTE_PRESENT_def PTE_WRITABLE_def PTE_USER_def PTE_PWT_def PTE_PCD_def PTE_HUGE_def
  PTE_ADDR_MASK_def PTE_ADDR_MASK_1G_def PTE_ADDR_MASK_2M_def

lemma and_or_numeral: "(x OR a) AND b = (x AND b) OR (a AND b)" for x a b :: u64
  by (rule bit.conj_disj_distrib2)

lemma or_user [simp]:
  "present (e OR PTE_USER) = present e" "huge (e OR PTE_USER) = huge e" "user_bit (e OR PTE_USER)"
  "(e OR PTE_USER) AND PTE_ADDR_MASK = e AND PTE_ADDR_MASK"
  "(e OR PTE_USER) AND PTE_ADDR_MASK_1G = e AND PTE_ADDR_MASK_1G"
  "(e OR PTE_USER) AND PTE_ADDR_MASK_2M = e AND PTE_ADDR_MASK_2M"
  by (simp_all add: present_def huge_def user_bit_def pte_defs and_or_numeral)

lemma not_present_0 [simp]: "\<not> present 0"
  by (simp add: present_def)

lemma masked_frame_bits:
  assumes "f AND PTE_ADDR_MASK = f"
  shows "f AND PTE_PRESENT = 0" "f AND PTE_HUGE = 0" "f AND PTE_USER = 0" "f AND 0xFFF = 0"
proof -
  have "f AND b = 0" if "PTE_ADDR_MASK AND b = 0" for b
  proof -
    have "f AND b = (f AND PTE_ADDR_MASK) AND b" by (simp only: assms)
    also have "\<dots> = f AND (PTE_ADDR_MASK AND b)" by (rule and.assoc)
    finally show ?thesis by (simp add: that)
  qed
  then show "f AND PTE_PRESENT = 0" "f AND PTE_HUGE = 0" "f AND PTE_USER = 0" "f AND 0xFFF = 0"
    by (simp_all add: pte_defs)
qed

lemma table_entry [simp]:
  fixes f flags :: u64
  assumes "f AND PTE_ADDR_MASK = f"
  defines "e \<equiv> f OR (PTE_PRESENT OR PTE_WRITABLE OR (flags AND PTE_USER))"
  shows "present e" "\<not> huge e" "e AND PTE_ADDR_MASK = f" "user_bit e \<longleftrightarrow> user_bit flags"
proof -
  have "(flags AND PTE_USER) AND b = flags AND (PTE_USER AND b)" for b
    by (rule and.assoc)
  then have "e AND b = (f AND b) OR ((PTE_PRESENT OR PTE_WRITABLE) AND b) OR (flags AND (PTE_USER AND b))" for b
    by (simp add: e_def and_or_numeral or.assoc)
  then show "present e" "\<not> huge e" "e AND PTE_ADDR_MASK = f" "user_bit e \<longleftrightarrow> user_bit flags"
    using masked_frame_bits [OF assms(1)] assms(1)
    by (simp_all add: present_def huge_def user_bit_def) (simp_all add: pte_defs)
qed

lemma leaf_entry:
  fixes flags :: u64
  assumes "flags AND PTE_ADDR_MASK = 0"
  shows "present ((f AND PTE_ADDR_MASK) OR PTE_PRESENT OR flags)"
    "((f AND PTE_ADDR_MASK) OR PTE_PRESENT OR flags) AND PTE_ADDR_MASK = f AND PTE_ADDR_MASK"
  using assms by (simp_all add: present_def and_or_numeral and.assoc PTE_PRESENT_def)
    (simp_all add: PTE_ADDR_MASK_def)

lemma flag_bits: "present e \<longleftrightarrow> bit e 0" "user_bit e \<longleftrightarrow> bit e 2"
  using and_exp_eq_0_iff_not_bit [of e 0] and_exp_eq_0_iff_not_bit [of e 2]
  by (simp_all add: present_def user_bit_def PTE_PRESENT_def PTE_USER_def)

lemma leaf_user: "user_bit flags \<Longrightarrow> user_bit (e OR PTE_PRESENT OR flags)" "present (e OR PTE_PRESENT OR flags)"
  by (simp_all add: flag_bits bit_simps PTE_PRESENT_def)

section \<open>The walk, level by level\<close>

text \<open>What the entry at one level contributes to the translation.\<close>

definition huge_target :: "nat \<Rightarrow> u64 \<Rightarrow> u64 \<Rightarrow> u64" where
  "huge_target l e va = (if l = 2 then (e AND PTE_ADDR_MASK_1G) OR ((va AND NOT 0xFFF) AND 0x3FFFFFFF) OR (va AND 0xFFF)
     else if l = 1 then (e AND PTE_ADDR_MASK_2M) OR ((va AND NOT 0xFFF) AND 0x1FFFFF) OR (va AND 0xFFF)
     else VMM_NO_PHYS)"

primrec xlate :: "mm \<Rightarrow> u64 \<Rightarrow> nat \<Rightarrow> u64 \<Rightarrow> u64 option" where
  "xlate s va 0 t = (let e = mem s (cell t (vindex 0 va)) in
     if \<not> present e then Some VMM_NO_PHYS else Some ((e AND PTE_ADDR_MASK) OR (va AND 0xFFF)))"
| "xlate s va (Suc l) t = (let e = mem s (cell t (vindex (Suc l) va)) in
     if \<not> present e then Some VMM_NO_PHYS
     else if huge e then Some (huge_target (Suc l) e va)
     else Option.bind (phys_to_ptr s (e AND PTE_ADDR_MASK)) (xlate s va l))"

lemma vindex_page: "vindex l (va AND NOT 0xFFF) = vindex l va"
proof -
  have "drop_bit (12 + 9 * l) (va AND NOT 0xFFF) = drop_bit (12 + 9 * l) va"
    by (rule bit_eqI) (auto simp: page_mask bit_simps dest: bit_imp_le_length)
  then show ?thesis by (simp add: vindex_def)
qed

lemma xlate_level:
  "xlate s va 3 t = (let e = mem s (cell t (vindex 3 va)) in
     if \<not> present e then Some VMM_NO_PHYS
     else if huge e then Some (huge_target 3 e va)
     else Option.bind (phys_to_ptr s (e AND PTE_ADDR_MASK)) (xlate s va 2))"
  "xlate s va 2 t = (let e = mem s (cell t (vindex 2 va)) in
     if \<not> present e then Some VMM_NO_PHYS
     else if huge e then Some (huge_target 2 e va)
     else Option.bind (phys_to_ptr s (e AND PTE_ADDR_MASK)) (xlate s va 1))"
  "xlate s va 1 t = (let e = mem s (cell t (vindex 1 va)) in
     if \<not> present e then Some VMM_NO_PHYS
     else if huge e then Some (huge_target 1 e va)
     else Option.bind (phys_to_ptr s (e AND PTE_ADDR_MASK)) (xlate s va 0))"
  using xlate.simps(2) [of s va 2 t] xlate.simps(2) [of s va 1 t] xlate.simps(2) [of s va 0 t]
  by (simp_all only: numeral_3_eq_3 numeral_2_eq_2 One_nat_def)

lemma virt_to_phys_xlate:
  "vmm_virt_to_phys va s = (if pml4 s = 0 then Some VMM_NO_PHYS else xlate s va 3 (pml4 s))"
  unfolding vmm_virt_to_phys_def vindex_page Let_def PAGE_SIZE_def xlate_level xlate.simps(1)
    present_def huge_def huge_target_def
  by (simp split: Option.bind_split)

section \<open>How one descent changes the tree\<close>

lemma phys_to_ptr_cong: "hhdm s' = hhdm s \<Longrightarrow> phys_to_ptr s' = phys_to_ptr s"
  by (simp add: phys_to_ptr_def fun_eq_iff)

lemma table_of_Cons:
  "table_of s (i # p) = Some u \<longleftrightarrow> (\<exists>t. table_of s p = Some t \<and> present (mem s (cell t i)) \<and>
     \<not> huge (mem s (cell t i)) \<and> phys_to_ptr s (mem s (cell t i) AND PTE_ADDR_MASK) = Some u)"
  by (auto simp: Let_def split: option.splits)

lemma path_ok_Cons [simp]: "path_ok (i # p) \<longleftrightarrow> i < 512 \<and> length p \<le> 2 \<and> path_ok p"
  by (auto simp: path_ok_def)

lemma path_ok_Nil [simp]: "path_ok []"
  by (simp add: path_ok_def)

text \<open>Setting user bits anywhere changes neither the tree nor a translation.\<close>

definition user_bits_set :: "mm \<Rightarrow> mm \<Rightarrow> bool" where
  "user_bits_set s s' \<longleftrightarrow> hhdm s' = hhdm s \<and> pml4 s' = pml4 s \<and> frames s' = frames s \<and>
     (\<forall>a. mem s' a = mem s a \<or> mem s' a = mem s a OR PTE_USER)"

lemma user_bits_same_entry:
  assumes "user_bits_set s s'"
  shows "present (mem s' a) = present (mem s a)" "huge (mem s' a) = huge (mem s a)"
    "mem s' a AND PTE_ADDR_MASK = mem s a AND PTE_ADDR_MASK" "huge_target l (mem s' a) va = huge_target l (mem s a) va"
    "user_bit (mem s a) \<Longrightarrow> user_bit (mem s' a)"
proof -
  have "mem s' a = mem s a \<or> mem s' a = mem s a OR PTE_USER"
    using assms by (simp add: user_bits_set_def)
  then show "present (mem s' a) = present (mem s a)" "huge (mem s' a) = huge (mem s a)"
    "mem s' a AND PTE_ADDR_MASK = mem s a AND PTE_ADDR_MASK" "huge_target l (mem s' a) va = huge_target l (mem s a) va"
    "user_bit (mem s a) \<Longrightarrow> user_bit (mem s' a)"
    by (auto simp: huge_target_def)
qed

lemma user_bits_ptr: "user_bits_set s s' \<Longrightarrow> phys_to_ptr s' = phys_to_ptr s"
  by (rule phys_to_ptr_cong) (simp add: user_bits_set_def)

lemma user_bits_table_of:
  assumes "user_bits_set s s'"
  shows "table_of s' p = table_of s p"
proof (induction p)
  case Nil
  then show ?case using assms by (simp add: user_bits_set_def)
next
  case (Cons i p)
  then show ?case
    by (simp add: Let_def user_bits_same_entry [OF assms] user_bits_ptr [OF assms] split: option.split)
qed

lemma user_bits_xlate:
  assumes "user_bits_set s s'"
  shows "xlate s' va l t = xlate s va l t"
  by (induction l arbitrary: t)
    (simp_all add: Let_def user_bits_same_entry [OF assms] user_bits_ptr [OF assms] split: Option.bind_split)

lemma user_bits_inv:
  assumes "user_bits_set s s'"
  shows "vmm_inv s' = vmm_inv s"
  using assms by (simp add: vmm_inv_def user_bits_table_of [OF assms]) (simp add: user_bits_set_def)

text \<open>Attaching a zeroed table taken from the allocator.\<close>

definition attach :: "u64 \<Rightarrow> nat \<Rightarrow> u64 \<Rightarrow> u64 \<Rightarrow> pmm \<Rightarrow> mm \<Rightarrow> mm" where
  "attach t i e u fr s = s\<lparr>frames := fr, mem := zero_table u ((mem s)(cell t i := e))\<rparr>"

lemma attach_simps [simp]:
  "hhdm (attach t i e u fr s) = hhdm s" "pml4 (attach t i e u fr s) = pml4 s"
  "frames (attach t i e u fr s) = fr"
  "j < 512 \<Longrightarrow> mem (attach t i e u fr s) (cell u j) = 0"
  by (simp_all add: attach_def zero_table_own)

lemma vmm_invD:
  assumes "vmm_inv s" "hhdm s = Some h"
  shows "path_ok p \<Longrightarrow> table_of s p = Some t \<Longrightarrow> (t - h) AND 0xFFF = 0"
    "path_ok p \<Longrightarrow> table_of s p = Some t \<Longrightarrow> t - h \<notin> free_frames (frames s)"
    "path_ok p \<Longrightarrow> path_ok q \<Longrightarrow> table_of s p = Some t \<Longrightarrow> table_of s q = Some t \<Longrightarrow> p = q"
    "a \<in> free_frames (frames s) \<Longrightarrow> a AND PTE_ADDR_MASK = a"
    "pmm_wf (frames s)" "pml4 s \<noteq> 0"
  using assms unfolding vmm_inv_def by auto

text \<open>The situation after a successful allocation, for a present-less entry \<open>i\<close> of the table at \<open>p\<close>.\<close>

definition attachable :: "nat list \<Rightarrow> u64 \<Rightarrow> nat \<Rightarrow> u64 \<Rightarrow> u64 \<Rightarrow> u64 \<Rightarrow> mm \<Rightarrow> bool" where
  "attachable p t i e u h s \<longleftrightarrow> vmm_inv s \<and> hhdm s = Some h \<and> path_ok (i # p) \<and> table_of s p = Some t \<and>
     \<not> present (mem s (cell t i)) \<and> u - h \<in> free_frames (frames s) \<and>
     present e \<and> \<not> huge e \<and> phys_to_ptr s (e AND PTE_ADDR_MASK) = Some u"

lemma attachable_fresh:
  assumes "attachable p t i e u h s" "path_ok q" "table_of s q = Some w"
  shows "(u - h) AND 0xFFF = 0" "(w - h) AND 0xFFF = 0" "w \<noteq> u"
  using assms vmm_invD(1,2,4) [of s h] masked_frame_bits(4) [of "u - h"]
  unfolding attachable_def by metis+

lemma attach_mem:
  assumes a: "attachable p t i e u h s" and q: "path_ok q" "table_of s q = Some w" and j: "j < 512"
  shows "mem (attach t i e u fr s) (cell w j) = (if q = p \<and> j = i then e else mem s (cell w j))"
proof -
  have p: "path_ok p" "table_of s p = Some t" "i < 512" "vmm_inv s" "hhdm s = Some h"
    using a by (simp_all add: attachable_def)
  note f = attachable_fresh [OF a q] and g = attachable_fresh(2) [OF a p(1,2)]
  have "cell w j = cell t i \<longleftrightarrow> w = t \<and> j = i"
    by (rule cell_eq_iff [OF f(2) g j p(3)])
  also have "\<dots> \<longleftrightarrow> q = p \<and> j = i"
    using vmm_invD(3) [OF p(4,5) q(1) p(1) q(2)] p(2) q(2) by auto
  finally show ?thesis
    using zero_table_other [OF f(2,1,3) j] by (simp add: attach_def)
qed

lemma attach_table_of:
  assumes a: "attachable p t i e u h s" and q: "path_ok q"
  shows "table_of (attach t i e u fr s) q = (if q = i # p then Some u else table_of s q)"
  using q
proof (induction q)
  case Nil
  then show ?case by simp
next
  case (Cons j q)
  let ?s = "attach t i e u fr s"
  have ptr: "phys_to_ptr ?s = phys_to_ptr s" by (rule phys_to_ptr_cong) simp
  have p: "table_of s p = Some t" "\<not> present (mem s (cell t i))" "present e" "\<not> huge e"
    "phys_to_ptr s (e AND PTE_ADDR_MASK) = Some u" "table_of s (i # p) = None"
    using a by (simp_all add: attachable_def)
  have q: "path_ok q" "j < 512" using Cons.prems by simp_all
  show ?case
  proof (cases "q = i # p")
    case True
    then have "table_of ?s q = Some u" using Cons.IH [OF q(1)] by simp
    then have "table_of ?s (j # q) = None" using q(2) by simp
    then show ?thesis using True p(6) by simp
  next
    case False
    then have e: "table_of ?s q = table_of s q" using Cons.IH [OF q(1)] by simp
    show ?thesis
    proof (cases "table_of s q")
      case None
      then show ?thesis using e p(1) by auto
    next
      case (Some w)
      then show ?thesis
        using e attach_mem [OF a q(1) Some q(2), of fr] p by (auto simp: ptr Let_def)
    qed
  qed
qed

lemma attach_inv:
  assumes a: "attachable p t i e u h s" and fr: "pmm_wf fr" "free_frames fr = free_frames (frames s) - {u - h}"
  shows "vmm_inv (attach t i e u fr s)"
proof -
  let ?s = "attach t i e u fr s"
  have s: "vmm_inv s" "hhdm s = Some h" using a by (simp_all add: attachable_def)
  have al: "(u - h) AND 0xFFF = 0" using attachable_fresh(1) [OF a, of "[]"] by simp
  have fresh: "table_of s q \<noteq> Some u" if "path_ok q" for q
    using attachable_fresh(3) [OF a that] by auto
  have 1: "(w - h) AND 0xFFF = 0 \<and> w - h \<notin> free_frames fr" if "path_ok q" "table_of ?s q = Some w" for q w
    using that vmm_invD(1,2) [OF s that(1), of w] al fr(2) attach_table_of [OF a that(1), of fr]
    by (auto split: if_splits)
  have 2: "q = r" if "path_ok q" "path_ok r" "table_of ?s q = Some w" "table_of ?s r = Some w" for q r w
    using that fresh [OF that(1)] fresh [OF that(2)] vmm_invD(3) [OF s that(1,2)]
      attach_table_of [OF a that(1), of fr] attach_table_of [OF a that(2), of fr]
    by (auto split: if_splits)
  show ?thesis
    unfolding vmm_inv_def using 1 2 fr s(2) vmm_invD(4,6) [OF s] by simp
qed

lemma xlate_empty_table: "(\<And>j. j < 512 \<Longrightarrow> mem s (cell u j) = 0) \<Longrightarrow> xlate s va l u = Some VMM_NO_PHYS"
  by (cases l) (simp_all add: Let_def)

lemma attach_xlate:
  assumes a: "attachable p t i e u h s"
  shows "path_ok q \<Longrightarrow> table_of s q = Some w \<Longrightarrow> length q + l = 3 \<Longrightarrow>
    xlate (attach t i e u fr s) va l w = xlate s va l w"
proof (induction l arbitrary: q w)
  case 0
  have "length p \<le> 2" using a by (simp add: attachable_def)
  then show ?case using 0 attach_mem [OF a 0(1,2) vindex_less, of fr 0 va] by auto
next
  case (Suc l)
  let ?s = "attach t i e u fr s" and ?j = "vindex (Suc l) va"
  have ptr: "phys_to_ptr ?s = phys_to_ptr s" by (rule phys_to_ptr_cong) simp
  note m = attach_mem [OF a Suc.prems(1,2) vindex_less, of fr "Suc l" va]
  show ?case
  proof (cases "q = p \<and> ?j = i")
    case True
    then have "w = t" "\<not> present (mem s (cell w i))" "present e" "\<not> huge e"
      "phys_to_ptr s (e AND PTE_ADDR_MASK) = Some u"
      using a Suc.prems(2) by (auto simp: attachable_def)
    moreover have "xlate ?s va l u = Some VMM_NO_PHYS" by (rule xlate_empty_table) simp
    ultimately show ?thesis using True m by (simp add: ptr Let_def)
  next
    case False
    have "xlate ?s va l w' = xlate s va l w'"
      if "present (mem s (cell w ?j))" "\<not> huge (mem s (cell w ?j))"
        "phys_to_ptr s (mem s (cell w ?j) AND PTE_ADDR_MASK) = Some w'" for w'
      using that Suc.prems by (intro Suc.IH [of "?j # q"]) (auto simp: table_of_Cons)
    moreover have "mem ?s (cell w ?j) = mem s (cell w ?j)" using m unfolding if_not_P [OF False] .
    ultimately show ?thesis by (simp add: ptr Let_def split: Option.bind_split)
  qed
qed

text \<open>A descent either sets user bits only or attaches a fresh table.\<close>

lemma vmm_descend_cases:
  assumes inv: "vmm_inv s" "hhdm s = Some h" and p: "path_ok (i # p)" "table_of s p = Some t"
    and d: "vmm_descend t i flags s = Some (u, s')"
  obtains (follow) "user_bits_set s s'" "table_of s (i # p) = Some u" "user_bit flags \<Longrightarrow> user_bit (mem s' (cell t i))"
  | (fresh) e fr where "attachable p t i e u h s" "s' = attach t i e u fr s" "pmm_wf fr"
      "free_frames fr = free_frames (frames s) - {u - h}" "user_bit flags \<Longrightarrow> user_bit e"
proof (cases "present (mem s (cell t i))")
  case True
  then have nh: "\<not> huge (mem s (cell t i))" and
    s': "s' = (if user_bit flags then s\<lparr>mem := (mem s)(cell t i := mem s (cell t i) OR PTE_USER)\<rparr> else s)"
    and u: "phys_to_ptr s' (mem s' (cell t i) AND PTE_ADDR_MASK) = Some u"
    using d by (auto simp: vmm_descend_def Let_def present_def huge_def user_bit_def split: if_splits)
  have ub: "user_bits_set s s'" by (auto simp: s' user_bits_set_def)
  moreover have "table_of s (i # p) = Some u"
    using u True nh p(2) unfolding user_bits_ptr [OF ub] user_bits_same_entry [OF ub]
    by (simp only: table_of_Cons) blast
  ultimately show ?thesis by (rule follow) (simp add: s')
next
  case False
  show ?thesis
    using vmm_invD(5) [OF inv]
  proof (cases rule: pmm_alloc_page_cases)
    case none
    then show ?thesis using d False by (simp add: vmm_descend_def Let_def present_def)
  next
    case (page f fr)
    have fm: "f AND PTE_ADDR_MASK = f" using vmm_invD(4) [OF inv page(2)] .
    have np: "f \<noteq> PMM_NO_PAGE" using pmm.frees_managed pmm.no_frame_managed page(2) vmm_invD(5) [OF inv] by blast
    define e where "e = f OR (PTE_PRESENT OR PTE_WRITABLE OR (flags AND PTE_USER))"
    have e: "present e" "\<not> huge e" "e AND PTE_ADDR_MASK = f" "user_bit e \<longleftrightarrow> user_bit flags"
      unfolding e_def by (rule table_entry [OF fm])+
    obtain w where w: "phys_to_ptr s f = Some w" and s': "s' = attach t i e w fr s"
      and u: "phys_to_ptr s (mem s' (cell t i) AND PTE_ADDR_MASK) = Some u"
      using d False np page(1) unfolding vmm_descend_def
      by (auto simp: Let_def present_def attach_def e_def phys_to_ptr_def)
    have "w = f + h" using w inv(2) by (simp add: phys_to_ptr_def cadd_Some)
    then have at: "attachable p t i e w h s"
      using inv p False e w page(2) by (simp add: attachable_def)
    have "mem s' (cell t i) = e" using attach_mem [OF at, of p t i fr] p s' by simp
    then have "u = w" using u w e(3) by simp
    then show ?thesis
      using fresh [of e fr] at s' page e(4) \<open>w = f + h\<close> by simp
  qed
qed

lemma vmm_descend_effect:
  assumes inv: "vmm_inv s" "hhdm s = Some h" and p: "path_ok (i # p)" "table_of s p = Some t"
    and d: "vmm_descend t i flags s = Some (u, s')"
  shows "vmm_inv s' \<and> hhdm s' = Some h \<and> pml4 s' = pml4 s"
    and "table_of s' (i # p) = Some u"
    and "path_ok q \<Longrightarrow> table_of s q = Some w \<Longrightarrow> table_of s' q = Some w"
    and "vmm_virt_to_phys va s' = vmm_virt_to_phys va s"
    and "user_bit flags \<Longrightarrow> user_bit (mem s' (cell t i))"
    and "path_ok q \<Longrightarrow> table_of s q = Some w \<Longrightarrow> j < 512 \<Longrightarrow> present (mem s (cell w j)) \<Longrightarrow>
      user_bit (mem s (cell w j)) \<Longrightarrow> user_bit (mem s' (cell w j))"
proof -
  have "(vmm_inv s' \<and> hhdm s' = Some h \<and> pml4 s' = pml4 s) \<and> table_of s' (i # p) = Some u \<and>
    (path_ok q \<longrightarrow> table_of s q = Some w \<longrightarrow> table_of s' q = Some w) \<and>
    vmm_virt_to_phys va s' = vmm_virt_to_phys va s \<and> (user_bit flags \<longrightarrow> user_bit (mem s' (cell t i))) \<and>
    (path_ok q \<longrightarrow> table_of s q = Some w \<longrightarrow> j < 512 \<longrightarrow> present (mem s (cell w j)) \<longrightarrow>
      user_bit (mem s (cell w j)) \<longrightarrow> user_bit (mem s' (cell w j)))" for q w j va
    using inv p d
  proof (cases rule: vmm_descend_cases)
    case follow
    have "hhdm s' = Some h" "pml4 s' = pml4 s" using follow(1) inv(2) by (simp_all add: user_bits_set_def)
    then show ?thesis
      using follow inv(1) user_bits_inv [OF follow(1)] user_bits_same_entry(5) [OF follow(1)]
      by (simp add: user_bits_table_of [OF follow(1)] user_bits_xlate [OF follow(1)] virt_to_phys_xlate
          del: table_of.simps(2))
  next
    case (fresh e fr)
    have "table_of s (i # p) = None" "\<not> present (mem s (cell t i))"
      using fresh(1) by (simp_all add: attachable_def)
    moreover have "mem s' (cell t i) = e"
      using attach_mem [OF fresh(1), of p t i fr] p fresh(2) by simp
    ultimately show ?thesis
      using fresh(2,5) inv p attach_inv [OF fresh(1,3,4)] attach_table_of [OF fresh(1)]
        attach_xlate [OF fresh(1), of "[]" "pml4 s" 3 fr va] attach_mem [OF fresh(1), of q w j fr]
      by (auto simp add: virt_to_phys_xlate simp del: table_of.simps(2))
  qed
  then show "vmm_inv s' \<and> hhdm s' = Some h \<and> pml4 s' = pml4 s" "table_of s' (i # p) = Some u"
    "path_ok q \<Longrightarrow> table_of s q = Some w \<Longrightarrow> table_of s' q = Some w"
    "vmm_virt_to_phys va s' = vmm_virt_to_phys va s"
    "user_bit flags \<Longrightarrow> user_bit (mem s' (cell t i))"
    "path_ok q \<Longrightarrow> table_of s q = Some w \<Longrightarrow> j < 512 \<Longrightarrow> present (mem s (cell w j)) \<Longrightarrow>
      user_bit (mem s (cell w j)) \<Longrightarrow> user_bit (mem s' (cell w j))"
    by blast+
qed

section \<open>Writing a leaf entry\<close>

text \<open>The path to the page table that holds the leaf entry of a virtual address.\<close>

definition vpath :: "u64 \<Rightarrow> nat list" where
  "vpath va = [vindex 1 va, vindex 2 va, vindex 3 va]"

definition same_page :: "u64 \<Rightarrow> u64 \<Rightarrow> bool" where
  "same_page va vb \<longleftrightarrow> vindex 0 va = vindex 0 vb \<and> vpath va = vpath vb"

definition set_leaf :: "u64 \<Rightarrow> u64 \<Rightarrow> u64 \<Rightarrow> mm \<Rightarrow> mm" where
  "set_leaf t va e s = s\<lparr>mem := (mem s)(cell t (vindex 0 va) := e)\<rparr>"

lemma set_leaf_simps [simp]:
  "hhdm (set_leaf t va e s) = hhdm s" "pml4 (set_leaf t va e s) = pml4 s" "frames (set_leaf t va e s) = frames s"
  "phys_to_ptr (set_leaf t va e s) = phys_to_ptr s"
  by (simp_all add: set_leaf_def phys_to_ptr_def fun_eq_iff)

lemma path_ok_vpath [simp]: "path_ok (vpath va)" "length (vpath va) = 3"
  by (simp_all add: vpath_def)

lemma set_leaf_mem:
  assumes "vmm_inv s" "table_of s (vpath va) = Some t" "path_ok q" "table_of s q = Some w" "j < 512"
  shows "mem (set_leaf t va e s) (cell w j) = (if q = vpath va \<and> j = vindex 0 va then e else mem s (cell w j))"
proof -
  obtain h where h: "hhdm s = Some h" using assms(1) by (auto simp: vmm_inv_def)
  have "cell w j = cell t (vindex 0 va) \<longleftrightarrow> w = t \<and> j = vindex 0 va"
    by (rule cell_eq_iff [OF vmm_invD(1) [OF assms(1) h assms(3,4)]
          vmm_invD(1) [OF assms(1) h path_ok_vpath(1) assms(2)] assms(5) vindex_less])
  also have "\<dots> \<longleftrightarrow> q = vpath va \<and> j = vindex 0 va"
    using vmm_invD(3) [OF assms(1) h, of q "vpath va" w] assms by auto
  finally show ?thesis by (simp add: set_leaf_def)
qed

lemma set_leaf_table_of:
  assumes "vmm_inv s" "table_of s (vpath va) = Some t"
  shows "path_ok q \<Longrightarrow> table_of (set_leaf t va e s) q = table_of s q"
proof (induction q)
  case (Cons j q)
  then have "mem (set_leaf t va e s) (cell w j) = mem s (cell w j)" if "table_of s q = Some w" for w
    using set_leaf_mem [OF assms _ that] by (auto simp: vpath_def)
  then show ?case using Cons by (simp add: Let_def split: option.split)
qed simp

lemma set_leaf_inv:
  assumes "vmm_inv s" "table_of s (vpath va) = Some t"
  shows "vmm_inv (set_leaf t va e s)"
  using assms(1) set_leaf_table_of [OF assms, of _ e] unfolding vmm_inv_def set_leaf_simps by (metis (no_types))

lemma set_leaf_xlate:
  assumes "vmm_inv s" "table_of s (vpath va) = Some t" "\<not> same_page va vb"
  shows "l \<le> 3 \<Longrightarrow> table_of s (drop l (vpath vb)) = Some w \<Longrightarrow>
    xlate (set_leaf t va e s) vb l w = xlate s vb l w"
proof (induction l arbitrary: w)
  case 0
  then have "mem (set_leaf t va e s) (cell w (vindex 0 vb)) = mem s (cell w (vindex 0 vb))"
    using set_leaf_mem [OF assms(1,2) _ _ vindex_less, of "vpath vb" w e 0 vb] assms(3)
    by (auto simp: same_page_def)
  then show ?case by simp
next
  case (Suc l)
  let ?q = "drop (Suc l) (vpath vb)" and ?j = "vindex (Suc l) vb"
  have d: "drop l (vpath vb) = ?j # ?q"
    using Suc.prems(1) by (auto simp: vpath_def numeral_3_eq_3 numeral_2_eq_2 le_Suc_eq)
  have q: "path_ok ?q" "?q \<noteq> vpath va"
    using Suc.prems(1) set_drop_subset [of "Suc l" "vpath vb"] path_ok_vpath [of vb]
    by (auto simp: path_ok_def dest: arg_cong [where f = length])
  have m: "mem (set_leaf t va e s) (cell w ?j) = mem s (cell w ?j)"
    using set_leaf_mem [OF assms(1,2) q(1) Suc.prems(2) vindex_less] q(2) by simp
  have "xlate (set_leaf t va e s) vb l w' = xlate s vb l w'"
    if "present (mem s (cell w ?j))" "\<not> huge (mem s (cell w ?j))"
      "phys_to_ptr s (mem s (cell w ?j) AND PTE_ADDR_MASK) = Some w'" for w'
    using that Suc.prems by (intro Suc.IH) (auto simp: d table_of_Cons)
  then show ?case by (simp add: m Let_def split: Option.bind_split)
qed

lemma xlate_through:
  assumes "table_of s (vpath va) = Some t"
  shows "xlate s va 3 (pml4 s) = xlate s va 0 t"
  using assms unfolding vpath_def table_of_Cons
  by (auto simp: xlate_level Let_def simp del: xlate.simps(1))

lemma vpath_same: "same_page va vb \<Longrightarrow> vpath vb = vpath va \<and> vindex 0 vb = vindex 0 va"
  by (simp add: same_page_def)

lemma set_leaf_virt_to_phys:
  assumes "vmm_inv s" "table_of s (vpath va) = Some t"
  shows "vmm_virt_to_phys vb (set_leaf t va e s) =
    (if same_page va vb then Some (if present e then (e AND PTE_ADDR_MASK) OR (vb AND 0xFFF) else VMM_NO_PHYS)
     else vmm_virt_to_phys vb s)"
proof (cases "same_page va vb")
  case True
  have "table_of (set_leaf t va e s) (vpath vb) = Some t"
    using set_leaf_table_of [OF assms, of "vpath va"] assms(2) vpath_same [OF True] by simp
  from xlate_through [OF this] show ?thesis
    using assms(1) True vpath_same [OF True]
    by (simp add: virt_to_phys_xlate vmm_inv_def set_leaf_def)
next
  case False
  then show ?thesis
    using assms set_leaf_xlate [OF assms False, of 3] by (simp add: virt_to_phys_xlate vpath_def)
qed

section \<open>Mapping and unmapping\<close>

text \<open>The entry of level \<open>l\<close> on the walk of a virtual address, when the walk gets that far.\<close>

definition pte :: "nat \<Rightarrow> u64 \<Rightarrow> mm \<Rightarrow> u64 option" where
  "pte l va s = map_option (\<lambda>t. mem s (cell t (vindex l va))) (table_of s (drop l (vpath va)))"

lemma vpath_drop [simp]:
  "drop 3 (vpath va) = []" "drop 2 (vpath va) = [vindex 3 va]"
  "drop (Suc 0) (vpath va) = [vindex 2 va, vindex 3 va]" "drop 1 (vpath va) = [vindex 2 va, vindex 3 va]"
  by (simp_all add: vpath_def)

text \<open>The state before the leaf is written: three descents.\<close>

lemma vmm_map_descents:
  assumes inv: "vmm_inv s" "hhdm s = Some h" and m: "vmm_map_page_flags va physical flags s = Some s'"
  obtains s3 pt where "vmm_inv s3" "hhdm s3 = Some h" "table_of s3 (vpath va) = Some pt"
    "s' = set_leaf pt va ((physical AND PTE_ADDR_MASK) OR PTE_PRESENT OR flags) s3"
    "\<And>vb. vmm_virt_to_phys vb s3 = vmm_virt_to_phys vb s"
    "\<And>l. user_bit flags \<Longrightarrow> l \<in> {1, 2, 3} \<Longrightarrow> \<exists>e. pte l va s3 = Some e \<and> present e \<and> user_bit e"
proof -
  obtain pdpt s1 pd s2 pt s3 where
    d: "vmm_descend (pml4 s) (vindex 3 va) flags s = Some (pdpt, s1)"
    "vmm_descend pdpt (vindex 2 va) flags s1 = Some (pd, s2)"
    "vmm_descend pd (vindex 1 va) flags s2 = Some (pt, s3)"
    and s': "s' = set_leaf pt va ((physical AND PTE_ADDR_MASK) OR PTE_PRESENT OR flags) s3"
    using m by (auto simp: vmm_map_page_flags_def set_leaf_def split: if_splits)
  have p: "path_ok [vindex 3 va]" "path_ok [vindex 2 va, vindex 3 va]" "path_ok (vpath va)"
    by (simp_all add: vpath_def)
  note e1 = vmm_descend_effect [OF inv p(1) table_of.simps(1) d(1)]
  note i1 = e1(1) [THEN conjunct1] e1(1) [THEN conjunct2, THEN conjunct1]
  note e2 = vmm_descend_effect [OF i1 p(2) e1(2) d(2)]
  note i2 = e2(1) [THEN conjunct1] e2(1) [THEN conjunct2, THEN conjunct1]
  note e3 = vmm_descend_effect [OF i2 p(3) [unfolded vpath_def] e2(2) d(3)]
  have t1: "table_of s2 [] = Some (pml4 s)" "table_of s3 [] = Some (pml4 s)"
    using e1(1) e2(1) e3(1) by simp_all
  have t2: "table_of s2 [vindex 3 va] = Some pdpt" "table_of s3 [vindex 3 va] = Some pdpt"
    using e2(3) [OF p(1) e1(2)] e3(3) [OF p(1)] by blast+
  have t3: "table_of s3 [vindex 2 va, vindex 3 va] = Some pd" using e3(3) [OF p(2) e2(2)] .
  have pr: "present (mem s1 (cell (pml4 s) (vindex 3 va)))" "present (mem s2 (cell (pml4 s) (vindex 3 va)))"
    "present (mem s3 (cell (pml4 s) (vindex 3 va)))" "present (mem s2 (cell pdpt (vindex 2 va)))"
    "present (mem s3 (cell pdpt (vindex 2 va)))" "present (mem s3 (cell pd (vindex 1 va)))"
    using e1(1,2) t1 t2 t3 e2(2) e3(2) unfolding table_of_Cons by auto
  have "\<exists>e. pte l va s3 = Some e \<and> present e \<and> user_bit e" if u: "user_bit flags" and l: "l \<in> {1, 2, 3}" for l
  proof -
    have "user_bit (mem s3 (cell (pml4 s) (vindex 3 va)))"
      using e3(6) [OF path_ok_Nil t1(1) vindex_less pr(2)] e2(6) [OF path_ok_Nil _ vindex_less pr(1)] e1(1) e1(5) [OF u]
      by simp
    moreover have "user_bit (mem s3 (cell pdpt (vindex 2 va)))"
      using e3(6) [OF p(1) t2(1) vindex_less pr(4)] e2(5) [OF u] by simp
    moreover note e3(5) [OF u]
    ultimately show ?thesis
      using l t1(2) t2(2) t3 pr by (auto simp: pte_def simp del: table_of.simps)
  qed
  then show ?thesis
    using that [of s3 pt] e1(4) e2(4) e3(1,2,4) s' by (auto simp: vpath_def simp del: table_of.simps)
qed

text \<open>
  A walk is clear when every present entry on it leads to a table: no huge page is in the way and the
  table is inside the direct map.
\<close>

definition walk_clear :: "u64 \<Rightarrow> mm \<Rightarrow> bool" where
  "walk_clear va s \<longleftrightarrow> (\<forall>l\<in>{0, 1, 2}. \<forall>e. pte (Suc l) va s = Some e \<longrightarrow> present e \<longrightarrow>
     table_of s (drop l (vpath va)) \<noteq> None)"

lemma walk_clearD:
  assumes "walk_clear va s" "l \<in> {0, 1, 2}" "table_of s (drop (Suc l) (vpath va)) = Some t"
    "present (mem s (cell t (vindex (Suc l) va)))"
  shows "table_of s (drop l (vpath va)) \<noteq> None"
  using assms(1) [unfolded walk_clear_def, THEN bspec, OF assms(2), THEN spec, THEN mp, THEN mp, OF _ assms(4)]
    assms(3) by (simp add: pte_def)

definition frames_mapped :: "mm \<Rightarrow> bool" where
  "frames_mapped s \<longleftrightarrow> (\<forall>a\<in>free_frames (frames s). phys_to_ptr s a \<noteq> None)"

lemma vmm_descend_progress:
  assumes inv: "vmm_inv s" "hhdm s = Some h" and p: "path_ok (i # p)" "table_of s p = Some t"
    and clear: "present (mem s (cell t i)) \<Longrightarrow> table_of s (i # p) \<noteq> None"
    and fr: "free_frames (frames s) \<noteq> {}" "frames_mapped s"
  shows "\<exists>u s'. vmm_descend t i flags s = Some (u, s')"
proof (cases "present (mem s (cell t i))")
  case True
  then obtain u where "\<not> huge (mem s (cell t i))" "phys_to_ptr s (mem s (cell t i) AND PTE_ADDR_MASK) = Some u"
    using clear p(2) table_of_Cons [of s i p] by (cases "table_of s (i # p)") auto
  then show ?thesis
    using True by (auto simp: vmm_descend_def Let_def present_def [symmetric] huge_def [symmetric] phys_to_ptr_def)
next
  case False
  have "pmm_wf (frames s)" using vmm_invD(5) [OF inv] .
  then show ?thesis
  proof (cases rule: pmm_alloc_page_cases)
    case none
    then show ?thesis using fr(1) by simp
  next
    case (page f fr')
    obtain w where w: "phys_to_ptr s f = Some w" using fr(2) page(2) by (auto simp: frames_mapped_def)
    have fm: "f AND PTE_ADDR_MASK = f" using vmm_invD(4) [OF inv page(2)] .
    define e where "e = f OR (PTE_PRESENT OR PTE_WRITABLE OR (flags AND PTE_USER))"
    have e: "present e" "\<not> huge e" "e AND PTE_ADDR_MASK = f"
      unfolding e_def by (rule table_entry [OF fm])+
    have np: "f \<noteq> PMM_NO_PAGE" using pmm.frees_managed pmm.no_frame_managed page(2) vmm_invD(5) [OF inv] by blast
    have "w = f + h" using w inv(2) by (simp add: phys_to_ptr_def cadd_Some)
    then have at: "attachable p t i e w h s"
      using inv p False e w page(2) by (simp add: attachable_def)
    have "mem (attach t i e w fr' s) (cell t i) = e" using attach_mem [OF at, of p t i fr'] p by simp
    then have "vmm_descend t i flags s = Some (w, attach t i e w fr' s)"
      using False np page(1) w e(3) inv(2) unfolding vmm_descend_def
      by (simp add: Let_def present_def attach_def e_def phys_to_ptr_def)
    then show ?thesis by blast
  qed
qed

lemma vmm_descend_keeps_clear:
  assumes inv: "vmm_inv s" "hhdm s = Some h" and p: "path_ok (i # p)" "table_of s p = Some t"
    and d: "vmm_descend t i flags s = Some (u, s')" and clear: "walk_clear va s" "frames_mapped s"
  shows "walk_clear va s'" "frames_mapped s'"
    "card (free_frames (frames s)) \<le> Suc (card (free_frames (frames s')))"
proof -
  have keep: "path_ok q \<Longrightarrow> table_of s q = Some w \<Longrightarrow> table_of s' q = Some w" for q w
    by (rule vmm_descend_effect(3) [OF inv p d])
  have old: "table_of s' (j # q) \<noteq> None \<or> (table_of s q = Some w \<and> present (mem s (cell w j)))"
    if "path_ok (j # q)" "table_of s' q = Some w" "present (mem s' (cell w j))" for j q w
    using inv p d
  proof (cases rule: vmm_descend_cases)
    case follow
    then show ?thesis
      using that user_bits_table_of [OF follow(1)] user_bits_same_entry [OF follow(1)] by (simp del: table_of.simps)
  next
    case (fresh e fr)
    have q: "path_ok q" "j < 512" using that by simp_all
    show ?thesis
      using that fresh(2) attach_table_of [OF fresh(1) q(1), of fr] attach_table_of [OF fresh(1) that(1), of fr]
        attach_mem [OF fresh(1) q(1) _ q(2), of w fr]
      by (auto simp del: table_of.simps split: if_splits)
  qed
  have "table_of s' (drop l (vpath va)) \<noteq> None"
    if l: "l \<in> {0, 1, 2}" and e: "pte (Suc l) va s' = Some e" "present e" for l e
  proof -
    have dr: "drop l (vpath va) = vindex (Suc l) va # drop (Suc l) (vpath va)"
      using l by (auto simp: vpath_def numeral_2_eq_2 numeral_3_eq_3)
    obtain w where w: "table_of s' (drop (Suc l) (vpath va)) = Some w" "e = mem s' (cell w (vindex (Suc l) va))"
      using e(1) by (auto simp: pte_def)
    have ok: "path_ok (drop l (vpath va))" using l by (auto simp: vpath_def numeral_2_eq_2)
    have "table_of s (drop l (vpath va)) \<noteq> None"
      if "table_of s (drop (Suc l) (vpath va)) = Some w" "present (mem s (cell w (vindex (Suc l) va)))"
      by (rule walk_clearD [OF clear(1) l that])
    then show ?thesis
      using old [OF ok [unfolded dr] w(1)] w(2) e(2) keep [OF ok] by (auto simp: dr simp del: table_of.simps)
  qed
  then show "walk_clear va s'" by (simp add: walk_clear_def del: table_of.simps)
  have "hhdm s' = hhdm s" using vmm_descend_effect(1) [OF inv p d] inv(2) by simp
  from phys_to_ptr_cong [OF this] have ptr: "phys_to_ptr s' = phys_to_ptr s" .
  show "frames_mapped s'" "card (free_frames (frames s)) \<le> Suc (card (free_frames (frames s')))"
    by (rule vmm_descend_cases [OF inv p d];
        use clear(2) ptr in \<open>auto simp: frames_mapped_def user_bits_set_def finite_free_frames card_Diff_singleton_if\<close>)+
qed

lemma vmm_map_progress:
  assumes inv: "vmm_inv s" "hhdm s = Some h" and al: "va AND 0xFFF = 0" "physical AND 0xFFF = 0"
    and clear: "walk_clear va s" "frames_mapped s" and fr: "3 \<le> card (free_frames (frames s))"
  shows "\<exists>s'. vmm_map_page_flags va physical flags s = Some s'"
proof -
  have p: "path_ok [vindex 3 va]" "path_ok [vindex 2 va, vindex 3 va]" "path_ok (vpath va)"
    by (simp_all add: vpath_def)
  have ne: "free_frames f \<noteq> {}" if "0 < card (free_frames f)" for f using that by auto
  have step: "table_of s (drop l (vpath va)) \<noteq> None"
    if "walk_clear va s" "table_of s (drop (Suc l) (vpath va)) = Some t"
      "present (mem s (cell t (vindex (Suc l) va)))" "l \<in> {0, 1, 2}" for l t s
    using walk_clearD [OF that(1,4,2,3)] .
  have "\<exists>u s'. vmm_descend (pml4 s) (vindex 3 va) flags s = Some (u, s')"
    using step [OF clear(1), of 2 "pml4 s"] clear fr ne
    by (intro vmm_descend_progress [OF inv p(1)]) (auto simp del: table_of.simps(2))
  then obtain pdpt s1 where d1: "vmm_descend (pml4 s) (vindex 3 va) flags s = Some (pdpt, s1)" by blast
  note e1 = vmm_descend_effect [OF inv p(1) table_of.simps(1) d1]
  note c1 = vmm_descend_keeps_clear [OF inv p(1) table_of.simps(1) d1 clear]
  note i1 = e1(1) [THEN conjunct1] e1(1) [THEN conjunct2, THEN conjunct1]
  have "\<exists>u s'. vmm_descend pdpt (vindex 2 va) flags s1 = Some (u, s')"
    using step [OF c1(1), of 1 pdpt] e1(2) c1 fr ne
    by (intro vmm_descend_progress [OF i1 p(2)]) (auto simp del: table_of.simps simp: numeral_2_eq_2 [symmetric])
  then obtain pd s2 where d2: "vmm_descend pdpt (vindex 2 va) flags s1 = Some (pd, s2)" by blast
  note e2 = vmm_descend_effect [OF i1 p(2) e1(2) d2]
  note c2 = vmm_descend_keeps_clear [OF i1 p(2) e1(2) d2 c1(1,2)]
  note i2 = e2(1) [THEN conjunct1] e2(1) [THEN conjunct2, THEN conjunct1]
  have "\<exists>u s'. vmm_descend pd (vindex 1 va) flags s2 = Some (u, s')"
    using step [OF c2(1), of 0 pd] e2(2) c1(3) c2 fr ne p(3)
    by (intro vmm_descend_progress [OF i2 p(3) [unfolded vpath_def]])
      (auto simp del: table_of.simps simp: vpath_def)
  then obtain pt s3 where d3: "vmm_descend pd (vindex 1 va) flags s2 = Some (pt, s3)" by blast
  show ?thesis
    using d1 d2 d3 al vmm_invD(6) [OF inv] by (simp add: vmm_map_page_flags_def PAGE_SIZE_def)
qed

text \<open>The unmapping walk, level by level.\<close>

primrec unmap_from :: "mm \<Rightarrow> u64 \<Rightarrow> nat \<Rightarrow> u64 \<Rightarrow> mm option" where
  "unmap_from s va 0 t =
     Some (if present (mem s (cell t (vindex 0 va))) then set_leaf t va 0 s else s)"
| "unmap_from s va (Suc l) t = (let e = mem s (cell t (vindex (Suc l) va)) in
     if \<not> present e then Some s
     else if huge e then None
     else Option.bind (phys_to_ptr s (e AND PTE_ADDR_MASK)) (unmap_from s va l))"

lemma vmm_unmap_page_from:
  "vmm_unmap_page va s = (if pml4 s = 0 then None else unmap_from s va 3 (pml4 s))"
proof -
  have "unmap_from s va 3 = unmap_from s va (Suc (Suc (Suc 0)))" by (simp only: numeral_3_eq_3)
  then show ?thesis
    unfolding vmm_unmap_page_def Let_def
    by (simp add: present_def huge_def Let_def set_leaf_def numeral_3_eq_3 numeral_2_eq_2 split: Option.bind_split)
qed

lemma same_page_vindex: "same_page va vb \<Longrightarrow> l \<le> 3 \<Longrightarrow> vindex l vb = vindex l va"
  by (auto simp: same_page_def vpath_def numeral_3_eq_3 numeral_2_eq_2 le_Suc_eq)

lemma vpath_drop_Suc: "l \<le> 2 \<Longrightarrow> drop l (vpath va) = vindex (Suc l) va # drop (Suc l) (vpath va)"
  by (auto simp: vpath_def numeral_2_eq_2 numeral_3_eq_3 le_Suc_eq)

lemma unmap_from_cases:
  "unmap_from s va l t = Some s' \<Longrightarrow> l \<le> 3 \<Longrightarrow> table_of s (drop l (vpath va)) = Some t \<Longrightarrow>
   (s' = s \<and> (\<forall>vb. same_page va vb \<longrightarrow> xlate s vb l t = Some VMM_NO_PHYS)) \<or>
   (\<exists>pt. table_of s (vpath va) = Some pt \<and> s' = set_leaf pt va 0 s)"
proof (induction l arbitrary: t)
  case 0
  then show ?case by (auto simp: Let_def same_page_vindex)
next
  case (Suc l)
  let ?e = "mem s (cell t (vindex (Suc l) va))"
  have ix: "vindex (Suc l) vb = vindex (Suc l) va" if "same_page va vb" for vb
    using same_page_vindex [OF that Suc.prems(2)] .
  show ?case
  proof (cases "present ?e")
    case False
    then show ?thesis using Suc.prems(1) by (auto simp: Let_def ix)
  next
    case True
    then obtain u where u: "\<not> huge ?e" "phys_to_ptr s (?e AND PTE_ADDR_MASK) = Some u" "unmap_from s va l u = Some s'"
      using Suc.prems(1) by (auto simp: Let_def split: if_splits)
    have "table_of s (drop l (vpath va)) = Some u"
      using Suc.prems(2,3) True u by (simp add: vpath_drop_Suc)
    from Suc.IH [OF u(3) _ this] Suc.prems(2) show ?thesis
      using True u by (auto simp: Let_def ix)
  qed
qed

lemma vmm_map_page_flags_effect:
  assumes "vmm_inv s" and "flags AND PTE_ADDR_MASK = 0"
    and "vmm_map_page_flags va physical flags s = Some s'"
  shows "vmm_inv s' \<and>
    (\<forall>vb. vmm_virt_to_phys vb s' =
       (if same_page va vb then Some ((physical AND PTE_ADDR_MASK) OR (vb AND 0xFFF)) else vmm_virt_to_phys vb s))"
proof -
  obtain h where h: "hhdm s = Some h" using assms(1) by (auto simp: vmm_inv_def)
  let ?e = "(physical AND PTE_ADDR_MASK) OR PTE_PRESENT OR flags"
  from assms(1) h assms(3) obtain s3 pt where s3: "vmm_inv s3" "table_of s3 (vpath va) = Some pt"
    "s' = set_leaf pt va ?e s3" "\<And>vb. vmm_virt_to_phys vb s3 = vmm_virt_to_phys vb s"
    by (rule vmm_map_descents) blast
  show ?thesis
    using set_leaf_inv [OF s3(1,2)] set_leaf_virt_to_phys [OF s3(1,2)] leaf_entry [OF assms(2)] s3(3,4)
    by simp
qed

text \<open>A mapping below an empty PML4 entry costs exactly three frames.\<close>

lemma vmm_descend_fresh:
  assumes inv: "vmm_inv s" "hhdm s = Some h" and p: "path_ok (i # p)" "table_of s p = Some t"
    and d: "vmm_descend t i flags s = Some (u, s')" and np: "\<not> present (mem s (cell t i))"
  shows "Suc (card (free_frames (frames s'))) = card (free_frames (frames s))" "j < 512 \<Longrightarrow> \<not> present (mem s' (cell u j))"
proof -
  from inv p d obtain e fr where f: "attachable p t i e u h s" "s' = attach t i e u fr s"
    "free_frames fr = free_frames (frames s) - {u - h}"
    by (rule vmm_descend_cases) (use np p(2) in \<open>auto simp: table_of_Cons simp del: table_of.simps(2)\<close>)
  have "u - h \<in> free_frames (frames s)" using f(1) by (simp add: attachable_def)
  then show "Suc (card (free_frames (frames s'))) = card (free_frames (frames s))"
    using f(2,3) card_Suc_Diff1 [OF finite_free_frames] by simp
  show "j < 512 \<Longrightarrow> \<not> present (mem s' (cell u j))" by (simp add: f(2))
qed

lemma vmm_map_fresh_walk:
  assumes inv: "vmm_inv s" and np: "\<not> present (mem s (cell (pml4 s) (vindex 3 va)))"
    and m: "vmm_map_page_flags va physical flags s = Some s'"
  shows "card (free_frames (frames s')) + 3 = card (free_frames (frames s))"
proof -
  obtain h where h: "hhdm s = Some h" using inv by (auto simp: vmm_inv_def)
  obtain pdpt s1 pd s2 pt s3 where
    d: "vmm_descend (pml4 s) (vindex 3 va) flags s = Some (pdpt, s1)"
    "vmm_descend pdpt (vindex 2 va) flags s1 = Some (pd, s2)"
    "vmm_descend pd (vindex 1 va) flags s2 = Some (pt, s3)" and s': "frames s' = frames s3"
    using m by (auto simp: vmm_map_page_flags_def split: if_splits)
  have p: "path_ok [vindex 3 va]" "path_ok [vindex 2 va, vindex 3 va]" "path_ok (vpath va)"
    by (simp_all add: vpath_def)
  note e1 = vmm_descend_effect [OF inv h p(1) table_of.simps(1) d(1)]
  note f1 = vmm_descend_fresh [OF inv h p(1) table_of.simps(1) d(1) np]
  note i1 = e1(1) [THEN conjunct1] e1(1) [THEN conjunct2, THEN conjunct1]
  note e2 = vmm_descend_effect [OF i1 p(2) e1(2) d(2)]
  note f2 = vmm_descend_fresh [OF i1 p(2) e1(2) d(2) f1(2) [OF vindex_less]]
  note i2 = e2(1) [THEN conjunct1] e2(1) [THEN conjunct2, THEN conjunct1]
  note f3 = vmm_descend_fresh [OF i2 p(3) [unfolded vpath_def] e2(2) d(3) f2(2) [OF vindex_less]]
  show ?thesis using f1(1) f2(1) f3(1) s' by simp
qed

text \<open>The allocator may hand out frames between two mappings.\<close>

lemma phys_to_ptr_frames [simp]: "phys_to_ptr (s\<lparr>frames := fr\<rparr>) = phys_to_ptr s"
  by (simp add: phys_to_ptr_def fun_eq_iff)

lemma table_of_frames [simp]: "table_of (s\<lparr>frames := fr\<rparr>) p = table_of s p"
  by (induction p) (simp_all add: Let_def split: option.split)

lemma xlate_frames [simp]: "xlate (s\<lparr>frames := fr\<rparr>) va l t = xlate s va l t"
  by (induction l arbitrary: t) (simp_all add: Let_def split: Option.bind_split)

lemma virt_to_phys_frames [simp]: "vmm_virt_to_phys va (s\<lparr>frames := fr\<rparr>) = vmm_virt_to_phys va s"
  by (simp add: virt_to_phys_xlate)

lemma vmm_inv_alloc:
  assumes "vmm_inv s" "pmm_alloc_page (frames s) = (f, fr)"
  shows "vmm_inv (s\<lparr>frames := fr\<rparr>)"
proof -
  have wf: "pmm_wf (frames s)" using assms(1) by (simp add: vmm_inv_def)
  then have "free_frames fr \<subseteq> free_frames (frames s) \<and> pmm_wf fr"
    by (cases rule: pmm_alloc_page_cases) (use assms(2) wf in auto)
  then show ?thesis using assms(1) unfolding vmm_inv_def table_of_frames by simp blast
qed

text \<open>Two addresses lie in the same page exactly when their 36-bit page numbers agree.\<close>

lemma vindex_take_bit: "vindex l va = unat (take_bit 9 (drop_bit (12 + 9 * l) va))"
  by (simp add: vindex_def take_bit_eq_mask mask_eq_exp_minus_1)

lemma take_bit_bits: "take_bit n x = take_bit n y \<longleftrightarrow> (\<forall>k<n. bit x k = bit y k)" for x y :: u64
proof
  assume "take_bit n x = take_bit n y"
  then have "bit (take_bit n x) k = bit (take_bit n y) k" for k by simp
  then show "\<forall>k<n. bit x k = bit y k" by (auto simp: bit_take_bit_iff)
next
  assume "\<forall>k<n. bit x k = bit y k"
  then show "take_bit n x = take_bit n y" by (intro bit_eqI) (auto simp: bit_take_bit_iff)
qed

lemma same_page_bits: "same_page va vb \<longleftrightarrow> (\<forall>n<36. bit va (12 + n) = bit vb (12 + n))"
proof -
  have "same_page va vb \<longleftrightarrow> (\<forall>l<4. vindex l va = vindex l vb)"
    by (auto simp: same_page_def vpath_def less_Suc_eq numeral_eq_Suc)
  also have "\<dots> \<longleftrightarrow> (\<forall>l<4. take_bit 9 (drop_bit (12 + 9 * l) va) = take_bit 9 (drop_bit (12 + 9 * l) vb))"
    unfolding vindex_take_bit by (metis word_eq_unatI)
  also have "\<dots> \<longleftrightarrow> (\<forall>l<4. \<forall>k<9. bit va (12 + 9 * l + k) = bit vb (12 + 9 * l + k))"
    by (simp only: take_bit_bits bit_drop_bit_eq o_def)
  also have "\<dots> \<longleftrightarrow> (\<forall>n<36. bit va (12 + n) = bit vb (12 + n))"
  proof (rule iffI; intro allI impI)
    fix n :: nat assume h: "\<forall>l<4. \<forall>k<9. bit va (12 + 9 * l + k) = bit vb (12 + 9 * l + k)" and n: "n < 36"
    have "n div 9 < 4" "n mod 9 < 9" using n by auto
    then have "bit va (12 + 9 * (n div 9) + n mod 9) = bit vb (12 + 9 * (n div 9) + n mod 9)" using h by blast
    then show "bit va (12 + n) = bit vb (12 + n)" by (simp add: add.assoc)
  next
    fix l k :: nat assume h: "\<forall>n<36. bit va (12 + n) = bit vb (12 + n)" and "l < 4" "k < 9"
    then have "9 * l + k < 36" by simp
    then show "bit va (12 + 9 * l + k) = bit vb (12 + 9 * l + k)" using h by (simp add: add.assoc)
  qed
  finally show ?thesis .
qed

lemma same_page_unat:
  "same_page va vb \<longleftrightarrow> unat va div 4096 mod 2 ^ 36 = unat vb div 4096 mod 2 ^ 36"
proof -
  have u: "unat (take_bit 36 (drop_bit 12 x)) = unat x div 4096 mod 2 ^ 36" for x :: u64
    by (simp add: take_bit_eq_mod drop_bit_eq_div unat_div unat_mod)
  have "same_page va vb \<longleftrightarrow> take_bit 36 (drop_bit 12 va) = take_bit 36 (drop_bit 12 vb)"
    by (simp only: same_page_bits take_bit_bits bit_drop_bit_eq o_def)
  also have "\<dots> \<longleftrightarrow> unat (take_bit 36 (drop_bit 12 va)) = unat (take_bit 36 (drop_bit 12 vb))"
    using word_eq_unatI by metis
  finally show ?thesis by (simp only: u)
qed

section \<open>A machine with an empty PML4\<close>

text \<open>Page 0 is the PML4, pages 1 to 4 are free: enough for one page and the three tables above it.\<close>

definition sample_mm :: mm where
  "sample_mm = \<lparr>frames = \<lparr>bitmap_ptr = 0xFFFF800000005000, bitmap = [0xFFFFFFFFFFFFFFE1], bitmap_entries = 1,
       alloc_hint = 0\<rparr>, mem = (\<lambda>_. 0), pml4 = 0xFFFF800000000000, hhdm = Some 0xFFFF800000000000\<rparr>"

lemma sample_table_of: "table_of sample_mm p = (if p = [] then Some 0xFFFF800000000000 else None)"
  by (induction p) (simp_all add: sample_mm_def)

lemma sample_page_free: "page_free (frames sample_mm) q \<longleftrightarrow> q \<in> {1, 2, 3, 4}"
proof -
  have "list_all (\<lambda>q. bit (0xFFFFFFFFFFFFFFE1 :: u64) q = (q \<notin> {1, 2, 3, 4})) [0..<64]"
    by code_simp
  then have "bit (0xFFFFFFFFFFFFFFE1 :: u64) q \<longleftrightarrow> q \<notin> {1, 2, 3, 4}" if "q < 64" for q
    using that by (simp only: list_all_iff atLeast_upt [symmetric] lessThan_iff)
  then show ?thesis
    by (auto simp: page_free_def bm_bit_def sample_mm_def)
qed

lemma sample_free_frames: "free_frames (frames sample_mm) = {0x1000, 0x2000, 0x3000, 0x4000}"
proof -
  have "a \<in> free_frames (frames sample_mm) \<longleftrightarrow> a = 0x1000 \<or> a = 0x2000 \<or> a = 0x3000 \<or> a = 0x4000" for a
    by (auto simp: free_frames_def sample_page_free intro!: aligned_eqI)
  then show ?thesis by blast
qed

lemma sample_ready:
  "vmm_inv sample_mm" "walk_clear va sample_mm" "frames_mapped sample_mm" "card (free_frames (frames sample_mm)) = 4"
proof -
  show "vmm_inv sample_mm"
    unfolding vmm_inv_def sample_free_frames sample_table_of
    by (simp add: pmm_wf_def sample_mm_def PTE_ADDR_MASK_def)
  show "walk_clear va sample_mm"
    by (auto simp: walk_clear_def pte_def sample_table_of) (simp_all add: sample_mm_def)
  show "frames_mapped sample_mm"
    unfolding frames_mapped_def sample_free_frames by (simp add: phys_to_ptr_def sample_mm_def cadd_def)
  show "card (free_frames (frames sample_mm)) = 4" by (simp add: sample_free_frames)
qed

lemma sample_map: "va AND 0xFFF = 0 \<Longrightarrow> physical AND 0xFFF = 0 \<Longrightarrow>
    \<exists>s'. vmm_map_page_flags va physical flags sample_mm = Some s'"
  using vmm_map_progress [OF sample_ready(1) _ _ _ sample_ready(2,3)] sample_ready(4) by (simp add: sample_mm_def)

section \<open>Properties\<close>

text \<open>
  C2: mapping a page installs exactly that translation.  Whenever \<^verbatim>\<open>vmm_map_page_flags\<close> returns, every address of
  the page translates to the frame plus the page offset, every other address of the machine translates as
  before, and the page-table invariant still holds.
\<close>

theorem vmm_map_page_translates:
  assumes "vmm_inv s" and "flags AND PTE_ADDR_MASK = 0"
    and "vmm_map_page_flags va physical flags s = Some s'"
  shows "vmm_inv s' \<and>
    (\<forall>vb. vmm_virt_to_phys vb s' =
       (if same_page va vb then Some ((physical AND PTE_ADDR_MASK) OR (vb AND 0xFFF)) else vmm_virt_to_phys vb s))"
  using assms by (rule vmm_map_page_flags_effect)

theorem vmm_map_page_translates_witness:
  "\<exists>s'. vmm_map_page_flags 0x400000 0x5000 3 sample_mm = Some s' \<and> vmm_virt_to_phys 0x400123 s' = Some 0x5123"
proof -
  obtain s' where m: "vmm_map_page_flags 0x400000 0x5000 3 sample_mm = Some s'"
    using sample_map [of "0x400000" "0x5000" 3] by auto
  have "same_page 0x400000 0x400123" by (simp add: same_page_def vpath_def vindex_def)
  then show ?thesis
    using vmm_map_page_translates [OF sample_ready(1) _ m] m by (simp add: PTE_ADDR_MASK_def)
qed

text \<open>
  C22: a page mapped for ring 3 is reachable from ring 3.  After a mapping with the user flag, every one of the
  four entries the processor reads on the way to the page is present and carries the user bit.
\<close>

theorem vmm_map_user_page_reachable:
  assumes "vmm_inv s" and "user_bit flags" and "vmm_map_page_flags va physical flags s = Some s'" and "l < 4"
  shows "\<exists>e. pte l va s' = Some e \<and> present e \<and> user_bit e"
proof -
  obtain h where h: "hhdm s = Some h" using assms(1) by (auto simp: vmm_inv_def)
  let ?e = "(physical AND PTE_ADDR_MASK) OR PTE_PRESENT OR flags"
  from assms(1) h assms(3) obtain s3 pt where s3: "vmm_inv s3" "table_of s3 (vpath va) = Some pt"
    "s' = set_leaf pt va ?e s3"
    "\<And>l. l \<in> {1, 2, 3} \<Longrightarrow> \<exists>e. pte l va s3 = Some e \<and> present e \<and> user_bit e"
    by (rule vmm_map_descents) (use assms(2) in blast)
  show ?thesis
  proof (cases "l = 0")
    case True
    then have "pte l va s' = Some ?e"
      using set_leaf_table_of [OF s3(1,2), of "vpath va" ?e] set_leaf_mem [OF s3(1,2) _ s3(2) vindex_less, of ?e 0 va]
        s3(2,3) by (simp add: pte_def)
    then show ?thesis using assms(2) by (simp add: leaf_user)
  next
    case False
    then have l: "l \<in> {1, 2, 3}" using assms(4) by auto
    have d: "path_ok (drop l (vpath va))" "drop l (vpath va) \<noteq> vpath va" using l by (auto simp: vpath_def)
    have "pte l va s' = pte l va s3"
      using set_leaf_table_of [OF s3(1,2) d(1), of ?e] set_leaf_mem [OF s3(1,2) d(1) _ vindex_less, of _ ?e l va] d(2) s3(3)
      by (cases "table_of s3 (drop l (vpath va))") (simp_all add: pte_def)
    then show ?thesis using s3(4) [OF l] by simp
  qed
qed

theorem vmm_map_user_page_reachable_witness:
  "\<exists>s'. vmm_map_page_flags 0x400000 0x5000 7 sample_mm = Some s' \<and>
     (\<exists>e. pte 3 0x400000 s' = Some e \<and> present e \<and> user_bit e)"
proof -
  obtain s' where m: "vmm_map_page_flags 0x400000 0x5000 7 sample_mm = Some s'"
    using sample_map [of "0x400000" "0x5000" 7] by auto
  then show ?thesis
    using vmm_map_user_page_reachable [OF sample_ready(1) _ m, of 3] by (simp add: user_bit_def PTE_USER_def)
qed

text \<open>
  Mapping succeeds when it should.  With three free frames inside the direct map and no huge page on
  the walk, \<^verbatim>\<open>vmm_map_user_page\<close> of aligned addresses returns instead of stopping the kernel, and the page then
  translates to the frame.
\<close>

lemma vmm_map_user_page_succeeds:
  assumes "vmm_inv s" and "va AND 0xFFF = 0" and "physical AND PTE_ADDR_MASK = physical"
    and "walk_clear va s" and "frames_mapped s" and "3 \<le> card (free_frames (frames s))"
  shows "\<exists>s'. vmm_map_user_page va physical s = Some s' \<and> vmm_inv s' \<and> vmm_virt_to_phys va s' = Some physical"
proof -
  obtain h where h: "hhdm s = Some h" using assms(1) by (auto simp: vmm_inv_def)
  let ?fl = "PTE_PRESENT OR PTE_WRITABLE OR PTE_USER"
  obtain s' where m: "vmm_map_page_flags va physical ?fl s = Some s'"
    using vmm_map_progress [OF assms(1) h assms(2) masked_frame_bits(4) [OF assms(3)] assms(4-6)] by blast
  from assms(1) h m obtain s3 pt where s3: "vmm_inv s3" "table_of s3 (vpath va) = Some pt"
    "s' = set_leaf pt va ((physical AND PTE_ADDR_MASK) OR PTE_PRESENT OR ?fl) s3"
    by (rule vmm_map_descents) blast
  have "?fl AND PTE_ADDR_MASK = 0" by (simp add: pte_defs)
  note e = leaf_entry [OF this, of physical]
  have "vmm_virt_to_phys va s' = Some physical"
    unfolding s3(3) set_leaf_virt_to_phys [OF s3(1,2)] e(2) if_P [OF e(1)]
    using assms(2,3) by (simp add: same_page_def)
  then show ?thesis
    using m set_leaf_inv [OF s3(1,2)] s3(3) by (simp add: vmm_map_user_page_def)
qed

text \<open>
  C25: unmapping removes exactly one page.  When \<^verbatim>\<open>vmm_unmap_page\<close> returns, no address of the page translates any
  more, all other translations are unchanged, no frame went back to the allocator and the invariant holds.
\<close>

theorem vmm_unmap_page_removes:
  assumes "vmm_inv s" and "vmm_unmap_page va s = Some s'"
  shows "vmm_inv s' \<and> frames s' = frames s \<and>
    (\<forall>vb. vmm_virt_to_phys vb s' = (if same_page va vb then Some VMM_NO_PHYS else vmm_virt_to_phys vb s))"
proof -
  obtain h where h: "hhdm s = Some h" using assms(1) by (auto simp: vmm_inv_def)
  have nz: "pml4 s \<noteq> 0" using vmm_invD(6) [OF assms(1) h] .
  have u: "unmap_from s va 3 (pml4 s) = Some s'" using assms(2) nz by (simp add: vmm_unmap_page_from)
  from unmap_from_cases [OF u] consider
      (gone) "s' = s" "\<And>vb. same_page va vb \<Longrightarrow> xlate s vb 3 (pml4 s) = Some VMM_NO_PHYS"
    | (leaf) pt where "table_of s (vpath va) = Some pt" "s' = set_leaf pt va 0 s"
    by auto
  then show ?thesis
  proof cases
    case gone
    with assms(1) nz show ?thesis by (simp add: virt_to_phys_xlate)
  next
    case leaf
    then show ?thesis
      using set_leaf_inv [OF assms(1) leaf(1)] set_leaf_virt_to_phys [OF assms(1) leaf(1)] by simp
  qed
qed

theorem vmm_unmap_page_removes_witness:
  "vmm_unmap_page 0x400000 sample_mm = Some sample_mm \<and> vmm_virt_to_phys 0x400FFF sample_mm = Some VMM_NO_PHYS"
proof -
  have u: "vmm_unmap_page 0x400000 sample_mm = Some sample_mm"
    by (simp add: vmm_unmap_page_def sample_mm_def)
  have p: "same_page 0x400000 0x400FFF" by (simp add: same_page_def vpath_def vindex_def)
  have "vmm_virt_to_phys 0x400FFF sample_mm = Some VMM_NO_PHYS"
    using vmm_unmap_page_removes [OF sample_ready(1) u, THEN conjunct2, THEN conjunct2, THEN spec, of "0x400FFF"]
    unfolding if_P [OF p] .
  then show ?thesis using u by blast
qed

end
