(* ===== verification/Heap.thy ===== *)
theory Heap
  imports Vmm
begin

text \<open>
  The kernel heap of \<^verbatim>\<open>src/mm.rs\<close>: a first-fit allocator over a singly linked list of block headers.  The
  headers live in an explicit store from addresses to \<open>HeapBlock\<close> records.  The loops follow pointers found in
  that store, so they are partial functions: \<open>None\<close> says that the kernel does not return, because it
  panicked or because the list has a cycle.  \<^verbatim>\<open>irq_save\<close> and \<^verbatim>\<open>irq_restore\<close> make each operation atomic and have no
  other counterpart.  The list is shown to implement a list of sizes with a first-fit search.
\<close>

section \<open>State\<close>

definition KHEAP_START :: u64 where "KHEAP_START = 0xFFFF900000000000"
definition HEAP_BLOCK_SIZE :: u64 where "HEAP_BLOCK_SIZE = 32"
definition HEAP_ALIGN :: u64 where "HEAP_ALIGN = 16"

record HeapBlock =
  blk_size :: u64
  blk_next :: u64
  blk_free :: u64
  blk_reserved :: u64

record heap =
  blocks :: "u64 \<Rightarrow> HeapBlock"
  heap_head :: u64

section \<open>Operations\<close>

text \<open>
  The loop of \<^verbatim>\<open>kheap_init\<close> over the pages after the first: it stops when the frames run out.  Its counters stay
  below 2048, so their arithmetic cannot overflow.
\<close>

fun kheap_grow :: "nat list \<Rightarrow> u64 \<Rightarrow> mm \<Rightarrow> (u64 \<times> mm) option" where
  "kheap_grow [] mapped s = Some (mapped, s)"
| "kheap_grow (i # is) mapped s =
     (let (page, fr) = pmm_alloc_page (frames s); s = s\<lparr>frames := fr\<rparr> in
      if page = PMM_NO_PAGE then Some (mapped, s)
      else do {
        s \<leftarrow> vmm_map_page (KHEAP_START + of_nat i * PAGE_SIZE) page s;
        kheap_grow is (mapped + 1) s
      })"

definition kheap_init :: "mm \<Rightarrow> heap \<Rightarrow> (mm \<times> heap) option" where
  "kheap_init s h =
     (let (page, fr) = pmm_alloc_page (frames s); s = s\<lparr>frames := fr\<rparr> in
      if page = PMM_NO_PAGE then None
      else do {
        s \<leftarrow> vmm_map_page KHEAP_START page s;
        (mapped, s) \<leftarrow> kheap_grow [1..<2048] 1 s;
        Some (s, h\<lparr>heap_head := KHEAP_START,
          blocks := (blocks h)(KHEAP_START :=
            \<lparr>blk_size = mapped * PAGE_SIZE - HEAP_BLOCK_SIZE, blk_next = 0, blk_free = 1, blk_reserved = 0\<rparr>)\<rparr>)
      })"

partial_function (option) kmalloc_loop ::
  "u64 \<Rightarrow> u64 \<Rightarrow> (u64 \<Rightarrow> HeapBlock) \<Rightarrow> (u64 \<times> (u64 \<Rightarrow> HeapBlock)) option" where
  "kmalloc_loop sz current bs =
     (if current = 0 then Some (0, bs)
      else let b = bs current in
        if blk_free b \<noteq> 0 \<and> sz \<le> blk_size b then do {
          limit \<leftarrow> cadd sz HEAP_BLOCK_SIZE;
          let bs' = (if limit < blk_size b then
                let split = current + HEAP_BLOCK_SIZE + sz in
                bs(split := \<lparr>blk_size = blk_size b - sz - HEAP_BLOCK_SIZE, blk_next = blk_next b,
                             blk_free = 1, blk_reserved = 0\<rparr>,
                   current := b\<lparr>blk_size := sz, blk_next := split\<rparr>)
              else bs);
          Some (current + HEAP_BLOCK_SIZE, bs'(current := (bs' current)\<lparr>blk_free := 0\<rparr>))
        }
        else kmalloc_loop sz (blk_next b) bs)"

definition kmalloc :: "u64 \<Rightarrow> heap \<Rightarrow> (u64 \<times> heap) option" where
  "kmalloc sz h =
     (if sz = 0 \<or> sz > - 1 - (HEAP_ALIGN - 1) then Some (0, h)
      else if heap_head h = 0 then None
      else let sz = (sz + (HEAP_ALIGN - 1)) AND NOT (HEAP_ALIGN - 1) in do {
        (result, bs) \<leftarrow> kmalloc_loop sz (heap_head h) (blocks h);
        Some (result, h\<lparr>blocks := bs\<rparr>)
      })"

partial_function (option) coalesce_loop ::
  "u64 \<Rightarrow> (u64 \<Rightarrow> HeapBlock) \<Rightarrow> (u64 \<Rightarrow> HeapBlock) option" where
  "coalesce_loop current bs =
     (if current = 0 then Some bs
      else let b = bs current; nxt = blk_next b in
        if nxt = 0 then Some bs
        else let n = bs nxt in
          if blk_free b \<noteq> 0 \<and> blk_free n \<noteq> 0 \<and> current + HEAP_BLOCK_SIZE + blk_size b = nxt then do {
            inc \<leftarrow> cadd HEAP_BLOCK_SIZE (blk_size n);
            total \<leftarrow> cadd (blk_size b) inc;
            coalesce_loop current (bs(current := b\<lparr>blk_size := total, blk_next := blk_next n\<rparr>))
          }
          else coalesce_loop nxt bs)"

definition coalesce :: "heap \<Rightarrow> heap option" where
  "coalesce h = do { bs \<leftarrow> coalesce_loop (heap_head h) (blocks h); Some (h\<lparr>blocks := bs\<rparr>) }"

definition kfree :: "u64 \<Rightarrow> heap \<Rightarrow> heap option" where
  "kfree ptr h =
     (if ptr = 0 then Some h
      else do {
        block \<leftarrow> csub ptr HEAP_BLOCK_SIZE;
        if blk_free (blocks h block) \<noteq> 0 then Some h
        else coalesce (h\<lparr>blocks := (blocks h)(block := (blocks h block)\<lparr>blk_free := 1\<rparr>)\<rparr>)
      })"

section \<open>The abstract heap\<close>

text \<open>
  Since blocks tile the heap, a heap is a list of block sizes with a free flag.  Offsets are relative to the
  first header; a payload starts 32 bytes after its header.
\<close>

type_synonym ablock = "nat \<times> bool"

fun first_fit :: "nat \<Rightarrow> ablock list \<Rightarrow> (nat \<times> ablock list) option" where
  "first_fit n [] = None"
| "first_fit n ((m, f) # xs) =
     (if f \<and> n \<le> m then
        Some (32, if n + 32 < m then (n, False) # (m - n - 32, True) # xs else (m, False) # xs)
      else case first_fit n xs of
        None \<Rightarrow> None
      | Some (off, ys) \<Rightarrow> Some (32 + m + off, (m, f) # ys))"

fun merge :: "ablock list \<Rightarrow> ablock list" where
  "merge [] = []"
| "merge [x] = [x]"
| "merge ((m, f) # (k, g) # xs) =
     (if f \<and> g then merge ((m + (32 + k), True) # xs) else (m, f) # merge ((k, g) # xs))"

fun mark_free :: "nat \<Rightarrow> nat \<Rightarrow> ablock list \<Rightarrow> ablock list" where
  "mark_free off o1 [] = []"
| "mark_free off o1 ((m, f) # xs) =
     (if off = o1 + 32 then (m, True) # xs else (m, f) # mark_free off (o1 + 32 + m) xs)"

text \<open>The allocated payloads, as offset and length.\<close>

fun live :: "nat \<Rightarrow> ablock list \<Rightarrow> (nat \<times> nat) set" where
  "live o1 [] = {}"
| "live o1 ((m, f) # xs) = (if f then {} else {(o1 + 32, m)}) \<union> live (o1 + 32 + m) xs"

fun no_adjacent_free :: "ablock list \<Rightarrow> bool" where
  "no_adjacent_free ((m, f) # (k, g) # xs) = (\<not> (f \<and> g) \<and> no_adjacent_free ((k, g) # xs))"
| "no_adjacent_free _ = True"

lemma live_bounds: "(p, n) \<in> live o1 xs \<Longrightarrow> o1 + 32 \<le> p"
  by (induction o1 xs rule: live.induct) (auto split: if_splits)

lemma live_disjoint:
  "(p, n) \<in> live o1 xs \<Longrightarrow> (q, k) \<in> live o1 xs \<Longrightarrow> (p, n) = (q, k) \<or> p + n + 32 \<le> q \<or> q + k + 32 \<le> p"
proof (induction o1 xs rule: live.induct)
  case (2 o1 m f xs)
  then show ?case using live_bounds [of p n "o1 + 32 + m" xs] live_bounds [of q k "o1 + 32 + m" xs]
    by (auto split: if_splits)
qed simp

lemma live_merge [simp]: "live o1 (merge xs) = live o1 xs"
proof (induction xs arbitrary: o1 rule: merge.induct)
  case (3 m f k g xs)
  then show ?case by (auto simp: add.assoc)
qed auto

lemma merge_nonempty [simp]: "merge xs = [] \<longleftrightarrow> xs = []"
  by (induction xs rule: merge.induct) auto

lemma merge_head: "snd (hd (merge ((m, f) # xs))) = f"
  by (induction "(m, f) # xs" arbitrary: m f xs rule: merge.induct) auto

lemma no_adjacent_free_Cons:
  "no_adjacent_free (x # xs) \<longleftrightarrow> (xs \<noteq> [] \<longrightarrow> \<not> (snd x \<and> snd (hd xs))) \<and> no_adjacent_free xs"
  by (cases x; cases xs) auto

lemma no_adjacent_free_merge: "no_adjacent_free (merge xs)"
  by (induction xs rule: merge.induct) (auto simp: no_adjacent_free_Cons merge_head)

lemma merge_Cons: "\<not> (f \<and> snd (hd (merge zs))) \<Longrightarrow> merge ((m, f) # zs) = (m, f) # merge zs"
  by (cases zs) (auto simp: merge_head)

lemma merge_no_adjacent: "no_adjacent_free xs \<Longrightarrow> merge xs = xs"
  by (induction xs rule: merge.induct) auto

lemma live_mark_free:
  "(p, n) \<in> live o1 xs \<Longrightarrow> live o1 (mark_free p o1 xs) = live o1 xs - {(p, n)}"
proof (induction o1 xs rule: live.induct)
  case (2 o1 m f xs)
  have "(o1 + 32, j) \<notin> live (o1 + 32 + m) xs" for j
    using live_bounds [of "o1 + 32" j "o1 + 32 + m" xs] by auto
  with 2 show ?case by (auto split: if_splits)
qed simp

lemma mark_free_nonempty [simp]: "mark_free p o1 xs = [] \<longleftrightarrow> xs = []"
  by (cases xs) (auto split: if_splits)

text \<open>First fit finds a block exactly when one is large enough, and allocates one new payload.\<close>

lemma first_fit_None: "first_fit n xs = None \<longleftrightarrow> (\<forall>(m, f)\<in>set xs. \<not> (f \<and> n \<le> m))"
  by (induction n xs rule: first_fit.induct) (auto split: option.splits)

lemma first_fit_nonempty [simp]: "first_fit n xs \<noteq> Some (off, [])"
  by (cases xs) (auto split: option.splits if_splits)

lemma first_fit_live:
  "first_fit n xs = Some (off, ys) \<Longrightarrow> \<exists>m\<ge>n. live o1 ys = insert (o1 + off, m) (live o1 xs) \<and> (o1 + off, k) \<notin> live o1 xs"
proof (induction n xs arbitrary: off ys o1 rule: first_fit.induct)
  case (2 n m f xs)
  show ?case
  proof (cases "f \<and> n \<le> m")
    case True
    have tail: "o1 + 32 + n + 32 + (m - n - 32) = o1 + 32 + m" if "n + 32 < m" using that by simp
    have "off = 32" "ys = (if n + 32 < m then (n, False) # (m - n - 32, True) # xs else (m, False) # xs)"
      using 2(2) True by simp_all
    then have "live o1 ys = insert (o1 + off, if n + 32 < m then n else m) (live o1 ((m, f) # xs))"
      using True tail by (simp only: live.simps if_True if_False split: if_splits) auto
    then show ?thesis
      using True \<open>off = 32\<close> live_bounds [of "o1 + 32" k "o1 + 32 + m" xs]
      by (intro exI [of _ "if n + 32 < m then n else m"]) auto
  next
    case False
    then obtain off' ys' where r: "first_fit n xs = Some (off', ys')" "off = 32 + m + off'" "ys = (m, f) # ys'"
      using 2(2) by (auto split: option.splits if_splits)
    from 2(1) [OF False r(1), of "o1 + 32 + m"] obtain j where
      "n \<le> j" "live (o1 + 32 + m) ys' = insert (o1 + 32 + m + off', j) (live (o1 + 32 + m) xs)"
      "(o1 + 32 + m + off', k) \<notin> live (o1 + 32 + m) xs" by blast
    moreover have "off' \<noteq> 0"
      using r(1) by (cases xs) (auto split: if_splits option.splits)
    ultimately show ?thesis using r(2,3) by (intro exI [of _ j]) (auto simp: add.assoc)
  qed
qed simp

text \<open>Freeing what was just allocated gives the heap back.\<close>

lemma first_fit_mark_free:
  "first_fit n xs = Some (off, ys) \<Longrightarrow> no_adjacent_free xs \<Longrightarrow> merge (mark_free (o1 + off) o1 ys) = xs"
proof (induction n xs arbitrary: off ys o1 rule: first_fit.induct)
  case (2 n m f xs)
  show ?case
  proof (cases "f \<and> n \<le> m")
    case True
    then show ?thesis
      using 2(2) merge_no_adjacent [OF 2(3)] by (auto simp: not_le split: if_splits)
  next
    case False
    then obtain off' ys' where r: "first_fit n xs = Some (off', ys')" "off = 32 + m + off'" "ys = (m, f) # ys'"
      using 2(2) by (auto split: option.splits if_splits)
    have "off' \<noteq> 0" "xs \<noteq> []" using r(1) by (cases xs, auto split: if_splits option.splits)+
    moreover have "merge (mark_free (o1 + 32 + m + off') (o1 + 32 + m) ys') = xs"
      using 2(1) [OF False r(1)] 2(3) by (simp add: no_adjacent_free_Cons)
    ultimately show ?thesis
      using r(2,3) 2(3) merge_Cons [of f "mark_free (o1 + 32 + m + off') (o1 + 32 + m) ys'" m]
      by (simp add: no_adjacent_free_Cons add.assoc)
  qed
qed simp

section \<open>The header list represents an abstract heap\<close>

primrec heap_rep :: "(u64 \<Rightarrow> HeapBlock) \<Rightarrow> u64 \<Rightarrow> ablock list \<Rightarrow> bool" where
  "heap_rep B a [] \<longleftrightarrow> True"
| "heap_rep B a (x # xs) \<longleftrightarrow>
     a \<noteq> 0 \<and> unat (blk_size (B a)) = fst x \<and> (blk_free (B a) \<noteq> 0) = snd x \<and> fst x mod 16 = 0 \<and>
     unat a + 32 + fst x < 2 ^ 64 \<and>
     blk_next (B a) = (if xs = [] then 0 else a + 32 + of_nat (fst x)) \<and>
     heap_rep B (a + 32 + of_nat (fst x)) xs"

definition heap_inv :: "heap \<Rightarrow> ablock list \<Rightarrow> bool" where
  "heap_inv h xs \<longleftrightarrow> xs \<noteq> [] \<and> unat (heap_head h) mod 16 = 0 \<and> heap_rep (blocks h) (heap_head h) xs"

lemma heap_rep_ConsI:
  assumes "a \<noteq> 0" "unat (blk_size (B a)) = m" "(blk_free (B a) \<noteq> 0) = f" "m mod 16 = 0"
    "unat a + 32 + m < 2 ^ 64" "blk_next (B a) = (if xs = [] then 0 else a + 32 + of_nat m)"
    "heap_rep B (a + 32 + of_nat m) xs"
  shows "heap_rep B a ((m, f) # xs)"
  using assms by simp

lemma unat_next: "unat a + 32 + n < 2 ^ 64 \<Longrightarrow> unat (a + 32 + of_nat n :: u64) = unat a + 32 + n"
  by (simp add: unat_add_bounded unat_of_nat_bounded)

lemma heap_rep_cong:
  "(\<And>c. unat a \<le> unat c \<Longrightarrow> B' c = B c) \<Longrightarrow> heap_rep B' a xs = heap_rep B a xs"
proof (induction xs arbitrary: a)
  case (Cons x xs)
  show ?case
  proof (cases "unat a + 32 + fst x < 2 ^ 64")
    case True
    then have "heap_rep B' (a + 32 + of_nat (fst x)) xs = heap_rep B (a + 32 + of_nat (fst x)) xs"
      using Cons.prems by (intro Cons.IH) (simp add: unat_next)
    then show ?thesis using Cons.prems [of a] by simp
  qed simp
qed simp

lemma heap_rep_upd: "unat c < unat a \<Longrightarrow> heap_rep (B(c := v)) a xs = heap_rep B a xs"
  by (rule heap_rep_cong) auto

lemma heap_rep_unique:
  "heap_rep B a xs \<Longrightarrow> heap_rep B a ys \<Longrightarrow> xs \<noteq> [] \<Longrightarrow> ys \<noteq> [] \<Longrightarrow> xs = ys"
proof (induction xs arbitrary: a ys)
  case (Cons x xs)
  then obtain y ys' where y: "ys = y # ys'" by (cases ys) auto
  have x: "x = y" using Cons.prems(1,2) by (simp add: y prod_eq_iff)
  have nz: "z = z' \<Longrightarrow> heap_rep B z (w # ws) \<Longrightarrow> z' \<noteq> 0" for z z' w ws by simp
  have "xs = [] \<longleftrightarrow> ys' = []"
    using Cons.prems(1,2) by (cases xs; cases ys') (auto simp: y)
  then show ?case
    using Cons.IH [of "a + 32 + of_nat (fst x)" ys'] Cons.prems(1,2) x y by auto
qed simp

lemma kmalloc_take:
  assumes r: "a \<noteq> 0" "unat (blk_size (B a)) = m" "(blk_free (B a) \<noteq> 0) = f" "m mod 16 = 0" "unat a + 32 + m < 2 ^ 64"
    "blk_next (B a) = (if xs = [] then 0 else a + 32 + of_nat m)" "heap_rep B (a + 32 + of_nat m) xs"
    and fit: "f \<and> unat sz \<le> m" and sz: "unat sz mod 16 = 0"
  shows "\<exists>B'. kmalloc_loop sz a B = Some (a + 32, B') \<and>
    heap_rep B' a (if unat sz + 32 < m then (unat sz, False) # (m - unat sz - 32, True) # xs else (m, False) # xs) \<and>
    (\<forall>c. unat c < unat a \<longrightarrow> B' c = B c)"
proof -
  have lim: "cadd sz HEAP_BLOCK_SIZE = Some (sz + 32)" "unat (sz + 32) = unat sz + 32"
    using fit r(5) by (simp_all add: cadd_def HEAP_BLOCK_SIZE_def unat_add_bounded)
  have sw: "of_nat (unat sz) = sz" by simp
  show ?thesis
  proof (cases "unat sz + 32 < m")
    case True
    define q where "q = a + 32 + sz"
    define bq where "bq = \<lparr>blk_size = blk_size (B a) - sz - 32, blk_next = blk_next (B a), blk_free = 1, blk_reserved = 0\<rparr>"
    define ba where "ba = (B a)\<lparr>blk_size := sz, blk_next := q, blk_free := 0\<rparr>"
    have q: "unat q = unat a + 32 + unat sz" using unat_next [of a "unat sz"] r(5) True by (simp add: q_def)
    then have "q \<noteq> a" "q \<noteq> 0" by auto
    have sq: "unat (blk_size bq) = m - unat sz - 32"
      using True r(2) lim(2) unfolding bq_def
      by (simp add: diff_diff_add unat_sub word_le_nat_alt)
    have tail: "q + 32 + of_nat (m - unat sz - 32) = a + 32 + of_nat m"
      using True by (simp add: q_def of_nat_diff)
    have loop: "kmalloc_loop sz a B = Some (a + 32, B(q := bq, a := ba))"
      using r fit True lim \<open>q \<noteq> a\<close>
      by (subst kmalloc_loop.simps)
        (simp add: word_le_nat_alt word_less_nat_alt HEAP_BLOCK_SIZE_def q_def bq_def ba_def Let_def)
    let ?B = "B(q := bq, a := ba)"
    have "heap_rep ?B (a + 32 + of_nat m) xs"
      using r(7) q True r(5) by (subst heap_rep_cong [where B = B]) (auto simp: unat_next)
    then have "heap_rep ?B (q + 32 + of_nat (m - unat sz - 32)) xs" unfolding tail .
    moreover have "blk_next bq = (if xs = [] then 0 else q + 32 + of_nat (m - unat sz - 32))"
      unfolding tail using r(6) by (simp add: bq_def)
    moreover have "(m - unat sz - 32) mod 16 = 0"
    proof -
      have "16 dvd m - unat sz - 32" using r(4) sz by (intro dvd_diff_nat) (simp_all add: mod_0_imp_dvd)
      then show ?thesis by simp
    qed
    moreover have "?B q = bq" "blk_free bq \<noteq> 0" using \<open>q \<noteq> a\<close> by (simp_all add: bq_def)
    moreover have "unat q + 32 + (m - unat sz - 32) < 2 ^ 64" using q r(5) True by simp
    ultimately have hq: "heap_rep ?B q ((m - unat sz - 32, True) # xs)"
      using sq \<open>q \<noteq> 0\<close> by (simp only: heap_rep.simps fst_conv snd_conv) simp
    have "heap_rep ?B a ((unat sz, False) # (m - unat sz - 32, True) # xs)"
      using r(1,5) sz True hq by (subst heap_rep.simps(2)) (simp add: ba_def q_def [symmetric] del: heap_rep.simps)
    then show ?thesis using loop True q by (intro exI [of _ "B(q := bq, a := ba)"]) auto
  next
    case False
    define ba where "ba = (B a)\<lparr>blk_free := 0\<rparr>"
    have loop: "kmalloc_loop sz a B = Some (a + 32, B(a := ba))"
      using r fit False lim
      by (subst kmalloc_loop.simps) (simp add: word_le_nat_alt word_less_nat_alt HEAP_BLOCK_SIZE_def ba_def Let_def)
    have "heap_rep (B(a := ba)) (a + 32 + of_nat m) xs"
      using r(5,7) by (subst heap_rep_cong [where B = B]) (auto simp: unat_next)
    then have "heap_rep (B(a := ba)) a ((m, False) # xs)" using r by (simp add: ba_def)
    then show ?thesis using loop False by (intro exI [of _ "B(a := ba)"]) auto
  qed
qed

lemma kmalloc_loop_rep:
  assumes "heap_rep B a xs" "xs \<noteq> []" "unat sz mod 16 = 0"
  shows "case first_fit (unat sz) xs of
      None \<Rightarrow> kmalloc_loop sz a B = Some (0, B)
    | Some (off, ys) \<Rightarrow> \<exists>B'. kmalloc_loop sz a B = Some (a + of_nat off, B') \<and> heap_rep B' a ys \<and>
        (\<forall>c. unat c < unat a \<longrightarrow> B' c = B c) \<and> unat a + off < 2 ^ 64"
  using assms(1,2)
proof (induction xs arbitrary: a)
  case (Cons x xs)
  obtain m f where x: "x = (m, f)" by fastforce
  have r: "a \<noteq> 0" "unat (blk_size (B a)) = m" "(blk_free (B a) \<noteq> 0) = f" "m mod 16 = 0" "unat a + 32 + m < 2 ^ 64"
    "blk_next (B a) = (if xs = [] then 0 else a + 32 + of_nat m)" "heap_rep B (a + 32 + of_nat m) xs"
    using Cons.prems(1) by (auto simp: x)
  show ?case
  proof (cases "f \<and> unat sz \<le> m")
    case True
    then show ?thesis using kmalloc_take [OF r True assms(3)] by (auto simp: x)
  next
    case False
    then have loop: "kmalloc_loop sz a B = kmalloc_loop sz (blk_next (B a)) B"
      using r by (subst kmalloc_loop.simps) (auto simp: word_le_nat_alt)
    have ff: "first_fit (unat sz) (x # xs) = (case first_fit (unat sz) xs of None \<Rightarrow> None
        | Some (off, ys) \<Rightarrow> Some (32 + m + off, (m, f) # ys))"
      unfolding x first_fit.simps if_not_P [OF False] ..
    show ?thesis
    proof (cases "xs = []")
      case True
      then show ?thesis unfolding ff using loop r(6) by (simp add: kmalloc_loop.simps [of sz 0])
    next
      case xs: False
      note IH = Cons.IH [OF r(7) xs]
      have un: "unat (a + 32 + of_nat m) = unat a + 32 + m" by (rule unat_next [OF r(5)])
      show ?thesis
      proof (cases "first_fit (unat sz) xs")
        case None
        then show ?thesis unfolding ff using IH loop r(6) xs by simp
      next
        case (Some oy)
        obtain off ys where oy: "oy = (off, ys)" by fastforce
        obtain B' where B': "kmalloc_loop sz (a + 32 + of_nat m) B = Some (a + 32 + of_nat m + of_nat off, B')"
          "heap_rep B' (a + 32 + of_nat m) ys" "\<And>c. unat c < unat a + 32 + m \<Longrightarrow> B' c = B c"
          "unat a + 32 + m + off < 2 ^ 64" "ys \<noteq> []"
          using IH Some un first_fit_nonempty [of "unat sz" xs off] by (auto simp: oy)
        have "heap_rep B' a ((m, f) # ys)" using r B'(2,3,5) xs by simp
        moreover have "kmalloc_loop sz a B = Some (a + of_nat (32 + m + off), B')"
          unfolding loop r(6) if_not_P [OF xs] B'(1) by (simp add: add.assoc)
        ultimately show ?thesis
          unfolding ff Some oy option.case prod.case using B'(3,4) by (intro exI [of _ B']) (simp add: add.assoc)
      qed
    qed
  qed
qed simp

lemma coalesce_loop_rep:
  "heap_rep B a xs \<Longrightarrow> xs \<noteq> [] \<Longrightarrow>
   \<exists>B'. coalesce_loop a B = Some B' \<and> heap_rep B' a (merge xs) \<and> (\<forall>c. unat c < unat a \<longrightarrow> B' c = B c)"
proof (induction xs arbitrary: a B rule: merge.induct)
  case (2 x)
  then show ?case by (subst coalesce_loop.simps) auto
next
  case (3 m f k g xs)
  let ?n = "a + 32 + of_nat m"
  have a: "a \<noteq> 0" "unat (blk_size (B a)) = m" "(blk_free (B a) \<noteq> 0) = f" "m mod 16 = 0" "unat a + 32 + m < 2 ^ 64"
    "blk_next (B a) = ?n" and n: "heap_rep B ?n ((k, g) # xs)"
    using "3.prems"(1) by auto
  then have b: "?n \<noteq> 0" "unat (blk_size (B ?n)) = k" "(blk_free (B ?n) \<noteq> 0) = g" "k mod 16 = 0"
    "unat ?n + 32 + k < 2 ^ 64" "blk_next (B ?n) = (if xs = [] then 0 else ?n + 32 + of_nat k)"
    "heap_rep B (?n + 32 + of_nat k) xs" by auto
  have un: "unat ?n = unat a + 32 + m" by (rule unat_next [OF a(5)])
  have sz: "blk_size (B a) = of_nat m" "blk_size (B ?n) = of_nat k"
    unfolding a(2) [symmetric] b(2) [symmetric] by simp_all
  have adj: "a + HEAP_BLOCK_SIZE + blk_size (B a) = ?n"
    by (simp add: HEAP_BLOCK_SIZE_def sz)
  show ?case
  proof (cases "f \<and> g")
    case True
    define ba where "ba = (B a)\<lparr>blk_size := of_nat (m + (32 + k)), blk_next := blk_next (B ?n)\<rparr>"
    have inc: "cadd HEAP_BLOCK_SIZE (blk_size (B ?n)) = Some (32 + blk_size (B ?n))"
      "cadd (blk_size (B a)) (32 + blk_size (B ?n)) = Some (of_nat (m + (32 + k)))"
      using a(2,5) b(2,5) un unfolding sz
      by (simp_all add: cadd_def HEAP_BLOCK_SIZE_def unat_add_bounded unat_of_nat_bounded)
    have loop: "coalesce_loop a B = coalesce_loop a (B(a := ba))"
      using a b(1,3) True adj inc by (subst coalesce_loop.simps) (auto simp: Let_def ba_def)
    have tail: "a + 32 + of_nat (m + (32 + k)) = ?n + 32 + of_nat k" by simp
    have "heap_rep (B(a := ba)) (?n + 32 + of_nat k) xs"
      using b(7) unat_next [OF b(5)] un by (subst heap_rep_upd) simp_all
    moreover have "unat (of_nat (m + (32 + k)) :: u64) = m + (32 + k)"
      using b(5) un by (intro unat_of_nat_bounded) simp
    ultimately have "heap_rep (B(a := ba)) a ((m + (32 + k), True) # xs)"
      using a(1,3,4) b(4,5,6) un True unfolding heap_rep.simps fst_conv snd_conv tail
      by (auto simp: ba_def unat_of_nat_bounded)
    from "3.IH"(1) [OF True this list.distinct(2)] obtain B' where
      "coalesce_loop a (B(a := ba)) = Some B'" "heap_rep B' a (merge ((m + (32 + k), True) # xs))"
      "\<And>c. unat c < unat a \<Longrightarrow> B' c = (B(a := ba)) c" by blast
    then show ?thesis using loop True by auto
  next
    case False
    have loop: "coalesce_loop a B = coalesce_loop ?n B"
      using a b(1,3) False by (subst coalesce_loop.simps) (auto simp: Let_def)
    from "3.IH"(2) [OF False n list.distinct(2)] obtain B' where
      B': "coalesce_loop ?n B = Some B'" "heap_rep B' ?n (merge ((k, g) # xs))" "\<And>c. unat c < unat ?n \<Longrightarrow> B' c = B c"
      by blast
    moreover have "heap_rep B' a ((m, f) # merge ((k, g) # xs))"
      using a B'(2,3) un by simp
    ultimately show ?thesis using loop False un by auto
  qed
qed simp

lemma live_rep:
  assumes "heap_rep B a xs" "(p, n) \<in> live o1 xs" "unat a = unat b + o1"
  shows "p \<ge> 32 \<and> blk_free (B (b + of_nat (p - 32))) = 0 \<and> unat b + p + n < 2 ^ 64 \<and>
    heap_rep (B(b + of_nat (p - 32) := (B (b + of_nat (p - 32)))\<lparr>blk_free := 1\<rparr>)) a (mark_free p o1 xs)"
  using assms
proof (induction xs arbitrary: a o1)
  case (Cons x xs)
  obtain m f where x: "x = (m, f)" by fastforce
  have r: "a \<noteq> 0" "unat (blk_size (B a)) = m" "(blk_free (B a) \<noteq> 0) = f" "m mod 16 = 0" "unat a + 32 + m < 2 ^ 64"
    "blk_next (B a) = (if xs = [] then 0 else a + 32 + of_nat m)" "heap_rep B (a + 32 + of_nat m) xs"
    using Cons.prems(1) by (auto simp: x)
  have un: "unat (a + 32 + of_nat m) = unat a + 32 + m" by (rule unat_next [OF r(5)])
  show ?case
  proof (cases "p = o1 + 32")
    case True
    then have "(p, n) \<notin> live (o1 + 32 + m) xs" using live_bounds [of p n "o1 + 32 + m" xs] by auto
    then have "\<not> f" "n = m" using Cons.prems(2) by (auto simp: x split: if_splits)
    have ab: "b + of_nat (p - 32) = a"
    proof -
      have "a = of_nat (unat b + o1)" unfolding Cons.prems(3) [symmetric] by simp
      then show ?thesis using True by simp
    qed
    have "heap_rep (B(a := (B a)\<lparr>blk_free := 1\<rparr>)) (a + 32 + of_nat m) xs"
      using r(7) un by (subst heap_rep_upd) simp_all
    then have h: "heap_rep (B(a := (B a)\<lparr>blk_free := 1\<rparr>)) a ((m, True) # xs)"
      using r by (intro heap_rep_ConsI) simp_all
    have e: "mark_free p o1 (x # xs) = (m, True) # xs" using True by (simp add: x)
    show ?thesis
      unfolding ab e by (intro conjI h) (use r(3,5) \<open>\<not> f\<close> \<open>n = m\<close> True Cons.prems(3) in simp_all)
  next
    case False
    then have l: "(p, n) \<in> live (o1 + 32 + m) xs" using Cons.prems(2) by (auto simp: x split: if_splits)
    have IH: "p \<ge> 32 \<and> blk_free (B (b + of_nat (p - 32))) = 0 \<and> unat b + p + n < 2 ^ 64 \<and>
      heap_rep (B(b + of_nat (p - 32) := (B (b + of_nat (p - 32)))\<lparr>blk_free := 1\<rparr>)) (a + 32 + of_nat m)
        (mark_free p (o1 + 32 + m) xs)"
      using un Cons.prems(3) by (intro Cons.IH [OF r(7) l]) simp
    moreover have "b + of_nat (p - 32) \<noteq> a"
    proof -
      have "o1 + 32 + m + 32 \<le> p" using live_bounds [OF l] .
      moreover have "unat (b + of_nat (p - 32)) = unat b + (p - 32)"
        using IH by (intro unat_offset) linarith
      ultimately have "unat (b + of_nat (p - 32)) \<noteq> unat a" using Cons.prems(3) by simp
      then show ?thesis by auto
    qed
    ultimately have h: "heap_rep (B(b + of_nat (p - 32) := (B (b + of_nat (p - 32)))\<lparr>blk_free := 1\<rparr>)) a
        ((m, f) # mark_free p (o1 + 32 + m) xs)"
      using r by (intro heap_rep_ConsI) (simp_all del: heap_rep.simps of_nat_diff)
    have e: "mark_free p o1 (x # xs) = (m, f) # mark_free p (o1 + 32 + m) xs" using False by (simp add: x)
    show ?thesis unfolding e by (intro conjI h) (use IH in \<open>simp_all del: of_nat_diff\<close>)
  qed
qed simp

section \<open>The allocator contract\<close>

text \<open>
  What the rest of the kernel relies on: allocation returns null or a fresh region, and freeing a live
  pointer removes exactly that region.
\<close>

datatype heap_op = Malloc u64 | Free u64

text \<open>One request of a client that frees only what it holds, and a sequence of them.\<close>

definition client_step ::
  "(u64 \<Rightarrow> 's \<Rightarrow> (u64 \<times> 's) option) \<Rightarrow> (u64 \<Rightarrow> 's \<Rightarrow> 's option) \<Rightarrow> ('s \<Rightarrow> (u64 \<times> nat) set) \<Rightarrow> heap_op \<Rightarrow> 's \<Rightarrow> 's option"
  where
  "client_step alloc release regions r s = (case r of
      Malloc n \<Rightarrow> map_option snd (alloc n s)
    | Free p \<Rightarrow> if p \<in> fst ` regions s then release p s else Some s)"

fun client_run ::
  "(u64 \<Rightarrow> 's \<Rightarrow> (u64 \<times> 's) option) \<Rightarrow> (u64 \<Rightarrow> 's \<Rightarrow> 's option) \<Rightarrow> ('s \<Rightarrow> (u64 \<times> nat) set) \<Rightarrow> heap_op list \<Rightarrow> 's \<Rightarrow> 's option"
  where
  "client_run alloc release regions [] s = Some s"
| "client_run alloc release regions (r # rs) s =
     Option.bind (client_step alloc release regions r s) (client_run alloc release regions rs)"

locale region_allocator =
  fixes alloc :: "u64 \<Rightarrow> 's \<Rightarrow> (u64 \<times> 's) option"
    and release :: "u64 \<Rightarrow> 's \<Rightarrow> 's option"
    and regions :: "'s \<Rightarrow> (u64 \<times> nat) set"
    and invar :: "'s \<Rightarrow> bool"
  assumes alloc_total: "invar s \<Longrightarrow> \<exists>p s'. alloc n s = Some (p, s') \<and> invar s' \<and>
      (p = 0 \<and> regions s' = regions s \<or>
       p \<noteq> 0 \<and> (\<exists>m\<ge>unat n. regions s' = insert (p, m) (regions s)) \<and> (\<forall>m. (p, m) \<notin> regions s))"
    and release_total: "invar s \<Longrightarrow> (p, m) \<in> regions s \<Longrightarrow>
      \<exists>s'. release p s = Some s' \<and> invar s' \<and> regions s' = regions s - {(p, m)}"
    and disjoint: "invar s \<Longrightarrow> (p, m) \<in> regions s \<Longrightarrow> (q, k) \<in> regions s \<Longrightarrow> (p, m) \<noteq> (q, k) \<Longrightarrow>
      unat p + m \<le> unat q \<or> unat q + k \<le> unat p"
begin

lemma step_total: "invar s \<Longrightarrow> \<exists>s'. client_step alloc release regions r s = Some s' \<and> invar s'"
  using alloc_total [of s] release_total [of s] by (cases r) (fastforce simp: client_step_def)+

lemma run_total: "invar s \<Longrightarrow> \<exists>s'. client_run alloc release regions rs s = Some s' \<and> invar s'"
  by (induction rs arbitrary: s) (use step_total in force)+

lemma run_disjoint:
  assumes "invar s" "client_run alloc release regions rs s = Some s'" "(p, m) \<in> regions s'" "(q, k) \<in> regions s'" "(p, m) \<noteq> (q, k)"
  shows "unat p + m \<le> unat q \<or> unat q + k \<le> unat p"
  using run_total [OF assms(1), of rs] disjoint assms(2-) by auto

end

text \<open>The live regions of the kernel heap, as addresses.\<close>

definition heap_ok :: "heap \<Rightarrow> bool" where
  "heap_ok h \<longleftrightarrow> (\<exists>xs. heap_inv h xs)"

definition heap_regions :: "heap \<Rightarrow> (u64 \<times> nat) set" where
  "heap_regions h = {(p, m). \<exists>xs off. heap_inv h xs \<and> (off, m) \<in> live 0 xs \<and> p = heap_head h + of_nat off}"

lemma heap_inv_unique: "heap_inv h xs \<Longrightarrow> heap_inv h ys \<Longrightarrow> xs = ys"
  by (auto simp: heap_inv_def intro: heap_rep_unique)

lemma heap_regions_inv:
  "heap_inv h xs \<Longrightarrow> heap_regions h = (\<lambda>(off, m). (heap_head h + of_nat off, m)) ` live 0 xs"
proof -
  assume "heap_inv h xs"
  then have "heap_inv h ys \<longleftrightarrow> ys = xs" for ys using heap_inv_unique by blast
  then show ?thesis by (auto simp: heap_regions_def)
qed

lemma live_address:
  assumes "heap_inv h xs" "(off, m) \<in> live 0 xs"
  shows "unat (heap_head h + of_nat off) = unat (heap_head h) + off" "unat (heap_head h) + off + m < 2 ^ 64" "32 \<le> off"
  using live_rep [of "blocks h" "heap_head h" xs off m 0 "heap_head h"] assms
  by (auto simp: heap_inv_def unat_add_bounded unat_of_nat_bounded)

lemma live_inj:
  assumes "heap_inv h xs"
  shows "inj_on (\<lambda>(off, m). (heap_head h + of_nat off, m)) (live 0 xs)"
proof (rule inj_onI)
  fix x y assume l: "x \<in> live 0 xs" "y \<in> live 0 xs"
    and e: "(\<lambda>(off, m). (heap_head h + of_nat off, m)) x = (\<lambda>(off, m). (heap_head h + of_nat off, m)) y"
  then have "(fst x, snd x) \<in> live 0 xs" "(fst y, snd y) \<in> live 0 xs" by simp_all
  note u = this [THEN live_address(1) [OF assms]]
  have "snd x = snd y" "heap_head h + of_nat (fst x) = heap_head h + of_nat (fst y)"
    using e by (simp_all add: case_prod_beta)
  then show "x = y" using u by (auto simp only: prod_eq_iff)
qed

text \<open>The rounding of \<^verbatim>\<open>kmalloc\<close>.\<close>

lemma round_up:
  assumes "\<not> sz > - 1 - (HEAP_ALIGN - 1)"
  shows "unat ((sz + (HEAP_ALIGN - 1)) AND NOT (HEAP_ALIGN - 1)) = (unat sz + 15) div 16 * 16"
proof -
  have "unat (- 1 - 15 :: u64) = 2 ^ 64 - 16" by simp
  then have "unat sz \<le> 2 ^ 64 - 16" using assms by (simp add: HEAP_ALIGN_def word_le_nat_alt not_less)
  then have "unat (sz + 15) = unat sz + 15" by (simp add: unat_add_bounded)
  moreover have "(15 :: u64) = mask 4" by (simp add: mask_eq_exp_minus_1)
  ultimately show ?thesis
    using unat_align_down [of "sz + 15" 4] by (simp add: HEAP_ALIGN_def)
qed

definition round16 :: "u64 \<Rightarrow> nat" where
  "round16 sz = (unat sz + 15) div 16 * 16"

text \<open>\<^verbatim>\<open>kmalloc\<close> implements first fit.\<close>

lemma kmalloc_refines:
  assumes inv: "heap_inv h xs" and sz: "sz \<noteq> 0" "sz \<le> - 1 - (HEAP_ALIGN - 1)"
  shows "case first_fit (round16 sz) xs of
      None \<Rightarrow> kmalloc sz h = Some (0, h)
    | Some (off, ys) \<Rightarrow> \<exists>h'. kmalloc sz h = Some (heap_head h + of_nat off, h') \<and>
        heap_inv h' ys \<and> heap_head h' = heap_head h"
proof -
  have rep: "heap_rep (blocks h) (heap_head h) xs" "xs \<noteq> []" and nz: "heap_head h \<noteq> 0"
    using inv by (auto simp: heap_inv_def neq_Nil_conv)
  let ?n = "(sz + (HEAP_ALIGN - 1)) AND NOT (HEAP_ALIGN - 1)"
  have n: "unat ?n = round16 sz" using round_up [of sz] sz(2) by (simp add: round16_def)
  have km: "kmalloc sz h = Option.bind (kmalloc_loop ?n (heap_head h) (blocks h))
      (\<lambda>(result, bs). Some (result, h\<lparr>blocks := bs\<rparr>))"
    using sz nz by (simp add: kmalloc_def Let_def not_less [symmetric])
  have "unat ?n mod 16 = 0" by (simp add: n round16_def)
  from kmalloc_loop_rep [OF rep this] show ?thesis
    using inv unfolding n km by (auto simp: heap_inv_def split: option.splits)
qed

text \<open>\<^verbatim>\<open>kfree\<close> of a live pointer.\<close>

lemma kfree_refines:
  assumes inv: "heap_inv h xs" and l: "(off, m) \<in> live 0 xs"
  shows "\<exists>h'. kfree (heap_head h + of_nat off) h = Some h' \<and> heap_inv h' (merge (mark_free off 0 xs)) \<and>
    heap_head h' = heap_head h"
proof -
  note a = live_address [OF inv l]
  have rep: "heap_rep (blocks h) (heap_head h) xs" "xs \<noteq> []" using inv by (auto simp: heap_inv_def)
  let ?p = "heap_head h + of_nat off" and ?b = "heap_head h + of_nat (off - 32)"
  have b: "csub ?p HEAP_BLOCK_SIZE = Some ?b"
    using a(1,3) by (simp add: csub_def HEAP_BLOCK_SIZE_def word_le_nat_alt)
  define B where "B = (blocks h)(?b := (blocks h ?b)\<lparr>blk_free := 1\<rparr>)"
  have free: "blk_free (blocks h ?b) = 0" and repB: "heap_rep B (heap_head h) (mark_free off 0 xs)"
    using live_rep [OF rep(1) l, of "heap_head h"] unfolding B_def by auto
  obtain B' where B': "coalesce_loop (heap_head h) B = Some B'"
    "heap_rep B' (heap_head h) (merge (mark_free off 0 xs))"
    using coalesce_loop_rep [OF repB] rep(2) by auto
  have "?p \<noteq> 0" using a(1,3) by auto
  then have "kfree ?p h = Some (h\<lparr>blocks := B'\<rparr>)"
    using b free B'(1) by (simp add: kfree_def coalesce_def B_def del: of_nat_diff)
  then show ?thesis using B'(2) inv rep(2) by (simp add: heap_inv_def)
qed

interpretation kh: region_allocator kmalloc kfree heap_regions heap_ok
proof
  fix h :: heap and n :: u64
  assume ok: "heap_ok h"
  then obtain xs where inv: "heap_inv h xs" by (auto simp: heap_ok_def)
  show "\<exists>p s'. kmalloc n h = Some (p, s') \<and> heap_ok s' \<and>
    (p = 0 \<and> heap_regions s' = heap_regions h \<or>
     p \<noteq> 0 \<and> (\<exists>m\<ge>unat n. heap_regions s' = insert (p, m) (heap_regions h)) \<and> (\<forall>m. (p, m) \<notin> heap_regions h))"
  proof (cases "n = 0 \<or> n > - 1 - (HEAP_ALIGN - 1) \<or> first_fit (round16 n) xs = None")
    case True
    then have "kmalloc n h = Some (0, h)"
      using kmalloc_refines [OF inv, of n]
      by (cases "n = 0 \<or> n > - 1 - (HEAP_ALIGN - 1)") (simp add: kmalloc_def, auto simp: not_less)
    then show ?thesis using ok by auto
  next
    case False
    then obtain off ys h' where ff: "first_fit (round16 n) xs = Some (off, ys)"
      and h': "kmalloc n h = Some (heap_head h + of_nat off, h')" "heap_inv h' ys" "heap_head h' = heap_head h"
      using kmalloc_refines [OF inv, of n] by (auto simp: not_less)
    obtain m where m: "m \<ge> round16 n" "live 0 ys = insert (off, m) (live 0 xs)"
      using first_fit_live [OF ff, of 0] by auto
    have new: "(off, k) \<notin> live 0 xs" for k using first_fit_live [OF ff, of 0] by auto
    have a: "unat (heap_head h + of_nat off) = unat (heap_head h) + off" "32 \<le> off"
      using live_address [OF h'(2), of off m] m(2) h'(3) by auto
    have "(heap_head h + of_nat off, k) \<notin> heap_regions h" for k
    proof
      assume "(heap_head h + of_nat off, k) \<in> heap_regions h"
      then obtain o2 where o2: "(o2, k) \<in> live 0 xs" "heap_head h + of_nat off = heap_head h + of_nat o2"
        by (auto simp: heap_regions_inv [OF inv])
      have "o2 = off" using live_address(1) [OF inv o2(1)] a(1) unfolding o2(2) by linarith
      then show False using o2(1) new by simp
    qed
    moreover have "heap_regions h' = insert (heap_head h + of_nat off, m) (heap_regions h)"
      by (simp add: heap_regions_inv [OF inv] heap_regions_inv [OF h'(2)] m(2) h'(3))
    moreover have "unat n \<le> m" using m(1) by (simp add: round16_def)
    moreover have "heap_head h + of_nat off \<noteq> 0" using a by auto
    ultimately show ?thesis using h' by (auto simp: heap_ok_def)
  qed
next
  fix h p m assume "heap_ok h" and r: "(p, m) \<in> heap_regions h"
  then obtain xs where inv: "heap_inv h xs" by (auto simp: heap_ok_def)
  obtain off where off: "(off, m) \<in> live 0 xs" "p = heap_head h + of_nat off"
    using r by (auto simp: heap_regions_inv [OF inv])
  obtain h' where h': "kfree p h = Some h'" "heap_inv h' (merge (mark_free off 0 xs))" "heap_head h' = heap_head h"
    using kfree_refines [OF inv off(1)] off(2) by auto
  note inj = live_inj [OF inv]
  have "heap_regions h' = heap_regions h - {(p, m)}"
    using off inj by (simp add: heap_regions_inv [OF inv] heap_regions_inv [OF h'(2)] h'(3) live_mark_free
        inj_on_image_set_diff [where C = "live 0 xs"])
  then show "\<exists>s'. kfree p h = Some s' \<and> heap_ok s' \<and> heap_regions s' = heap_regions h - {(p, m)}"
    using h' by (auto simp: heap_ok_def)
next
  fix h p m q k assume "heap_ok h" and r: "(p, m) \<in> heap_regions h" "(q, k) \<in> heap_regions h" "(p, m) \<noteq> (q, k)"
  then obtain xs where inv: "heap_inv h xs" by (auto simp: heap_ok_def)
  obtain o1 o2 where o: "(o1, m) \<in> live 0 xs" "p = heap_head h + of_nat o1" "(o2, k) \<in> live 0 xs" "q = heap_head h + of_nat o2"
    using r by (auto simp: heap_regions_inv [OF inv])
  then show "unat p + m \<le> unat q \<or> unat q + k \<le> unat p"
    using live_disjoint [OF o(1,3)] r(3) live_address(1) [OF inv o(1)] live_address(1) [OF inv o(3)] by auto
qed

section \<open>Bringing the heap up\<close>

definition heap_page :: "nat \<Rightarrow> u64" where
  "heap_page i = KHEAP_START + of_nat i * PAGE_SIZE"

definition page_mapped :: "u64 \<Rightarrow> mm \<Rightarrow> bool" where
  "page_mapped va s \<longleftrightarrow> (\<exists>f. vmm_virt_to_phys va s = Some f \<and> f \<noteq> VMM_NO_PHYS)"

lemma unat_heap_page: "i < 2048 \<Longrightarrow> unat (heap_page i) = 0xFFFF900000000000 + i * 4096"
  by (simp add: heap_page_def KHEAP_START_def unat_add_bounded unat_mult_bounded unat_of_nat_bounded)

lemma heap_page_same: "i < 2048 \<Longrightarrow> j < 2048 \<Longrightarrow> same_page (heap_page i) (heap_page j) \<longleftrightarrow> i = j"
proof -
  have "unat (heap_page k) div 4096 mod 2 ^ 36 = 0x900000000 + k" if "k < 2048" for k
  proof -
    have "unat (heap_page k) div 4096 = 0x900000000 + k + 0xFFFF * 2 ^ 36" using that by (simp add: unat_heap_page)
    then show ?thesis using that by (simp only: mod_mult_self1) simp
  qed
  then show "i < 2048 \<Longrightarrow> j < 2048 \<Longrightarrow> ?thesis" by (simp add: same_page_unat)
qed

lemma leaf_not_no_phys: "(f AND PTE_ADDR_MASK) OR (va AND 0xFFF) \<noteq> VMM_NO_PHYS"
proof -
  have "\<not> bit ((f AND PTE_ADDR_MASK) OR (va AND 0xFFF)) 63"
    by (simp add: bit_simps PTE_ADDR_MASK_def)
  moreover have "bit VMM_NO_PHYS 63" by (simp add: VMM_NO_PHYS_def)
  ultimately show ?thesis by metis
qed

lemma vmm_map_page_mapped:
  assumes "vmm_inv s" "vmm_map_page va f s = Some s'"
  shows "vmm_inv s'" "page_mapped vb s' \<longleftrightarrow> same_page va vb \<or> page_mapped vb s"
    "\<not> same_page va vb \<Longrightarrow> vmm_virt_to_phys vb s' = vmm_virt_to_phys vb s"
proof -
  have "(PTE_PRESENT OR PTE_WRITABLE) AND PTE_ADDR_MASK = 0" by (simp add: pte_defs)
  note e = vmm_map_page_flags_effect [OF assms(1) this assms(2) [unfolded vmm_map_page_def]]
  show "vmm_inv s'" using e by blast
  show "page_mapped vb s' \<longleftrightarrow> same_page va vb \<or> page_mapped vb s"
    using e leaf_not_no_phys by (auto simp: page_mapped_def)
  show "\<not> same_page va vb \<Longrightarrow> vmm_virt_to_phys vb s' = vmm_virt_to_phys vb s" using e by simp
qed

lemma page_mapped_frames [simp]: "page_mapped va (s\<lparr>frames := fr\<rparr>) = page_mapped va s"
  by (simp add: page_mapped_def)

text \<open>No page outside the heap changes its translation.\<close>

definition outside_heap :: "u64 \<Rightarrow> bool" where
  "outside_heap va \<longleftrightarrow> (\<forall>i<2048. \<not> same_page (heap_page i) va)"

lemma kheap_grow_ok:
  assumes "vmm_inv s" "kheap_grow [j..<2048] (of_nat j) s = Some (m, s')" "j \<le> 2048"
    "\<forall>i<j. page_mapped (heap_page i) s"
  shows "\<exists>n\<ge>j. n \<le> 2048 \<and> m = of_nat n \<and> vmm_inv s' \<and> (\<forall>i<n. page_mapped (heap_page i) s') \<and>
    (\<forall>va. outside_heap va \<longrightarrow> vmm_virt_to_phys va s' = vmm_virt_to_phys va s)"
  using assms
proof (induction "2048 - j" arbitrary: j s)
  case 0
  then show ?case by (intro exI [of _ j]) auto
next
  case (Suc k)
  then have j: "j < 2048" "[j..<2048] = j # [Suc j..<2048]" by (auto simp: upt_rec)
  obtain page fr where al: "pmm_alloc_page (frames s) = (page, fr)" by fastforce
  have inv: "vmm_inv (s\<lparr>frames := fr\<rparr>)" by (rule vmm_inv_alloc [OF Suc.prems(1) al])
  show ?case
  proof (cases "page = PMM_NO_PAGE")
    case True
    then have "m = of_nat j" "s' = s\<lparr>frames := fr\<rparr>" using Suc.prems(2) al j by simp_all
    then show ?thesis using j inv Suc.prems(4) by (intro exI [of _ j]) simp
  next
    case False
    then obtain s1 where s1: "vmm_map_page (heap_page j) page (s\<lparr>frames := fr\<rparr>) = Some s1"
      "kheap_grow [Suc j..<2048] (of_nat (Suc j)) s1 = Some (m, s')"
      using Suc.prems(2) al j by (auto simp: heap_page_def add.commute)
    note e = vmm_map_page_mapped [OF inv s1(1)]
    have "\<forall>i<Suc j. page_mapped (heap_page i) s1"
      using e(2) Suc.prems(4) by (auto simp: less_Suc_eq same_page_def)
    have k: "k = 2048 - Suc j" "Suc j \<le> 2048" using Suc.hyps(2) j(1) by simp_all
    from Suc.hyps(1) [OF k(1) e(1) s1(2) k(2)] \<open>\<forall>i<Suc j. page_mapped (heap_page i) s1\<close>
    obtain n where n: "n \<ge> Suc j" "n \<le> 2048" "m = of_nat n" "vmm_inv s'" "\<forall>i<n. page_mapped (heap_page i) s'"
      "\<forall>va. outside_heap va \<longrightarrow> vmm_virt_to_phys va s' = vmm_virt_to_phys va s1" by auto
    then show ?thesis
      using e(3) j(1) by (intro exI [of _ n]) (auto simp: outside_heap_def)
  qed
qed

text \<open>Coalescing changes sizes and links only.\<close>

lemma coalesce_keeps_free:
  assumes "coalesce_loop a B = Some B'"
  shows "blk_free (B' c) = blk_free (B c)"
proof (rule coalesce_loop.raw_induct [where P = "\<lambda>a B B'. blk_free (B' c) = blk_free (B c)", OF _ assms])
  fix loop :: "u64 \<Rightarrow> (u64 \<Rightarrow> HeapBlock) \<Rightarrow> (u64 \<Rightarrow> HeapBlock) option" and a B B'
  assume IH: "\<And>a B B'. loop a B = Some B' \<Longrightarrow> blk_free (B' c) = blk_free (B c)"
  assume "(if a = 0 then Some B
      else let b = B a; nxt = blk_next b in
        if nxt = 0 then Some B
        else let n = B nxt in
          if blk_free b \<noteq> 0 \<and> blk_free n \<noteq> 0 \<and> a + HEAP_BLOCK_SIZE + blk_size b = nxt then do {
            inc \<leftarrow> cadd HEAP_BLOCK_SIZE (blk_size n);
            total \<leftarrow> cadd (blk_size b) inc;
            loop a (B(a := b\<lparr>blk_size := total, blk_next := blk_next n\<rparr>))
          }
          else loop nxt B) = Some B'"
  then show "blk_free (B' c) = blk_free (B c)"
    by (auto simp: Let_def dest!: IH split: if_splits)
qed

section \<open>A small heap\<close>

definition sample_heap :: heap where
  "sample_heap = \<lparr>blocks = (\<lambda>_. \<lparr>blk_size = 96, blk_next = 0, blk_free = 1, blk_reserved = 0\<rparr>), heap_head = 0x1000\<rparr>"

lemma sample_heap_inv: "heap_inv sample_heap [(96, True)]"
  by (simp add: heap_inv_def sample_heap_def)

lemma sample_kheap_init: "\<exists>s' h'. kheap_init sample_mm sample_heap = Some (s', h')"
proof -
  obtain page fr where al: "pmm_alloc_page (frames sample_mm) = (page, fr)" by fastforce
  have wf: "pmm_wf (frames sample_mm)" and h: "hhdm sample_mm = Some 0xFFFF800000000000"
    by (simp_all add: sample_mm_def pmm_wf_def)
  have page: "page \<in> {0x1000, 0x2000, 0x3000, 0x4000}" "free_frames fr = free_frames (frames sample_mm) - {page}"
    using pmm.alloc_some [OF wf _ al] by (simp_all add: sample_free_frames)
  define s where "s = sample_mm\<lparr>frames := fr\<rparr>"
  have inv: "vmm_inv s" unfolding s_def by (rule vmm_inv_alloc [OF sample_ready(1) al])
  have card: "card (free_frames (frames s)) = 3"
    using page sample_ready(4) by (simp add: s_def sample_free_frames)
  have c: "walk_clear KHEAP_START s"
    using sample_ready(2) [of KHEAP_START] by (simp add: s_def walk_clear_def pte_def)
  have f: "frames_mapped s"
    using sample_ready(3) page(2) by (simp add: s_def frames_mapped_def)
  have al0: "KHEAP_START AND 0xFFF = 0" "page AND 0xFFF = 0" and h': "hhdm s = Some 0xFFFF800000000000"
    using page(1) h by (auto simp: KHEAP_START_def s_def)
  obtain s1 where s1: "vmm_map_page KHEAP_START page s = Some s1"
    using vmm_map_progress [OF inv h' al0 c f] card unfolding vmm_map_page_def by (metis order_refl)
  have "\<not> present (mem s (cell (pml4 s) (vindex 3 KHEAP_START)))" by (simp add: s_def sample_mm_def)
  from vmm_map_fresh_walk [OF inv this s1 [unfolded vmm_map_page_def]] card
  have "free_frames (frames s1) = {}" by (simp add: finite_free_frames)
  moreover have "pmm_wf (frames s1)" using vmm_map_page_mapped(1) [OF inv s1] by (simp add: vmm_inv_def)
  ultimately have "pmm_alloc_page (frames s1) = (PMM_NO_PAGE, frames s1)" by (rule pmm.alloc_none [rotated])
  then have "kheap_grow [1..<2048] 1 s1 = Some (1, s1)" by (subst upt_conv_Cons) simp_all
  moreover have "page \<noteq> PMM_NO_PAGE" using page(1) by (auto simp: PMM_NO_PAGE_def)
  ultimately show ?thesis using al s1 by (simp add: kheap_init_def s_def)
qed

section \<open>Properties\<close>

text \<open>
  C26: the heap starts out valid.  When \<^verbatim>\<open>kheap_init\<close> returns, the heap is one free block over the pages that could be
  mapped, every one of these pages (and with it the whole block) is mapped, and no translation outside the
  heap's 2048 pages has changed.
\<close>

theorem kheap_init_ok:
  assumes "vmm_inv s" and "kheap_init s h = Some (s', h')"
  shows "\<exists>n. 0 < n \<and> n \<le> 2048 \<and> heap_inv h' [(n * 4096 - 32, True)] \<and> heap_head h' = KHEAP_START \<and> vmm_inv s' \<and>
    (\<forall>i<n. page_mapped (heap_page i) s') \<and> (\<forall>va. outside_heap va \<longrightarrow> vmm_virt_to_phys va s' = vmm_virt_to_phys va s)"
proof -
  obtain page fr where al: "pmm_alloc_page (frames s) = (page, fr)" by fastforce
  have inv: "vmm_inv (s\<lparr>frames := fr\<rparr>)" by (rule vmm_inv_alloc [OF assms(1) al])
  obtain s1 m where s1: "vmm_map_page (heap_page 0) page (s\<lparr>frames := fr\<rparr>) = Some s1"
    "kheap_grow [1..<2048] (of_nat 1) s1 = Some (m, s')"
    "h' = h\<lparr>heap_head := KHEAP_START, blocks := (blocks h)(KHEAP_START :=
      \<lparr>blk_size = m * PAGE_SIZE - HEAP_BLOCK_SIZE, blk_next = 0, blk_free = 1, blk_reserved = 0\<rparr>)\<rparr>"
    using assms(2) al by (auto simp: kheap_init_def heap_page_def split: if_splits)
  note e = vmm_map_page_mapped [OF inv s1(1)]
  have "\<forall>i<1. page_mapped (heap_page i) s1" using e(2) by (simp add: same_page_def)
  from kheap_grow_ok [OF e(1) s1(2) _ this] obtain n where n: "n \<ge> 1" "n \<le> 2048" "m = of_nat n" "vmm_inv s'"
    "\<forall>i<n. page_mapped (heap_page i) s'" "\<forall>va. outside_heap va \<longrightarrow> vmm_virt_to_phys va s' = vmm_virt_to_phys va s1"
    by auto
  have "unat (of_nat n * 4096 :: u64) = n * 4096" using n(2) by (simp add: unat_mult_bounded unat_of_nat_bounded)
  then have sz: "unat (m * PAGE_SIZE - HEAP_BLOCK_SIZE) = n * 4096 - 32"
    using n(1,3) by (simp add: PAGE_SIZE_def HEAP_BLOCK_SIZE_def unat_sub word_le_nat_alt)
  have "n * 4096 - 32 = (n * 256 - 2) * 16" by (simp add: diff_mult_distrib)
  then have "(n * 4096 - 32) mod 16 = 0" by simp
  then have "heap_inv h' [(n * 4096 - 32, True)]"
    using sz n(2) by (simp add: s1(3) heap_inv_def KHEAP_START_def)
  then show ?thesis
    using n e(3) s1(3) by (intro exI [of _ n]) (auto simp: outside_heap_def)
qed

theorem kheap_init_ok_witness:
  "\<exists>s' h'. kheap_init sample_mm sample_heap = Some (s', h') \<and> heap_head h' = KHEAP_START \<and> page_mapped (heap_page 0) s'"
proof -
  obtain s' h' where i: "kheap_init sample_mm sample_heap = Some (s', h')" using sample_kheap_init by blast
  show ?thesis using kheap_init_ok [OF sample_ready(1) i] i by auto
qed

text \<open>
  C3: \<^verbatim>\<open>kmalloc\<close> implements first fit.  On a heap that represents the block list \<open>xs\<close> it always returns; for a size that can be
  rounded up it returns null and changes nothing when no free block is large enough, and otherwise
  the first free block that is, split when the rest has room for a header and at least sixteen bytes.
\<close>

theorem kmalloc_is_first_fit:
  assumes "heap_inv h xs" and "sz \<noteq> 0" and "sz \<le> - 1 - (HEAP_ALIGN - 1)"
  shows "if \<exists>(m, f)\<in>set xs. f \<and> round16 sz \<le> m
    then \<exists>off ys h'. first_fit (round16 sz) xs = Some (off, ys) \<and> kmalloc sz h = Some (heap_head h + of_nat off, h') \<and>
      heap_inv h' ys
    else kmalloc sz h = Some (0, h)"
  using kmalloc_refines [OF assms] first_fit_None [of "round16 sz" xs] by (auto split: option.splits)

theorem kmalloc_is_first_fit_witness:
  "kmalloc 200 sample_heap = Some (0, sample_heap)"
  using kmalloc_is_first_fit [OF sample_heap_inv, of 200] by (simp add: round16_def HEAP_ALIGN_def)

text \<open>
  C8: \<^verbatim>\<open>kfree\<close> undoes \<^verbatim>\<open>kmalloc\<close>.  On a heap without adjacent free blocks, freeing the pointer that was just allocated
  succeeds and restores the very same block list; adjacent free blocks are merged again.
\<close>

theorem kmalloc_kfree_round_trip:
  assumes "heap_inv h xs" and "no_adjacent_free xs" and "kmalloc sz h = Some (p, h1)" and "p \<noteq> 0"
  shows "\<exists>h2. kfree p h1 = Some h2 \<and> heap_inv h2 xs"
proof -
  have sz: "sz \<noteq> 0" "sz \<le> - 1 - (HEAP_ALIGN - 1)"
    using assms(3,4) by (auto simp: kmalloc_def not_less split: if_splits)
  obtain off ys where ff: "first_fit (round16 sz) xs = Some (off, ys)" and
    h1: "p = heap_head h + of_nat off" "heap_inv h1 ys" "heap_head h1 = heap_head h"
    using kmalloc_refines [OF assms(1) sz] assms(3,4) by (auto split: option.splits)
  obtain m where "(off, m) \<in> live 0 ys" using first_fit_live [OF ff, of 0] by auto
  from kfree_refines [OF h1(2) this] show ?thesis
    using first_fit_mark_free [OF ff assms(2), of 0] h1(1,3) by auto
qed

theorem kmalloc_kfree_round_trip_witness:
  "\<exists>h1 h2. kmalloc 20 sample_heap = Some (0x1020, h1) \<and> kfree 0x1020 h1 = Some h2 \<and> heap_inv h2 [(96, True)]"
proof -
  obtain h1 where m: "kmalloc 20 sample_heap = Some (0x1020, h1)"
    using kmalloc_refines [OF sample_heap_inv, of 20] by (auto simp: round16_def HEAP_ALIGN_def sample_heap_def)
  from kmalloc_kfree_round_trip [OF sample_heap_inv _ this] show ?thesis using m by auto
qed



text \<open>
  A double free is harmless.  Whatever pointer \<^verbatim>\<open>kfree\<close> was called with, calling it again with the same pointer returns and
  leaves the heap as the first call left it.
\<close>

lemma kfree_idempotent:
  assumes "kfree p h = Some h'"
  shows "kfree p h' = Some h'"
proof (cases "p = 0 \<or> blk_free (blocks h (p - HEAP_BLOCK_SIZE)) \<noteq> 0")
  case True
  then show ?thesis using assms by (auto simp: kfree_def csub_Some split: if_splits)
next
  case False
  let ?b = "p - HEAP_BLOCK_SIZE"
  obtain B' where b: "csub p HEAP_BLOCK_SIZE = Some ?b" and h': "h' = h\<lparr>blocks := B'\<rparr>"
    "coalesce_loop (heap_head h) ((blocks h)(?b := (blocks h ?b)\<lparr>blk_free := 1\<rparr>)) = Some B'"
    using assms False by (auto simp: kfree_def coalesce_def csub_Some split: if_splits)
  have "blk_free (B' ?b) = 1" using coalesce_keeps_free [OF h'(2), of ?b] by simp
  then show ?thesis using False b h'(1) by (simp add: kfree_def)
qed

end
