(* ===== verification/Smp.thy ===== *)
theory Smp
  imports Pinx_Prelude
begin

text \<open>
  Processor numbering of \<^verbatim>\<open>src/smp.rs\<close>.  The boot loader's answer is a parameter: the BSP's local APIC id and, per
  listed processor, \<open>None\<close> for a null pointer or the record it points to.  The tables are indexed densely, the
  hardware only knows APIC ids; \<^verbatim>\<open>discover\<close> and \<^verbatim>\<open>start_aps\<close> walk the same list and must agree on the index of a CPU.
  The bring-up calls of \<^verbatim>\<open>ap_entry\<close> are the subject of other theories.
\<close>

section \<open>State and operations\<close>

definition MAX_CPUS :: nat where "MAX_CPUS = 32"

record LimineSmpInfo =
  lapic_id :: u32
  goto_address :: bool
  extra_argument :: u64

record LimineSmpResponse =
  bsp_lapic_id :: u32
  cpus :: "LimineSmpInfo option list"

record smp =
  CPU_COUNT :: nat
  LAPIC_IDS :: "u32 list"

definition smp_start :: smp where
  "smp_start = \<lparr>CPU_COUNT = 1, LAPIC_IDS = replicate MAX_CPUS 0\<rparr>"

fun cpu_index_from :: "nat \<Rightarrow> u32 list \<Rightarrow> nat \<Rightarrow> u32 \<Rightarrow> nat option" where
  "cpu_index_from 0 ids i lid = None"
| "cpu_index_from (Suc n) ids i lid =
     (if ids ! i = lid then Some i else cpu_index_from n ids (Suc i) lid)"

text \<open>An unknown CPU is treated as the bootstrap processor.\<close>

definition cpu_index :: "u32 \<Rightarrow> smp \<Rightarrow> nat" where
  "cpu_index lid s = (case cpu_index_from (CPU_COUNT s) (LAPIC_IDS s) 0 lid of Some i \<Rightarrow> i | None \<Rightarrow> 0)"

text \<open>A processor is taken when it is listed, not the BSP, and a slot is left.\<close>

definition takes :: "u32 \<Rightarrow> LimineSmpInfo option \<Rightarrow> nat \<Rightarrow> bool" where
  "takes bsp info index \<longleftrightarrow> (case info of None \<Rightarrow> False | Some c \<Rightarrow> lapic_id c \<noteq> bsp) \<and> index < MAX_CPUS"

fun discover_loop :: "u32 \<Rightarrow> LimineSmpInfo option list \<Rightarrow> nat \<Rightarrow> u32 list \<Rightarrow> nat \<times> u32 list" where
  "discover_loop bsp [] index ids = (index, ids)"
| "discover_loop bsp (info # infos) index ids =
     (if takes bsp info index
      then discover_loop bsp infos (Suc index) (ids[index := lapic_id (the info)])
      else discover_loop bsp infos index ids)"

definition discover :: "u32 \<Rightarrow> LimineSmpResponse option \<Rightarrow> smp \<Rightarrow> smp" where
  "discover local_id response s = (case response of
      None \<Rightarrow> s\<lparr>CPU_COUNT := 1, LAPIC_IDS := (LAPIC_IDS s)[0 := local_id]\<rparr>
    | Some r \<Rightarrow>
        (let bsp = bsp_lapic_id r;
             (index, ids) = discover_loop bsp (cpus r) 1 ((LAPIC_IDS s)[0 := bsp])
         in s\<lparr>CPU_COUNT := index, LAPIC_IDS := ids\<rparr>))"

fun start_aps_loop :: "u32 \<Rightarrow> LimineSmpInfo option list \<Rightarrow> nat \<Rightarrow> LimineSmpInfo option list" where
  "start_aps_loop bsp [] index = []"
| "start_aps_loop bsp (info # infos) index =
     (if takes bsp info index
      then map_option (\<lambda>c. c\<lparr>goto_address := True, extra_argument := of_nat index\<rparr>) info #
           start_aps_loop bsp infos (Suc index)
      else info # start_aps_loop bsp infos index)"

definition start_aps :: "LimineSmpResponse option \<Rightarrow> LimineSmpResponse option" where
  "start_aps response = map_option (\<lambda>r. r\<lparr>cpus := start_aps_loop (bsp_lapic_id r) (cpus r) 1\<rparr>) response"

section \<open>The numbering\<close>

text \<open>The APIC ids of the processors the walk takes, in order.\<close>

fun taken :: "u32 \<Rightarrow> LimineSmpInfo option list \<Rightarrow> nat \<Rightarrow> u32 list" where
  "taken bsp [] index = []"
| "taken bsp (info # infos) index =
     (if takes bsp info index then lapic_id (the info) # taken bsp infos (Suc index) else taken bsp infos index)"

lemma taken_bound: "index \<le> MAX_CPUS \<Longrightarrow> index + length (taken bsp infos index) \<le> MAX_CPUS"
  by (induction bsp infos index rule: taken.induct) (auto simp: takes_def)

primrec listed_ids :: "LimineSmpInfo option list \<Rightarrow> u32 list" where
  "listed_ids [] = []"
| "listed_ids (info # infos) = (case info of None \<Rightarrow> listed_ids infos | Some c \<Rightarrow> lapic_id c # listed_ids infos)"

lemma taken_listed: "x \<in> set (taken bsp infos index) \<Longrightarrow> x \<noteq> bsp \<and> x \<in> set (listed_ids infos)"
  by (induction bsp infos index rule: taken.induct) (auto simp: takes_def split: option.splits if_splits)

lemma discover_loop_taken:
  "length ids = MAX_CPUS \<Longrightarrow> index \<le> MAX_CPUS \<Longrightarrow> discover_loop bsp infos index ids =
     (index + length (taken bsp infos index),
      take index ids @ taken bsp infos index @ drop (index + length (taken bsp infos index)) ids)"
proof (induction bsp infos index arbitrary: ids rule: taken.induct)
  case (2 bsp info infos index)
  show ?case
  proof (cases "takes bsp info index")
    case True
    then have "index < length ids" using 2 by (simp add: takes_def)
    then show ?thesis
      using 2 True by (simp add: take_Suc_conv_app_nth takes_def drop_update_swap)
  qed (use 2 in simp)
qed simp

lemma distinct_taken: "distinct (listed_ids infos) \<Longrightarrow> distinct (taken bsp infos index)"
  by (induction bsp infos index rule: taken.induct) (auto simp: takes_def dest: taken_listed split: option.splits)

lemma cpu_index_from_nth:
  "distinct ids \<Longrightarrow> i \<le> k \<Longrightarrow> k < i + n \<Longrightarrow> i + n \<le> length ids \<Longrightarrow> cpu_index_from n ids i (ids ! k) = Some k"
proof (induction n arbitrary: i)
  case (Suc n)
  then show ?case by (cases "i = k") (auto simp: nth_eq_iff_index_eq)
qed simp

lemma cpu_index_from_prefix:
  "i + n \<le> length as \<Longrightarrow> cpu_index_from n (as @ bs) i lid = cpu_index_from n as i lid"
  by (induction n arbitrary: i) (simp_all add: nth_append)

lemma start_aps_loop_numbers:
  assumes "Some c \<in> set (start_aps_loop bsp infos index)" "goto_address c"
    "\<And>d. Some d \<in> set infos \<Longrightarrow> \<not> goto_address d"
  shows "\<exists>k<length (taken bsp infos index). taken bsp infos index ! k = lapic_id c \<and> extra_argument c = of_nat (index + k)"
  using assms
proof (induction bsp infos index rule: taken.induct)
  case (2 bsp info infos index)
  show ?case
  proof (cases "takes bsp info index")
    case True
    then obtain d where d: "info = Some d" by (auto simp: takes_def split: option.splits)
    show ?thesis
    proof (cases "Some c \<in> set (start_aps_loop bsp infos (Suc index))")
      case True
      from 2(1) [OF \<open>takes bsp info index\<close> this 2(4)] 2(5) obtain k where
        "k < length (taken bsp infos (Suc index))" "taken bsp infos (Suc index) ! k = lapic_id c"
        "extra_argument c = of_nat (Suc index + k)" by auto
      then show ?thesis using \<open>takes bsp info index\<close> by (intro exI [of _ "Suc k"]) simp
    next
      case False
      then have "c = d\<lparr>goto_address := True, extra_argument := of_nat index\<rparr>" using 2(3) True d by simp
      then show ?thesis using True d by (intro exI [of _ 0]) simp
    qed
  next
    case False
    have "Some c \<noteq> info" using 2(4,5) by auto
    then show ?thesis using 2 False by simp
  qed
qed simp

text \<open>What \<^verbatim>\<open>discover\<close> leaves behind.\<close>

lemma discover_numbering:
  fixes r :: LimineSmpResponse
  defines "ids \<equiv> bsp_lapic_id r # taken (bsp_lapic_id r) (cpus r) 1"
  shows "CPU_COUNT (discover lid (Some r) smp_start) = length ids" "length ids \<le> MAX_CPUS"
    "\<exists>rest. LAPIC_IDS (discover lid (Some r) smp_start) = ids @ rest"
  using taken_bound [of 1 "bsp_lapic_id r" "cpus r"]
  by (simp_all add: discover_def smp_start_def discover_loop_taken ids_def MAX_CPUS_def Let_def)
    (simp add: take_Suc numeral_eq_Suc)

lemma cpu_index_of_taken:
  assumes "distinct (listed_ids (cpus r))"
    "k < Suc (length (taken (bsp_lapic_id r) (cpus r) 1))"
  shows "cpu_index ((bsp_lapic_id r # taken (bsp_lapic_id r) (cpus r) 1) ! k) (discover lid (Some r) smp_start) = k"
proof -
  let ?ids = "bsp_lapic_id r # taken (bsp_lapic_id r) (cpus r) 1"
  have "distinct ?ids"
    using distinct_taken [OF assms(1)] taken_listed [of "bsp_lapic_id r" "bsp_lapic_id r" "cpus r" 1] by auto
  then have "cpu_index_from (length ?ids) ?ids 0 (?ids ! k) = Some k"
    using assms(2) by (intro cpu_index_from_nth) simp_all
  moreover obtain rest where "LAPIC_IDS (discover lid (Some r) smp_start) = ?ids @ rest"
    using discover_numbering(3) by blast
  ultimately show ?thesis
    using cpu_index_from_prefix [of 0 "length ?ids" ?ids rest "?ids ! k"]
    by (simp only: cpu_index_def discover_numbering(1)) simp
qed

section \<open>Properties\<close>



end
