(* ===== verification/Spinlock.thy ===== *)
theory Spinlock
  imports Pinx_Prelude
begin

text \<open>
  The test-and-set spinlock of \<^verbatim>\<open>src/spinlock.rs\<close> and the interrupt-flag helpers of \<^verbatim>\<open>src/io.rs\<close> it is built like.  The lock is a
  state machine over any number of CPUs: each rule is one atomic action of the code (the flag save with
  \<^verbatim>\<open>cli\<close>, one \<^verbatim>\<open>swap\<close>, the releasing store, the \<^verbatim>\<open>popfq\<close>), interleaved in any order.
\<close>

section \<open>The interrupt flag\<close>

definition X86_FLAG_IF :: u64 where "X86_FLAG_IF = 0x200"

definition irq_disable :: "u64 \<Rightarrow> u64" where "irq_disable rflags = rflags AND NOT X86_FLAG_IF"

definition irq_enable :: "u64 \<Rightarrow> u64" where "irq_enable rflags = rflags OR X86_FLAG_IF"

definition irq_save :: "u64 \<Rightarrow> u64 \<times> u64" where
  "irq_save rflags = (rflags, irq_disable rflags)"

definition irq_restore :: "u64 \<Rightarrow> u64 \<Rightarrow> u64" where
  "irq_restore flags rflags = (if flags AND X86_FLAG_IF \<noteq> 0 then irq_enable rflags else rflags)"

definition irqs_on :: "u64 \<Rightarrow> bool" where
  "irqs_on rflags \<longleftrightarrow> rflags AND X86_FLAG_IF \<noteq> 0"

lemma irqs_on_bit: "irqs_on x \<longleftrightarrow> bit x 9"
  using and_exp_eq_0_iff_not_bit [of x 9] by (simp add: irqs_on_def X86_FLAG_IF_def)

lemma irqs_on_ops [simp]:
  "\<not> irqs_on (irq_disable x)" "irqs_on (irq_enable x)"
proof -
  have "(0x200 :: u64) = 2 ^ 9" by simp
  then have "bit (0x200 :: u64) 9" by (simp only: bit_exp_iff) simp
  then show "\<not> irqs_on (irq_disable x)" "irqs_on (irq_enable x)"
    by (simp_all only: irqs_on_bit irq_disable_def irq_enable_def X86_FLAG_IF_def bit_and_iff bit_or_iff bit_not_iff) auto
qed

section \<open>The lock\<close>

datatype lock_pc = Outside | Spinning u64 | Holding u64 | Restoring u64

record lock_sys =
  locked :: bool
  pc :: "nat \<Rightarrow> lock_pc"
  rflags :: "nat \<Rightarrow> u64"

definition lock_new :: "(nat \<Rightarrow> u64) \<Rightarrow> lock_sys" where
  "lock_new fl = \<lparr>locked = False, pc = (\<lambda>_. Outside), rflags = fl\<rparr>"

text \<open>\<^verbatim>\<open>lock\<close>: save the flags with interrupts disabled, then swap until the old value was false.\<close>

definition lock_enter :: "nat \<Rightarrow> lock_sys \<Rightarrow> lock_sys" where
  "lock_enter c s = s\<lparr>pc := (pc s)(c := Spinning (rflags s c)), rflags := (rflags s)(c := irq_disable (rflags s c))\<rparr>"

definition lock_swap :: "nat \<Rightarrow> u64 \<Rightarrow> lock_sys \<Rightarrow> lock_sys" where
  "lock_swap c flags s =
     (if locked s then s\<lparr>locked := True\<rparr> else s\<lparr>locked := True, pc := (pc s)(c := Holding flags)\<rparr>)"

text \<open>\<^verbatim>\<open>drop\<close>: store false, then restore the flags.\<close>

definition guard_store :: "nat \<Rightarrow> u64 \<Rightarrow> lock_sys \<Rightarrow> lock_sys" where
  "guard_store c flags s = s\<lparr>locked := False, pc := (pc s)(c := Restoring flags)\<rparr>"

definition guard_popfq :: "nat \<Rightarrow> u64 \<Rightarrow> lock_sys \<Rightarrow> lock_sys" where
  "guard_popfq c flags s = s\<lparr>pc := (pc s)(c := Outside), rflags := (rflags s)(c := flags)\<rparr>"

inductive lock_step :: "lock_sys \<Rightarrow> lock_sys \<Rightarrow> bool" where
  enter: "pc s c = Outside \<Longrightarrow> lock_step s (lock_enter c s)"
| swap: "pc s c = Spinning flags \<Longrightarrow> lock_step s (lock_swap c flags s)"
| store: "pc s c = Holding flags \<Longrightarrow> lock_step s (guard_store c flags s)"
| popfq: "pc s c = Restoring flags \<Longrightarrow> lock_step s (guard_popfq c flags s)"
| elsewhere: "pc s c = Outside \<Longrightarrow> lock_step s (s\<lparr>rflags := (rflags s)(c := fl)\<rparr>)"

inductive lock_reach :: "lock_sys \<Rightarrow> bool" where
  start: "lock_reach (lock_new fl)"
| step: "lock_reach s \<Longrightarrow> lock_step s s' \<Longrightarrow> lock_reach s'"

definition holds :: "lock_sys \<Rightarrow> nat \<Rightarrow> bool" where
  "holds s c \<longleftrightarrow> (\<exists>flags. pc s c = Holding flags)"

definition lock_inv :: "lock_sys \<Rightarrow> bool" where
  "lock_inv s \<longleftrightarrow> (locked s \<longleftrightarrow> (\<exists>c. holds s c)) \<and> (\<forall>c d. holds s c \<and> holds s d \<longrightarrow> c = d) \<and>
     (\<forall>c. pc s c \<noteq> Outside \<longrightarrow> \<not> irqs_on (rflags s c))"

lemma lock_inv_new: "lock_inv (lock_new fl)"
  by (simp add: lock_inv_def lock_new_def holds_def)

lemma lock_inv_step: "lock_step s s' \<Longrightarrow> lock_inv s \<Longrightarrow> lock_inv s'"
proof (induction rule: lock_step.induct)
  case (swap s c flags)
  show ?case
  proof (cases "locked s")
    case True
    then have "lock_swap c flags s = s" by (simp add: lock_swap_def)
    then show ?thesis using swap by simp
  next
    case False
    then have none: "\<not> holds s d" for d using swap by (auto simp: lock_inv_def)
    have irq: "\<not> irqs_on (rflags s d)" if "pc s d \<noteq> Outside" for d using swap that by (simp add: lock_inv_def)
    have "holds (lock_swap c flags s) d \<longleftrightarrow> d = c" for d
      using none [of d] False by (simp add: lock_swap_def holds_def)
    then show ?thesis
      using irq irq [of c] False swap(1) by (simp add: lock_inv_def lock_swap_def)
  qed
next
  case (store s c flags)
  then have h: "holds s d \<longleftrightarrow> d = c" for d by (auto simp: lock_inv_def holds_def)
  have "\<not> holds (guard_store c flags s) d" for d
    using h [of d] by (auto simp: guard_store_def holds_def)
  then show ?case using store by (auto simp: lock_inv_def guard_store_def)
next
  case (enter s c)
  have h: "holds (lock_enter c s) = holds s" using enter(1) by (simp add: fun_eq_iff lock_enter_def holds_def)
  show ?case using enter(2) unfolding lock_inv_def h by (simp add: lock_enter_def)
next
  case (popfq s c flags)
  have h: "holds (guard_popfq c flags s) = holds s" using popfq(1) by (simp add: fun_eq_iff guard_popfq_def holds_def)
  show ?case using popfq(2) unfolding lock_inv_def h by (simp add: guard_popfq_def)
next
  case (elsewhere s c fl)
  have h: "holds (s\<lparr>rflags := (rflags s)(c := fl)\<rparr>) = holds s" by (simp add: fun_eq_iff holds_def)
  show ?case using elsewhere unfolding lock_inv_def h by simp
qed

lemma lock_reach_inv: "lock_reach s \<Longrightarrow> lock_inv s"
  by (induction rule: lock_reach.induct) (auto intro: lock_inv_new lock_inv_step)

section \<open>Properties\<close>



end
