(* ===== verification/Gdt.thy ===== *)
theory Gdt
  imports Smp
begin

text \<open>
  Descriptor tables of \<^verbatim>\<open>src/gdt.rs\<close>: the packed descriptor layouts, the per-CPU table with its TSS, and the ring-0 stack a
  trap from ring 3 switches to.  Addresses of statics are parameters: \<open>tss_addr\<close> is where a CPU's TSS lives and
  \<open>stack_base\<close> where its ring-0 stack starts.  Loading the registers (\<^verbatim>\<open>lgdt\<close>, \<^verbatim>\<open>ltr\<close>) has no counterpart.
\<close>

section \<open>Layouts\<close>

record GdtEntry =
  limit_low :: u16
  base_low :: u16
  base_middle :: u8
  access :: u8
  granularity :: u8
  base_high :: u8

record TssDescriptor =
  td_limit_low :: u16
  td_base_low :: u16
  td_base_middle :: u8
  td_access :: u8
  td_flags :: u8
  td_base_high :: u8
  td_base_upper :: u32
  td_reserved :: u32

record Tss =
  rsp0 :: u64
  iomap_base :: u16

definition ZERO_ENTRY :: GdtEntry where
  "ZERO_ENTRY = \<lparr>limit_low = 0, base_low = 0, base_middle = 0, access = 0, granularity = 0, base_high = 0\<rparr>"

definition KERNEL_CODE_SELECTOR :: u16 where "KERNEL_CODE_SELECTOR = 0x08"
definition KERNEL_DATA_SELECTOR :: u16 where "KERNEL_DATA_SELECTOR = 0x10"
definition USER_CODE_SELECTOR :: u16 where "USER_CODE_SELECTOR = 0x18 OR 3"
definition USER_DATA_SELECTOR :: u16 where "USER_DATA_SELECTOR = 0x20 OR 3"
definition RING0_STACK_SIZE :: u64 where "RING0_STACK_SIZE = 16 * 1024"

text \<open>The size of the packed TSS: 4 + 3*8 + 8 + 7*8 + 8 + 2 + 2 bytes.\<close>

definition TSS_SIZE :: nat where "TSS_SIZE = 104"

section \<open>Operations\<close>

definition set_entry :: "u32 \<Rightarrow> u32 \<Rightarrow> u8 \<Rightarrow> u8 \<Rightarrow> GdtEntry" where
  "set_entry base limit acc gran =
     \<lparr>limit_low = ucast (limit AND 0xFFFF), base_low = ucast (base AND 0xFFFF),
      base_middle = ucast (drop_bit 16 base AND 0xFF), access = acc,
      granularity = ucast (drop_bit 16 limit AND 0x0F) OR (gran AND 0xF0),
      base_high = ucast (drop_bit 24 base AND 0xFF)\<rparr>"

definition set_tss_entry :: "u64 \<Rightarrow> u32 \<Rightarrow> TssDescriptor" where
  "set_tss_entry base limit =
     \<lparr>td_limit_low = ucast (limit AND 0xFFFF), td_base_low = ucast (base AND 0xFFFF),
      td_base_middle = ucast (drop_bit 16 base AND 0xFF), td_access = 0x89,
      td_flags = ucast (drop_bit 16 limit AND 0x0F), td_base_high = ucast (drop_bit 24 base AND 0xFF),
      td_base_upper = ucast (drop_bit 32 base), td_reserved = 0\<rparr>"

definition kstack_top :: "(nat \<Rightarrow> u64) \<Rightarrow> nat \<Rightarrow> u64 option" where
  "kstack_top stack_base cpu = do { t \<leftarrow> cadd (stack_base cpu) RING0_STACK_SIZE; Some (t AND NOT 0xF) }"

text \<open>The first five slots of a CPU's table, and the descriptor that fills slots 5 and 6.\<close>

record cpu_gdt =
  entries :: "GdtEntry list"
  tss_entry :: TssDescriptor
  tss :: Tss

definition gdt_init_cpu :: "(nat \<Rightarrow> u64) \<Rightarrow> (nat \<Rightarrow> u64) \<Rightarrow> nat \<Rightarrow> cpu_gdt option" where
  "gdt_init_cpu stack_base tss_addr cpu = do {
     top \<leftarrow> kstack_top stack_base cpu;
     Some \<lparr>entries = [set_entry 0 0 0x00 0x00, set_entry 0 0 0x9A 0xA0, set_entry 0 0 0x92 0x00,
                      set_entry 0 0 0xFA 0xA0, set_entry 0 0 0xF2 0x00],
           tss_entry = set_tss_entry (tss_addr cpu) (of_nat (TSS_SIZE - 1)),
           tss = \<lparr>rsp0 = top, iomap_base = of_nat TSS_SIZE\<rparr>\<rparr>
   }"

text \<open>\<^verbatim>\<open>set_kernel_stack\<close>, on the array of TSSs.\<close>

definition set_kernel_stack :: "nat \<Rightarrow> u64 \<Rightarrow> (nat \<Rightarrow> Tss) \<Rightarrow> nat \<Rightarrow> Tss" where
  "set_kernel_stack cpu r t = t(cpu := (t cpu)\<lparr>rsp0 := r\<rparr>)"

section \<open>How the processor reads a descriptor\<close>

definition desc_base :: "GdtEntry \<Rightarrow> u32" where
  "desc_base e = ucast (base_low e) OR push_bit 16 (ucast (base_middle e)) OR push_bit 24 (ucast (base_high e))"

definition desc_limit :: "GdtEntry \<Rightarrow> u32" where
  "desc_limit e = ucast (limit_low e) OR push_bit 16 (ucast (granularity e AND 0x0F))"

definition tss_base :: "TssDescriptor \<Rightarrow> u64" where
  "tss_base d = ucast (td_base_low d) OR push_bit 16 (ucast (td_base_middle d)) OR
     push_bit 24 (ucast (td_base_high d)) OR push_bit 32 (ucast (td_base_upper d))"

definition tss_limit :: "TssDescriptor \<Rightarrow> u32" where
  "tss_limit d = ucast (td_limit_low d) OR push_bit 16 (ucast (td_flags d AND 0x0F))"

text \<open>Descriptor privilege level, and the long-mode bit of a code descriptor.\<close>

definition dpl :: "GdtEntry \<Rightarrow> nat" where "dpl e = unat (drop_bit 5 (access e) AND 3)"
definition long_mode :: "GdtEntry \<Rightarrow> bool" where "long_mode e \<longleftrightarrow> bit (granularity e) 5"

lemma byte_masks:
  "(0xFF :: 'a::len word) = mask 8" "(0xFFFF :: 'a word) = mask 16" "(0x0F :: 'a word) = mask 4"
  by (simp_all add: mask_eq_exp_minus_1)

lemma bit_u64_length: "bit x n \<Longrightarrow> n < 64" for x :: u64
  using bit_imp_le_length by fastforce

lemma bit_u32_length: "bit x n \<Longrightarrow> n < 32" for x :: u32
  using bit_imp_le_length by fastforce

lemma tss_base_set: "tss_base (set_tss_entry base limit) = base"
proof (rule bit_word_eqI)
  fix n assume n: "n < LENGTH(64)"
  consider "n < 16" | "16 \<le> n" "n < 24" | "24 \<le> n" "n < 32" | "32 \<le> n" by linarith
  then show "bit (tss_base (set_tss_entry base limit)) n = bit base n"
    by cases (use n in \<open>auto simp: tss_base_def set_tss_entry_def byte_masks bit_simps\<close>)
qed

lemma desc_base_set: "desc_base (set_entry base limit a g) = base"
proof (rule bit_word_eqI)
  fix n assume n: "n < LENGTH(32)"
  consider "n < 16" | "16 \<le> n" "n < 24" | "24 \<le> n" by linarith
  then show "bit (desc_base (set_entry base limit a g)) n = bit base n"
    by cases (use n in \<open>auto simp: desc_base_def set_entry_def byte_masks bit_simps\<close>)
qed

lemma tss_limit_set: "limit < 2 ^ 20 \<Longrightarrow> tss_limit (set_tss_entry base limit) = limit"
proof (rule bit_word_eqI)
  fix n assume n: "n < LENGTH(32)" and l: "limit < 2 ^ 20"
  consider "n < 16" | "16 \<le> n" "n < 20" | "20 \<le> n" by linarith
  then show "bit (tss_limit (set_tss_entry base limit)) n = bit limit n"
    by cases (use n bit_less_exp [OF l, of n] in \<open>auto simp: tss_limit_def set_tss_entry_def byte_masks bit_simps\<close>)
qed

text \<open>Selectors with their requested privilege level, the low two bits.\<close>

definition selected :: "u16 \<Rightarrow> cpu_gdt \<Rightarrow> GdtEntry" where
  "selected sel g = entries g ! unat (drop_bit 3 sel)"

section \<open>Properties\<close>

text \<open>
  C38: the descriptor tables say what they mean.  After \<^verbatim>\<open>init_cpu\<close> the processor reads the address and limit of the CPU's own
  TSS back from the split descriptor, every selector the kernel uses names a descriptor of its own privilege
  level, code descriptors are long-mode ones, and \<open>RSP0\<close> is the 16-byte aligned top of the CPU's own stack.
\<close>

theorem gdt_init_cpu_ok:
  assumes "gdt_init_cpu stack_base tss_addr cpu = Some g"
  shows "tss_base (tss_entry g) = tss_addr cpu \<and> tss_limit (tss_entry g) = 103 \<and>
    (\<forall>sel\<in>{KERNEL_CODE_SELECTOR, KERNEL_DATA_SELECTOR, USER_CODE_SELECTOR, USER_DATA_SELECTOR}.
       dpl (selected sel g) = unat (sel AND 3)) \<and>
    long_mode (selected KERNEL_CODE_SELECTOR g) \<and> long_mode (selected USER_CODE_SELECTOR g) \<and>
    rsp0 (tss g) = (stack_base cpu + RING0_STACK_SIZE) AND NOT 0xF \<and> rsp0 (tss g) AND 0xF = 0"
proof -
  let ?es = "[set_entry 0 0 0x00 0x00, set_entry 0 0 0x9A 0xA0, set_entry 0 0 0x92 0x00,
    set_entry 0 0 0xFA 0xA0, set_entry 0 0 0xF2 0x00]"
  have g: "entries g = ?es" "tss_entry g = set_tss_entry (tss_addr cpu) 103"
    "rsp0 (tss g) = (stack_base cpu + RING0_STACK_SIZE) AND NOT 0xF"
    using assms by (auto simp: gdt_init_cpu_def kstack_top_def cadd_Some TSS_SIZE_def)
  have "(x AND NOT 0xF) AND 0xF = 0" for x :: u64 by (simp only: and.assoc) simp
  then show ?thesis
    unfolding g selected_def
    by (simp add: tss_base_set tss_limit_set KERNEL_CODE_SELECTOR_def KERNEL_DATA_SELECTOR_def USER_CODE_SELECTOR_def
        USER_DATA_SELECTOR_def set_entry_def dpl_def long_mode_def)
qed

theorem gdt_init_cpu_ok_witness:
  "\<exists>g. gdt_init_cpu (\<lambda>_. 0x1008) (\<lambda>_. 0xFFFF800000123456) 0 = Some g \<and> tss_base (tss_entry g) = 0xFFFF800000123456"
proof -
  obtain g where g: "gdt_init_cpu (\<lambda>_. 0x1008) (\<lambda>_. 0xFFFF800000123456) 0 = Some g"
    by (simp add: gdt_init_cpu_def kstack_top_def cadd_def RING0_STACK_SIZE_def)
  then show ?thesis using gdt_init_cpu_ok [OF g] by simp
qed

end
