(* ===== verification/Scheduler.thy ===== *)
theory Scheduler
  imports Heap Gdt
begin

text \<open>
  The preemptive scheduler of \<^verbatim>\<open>src/scheduler.rs\<close>.  Every operation holds the run-queue lock from start to end, so each is one
  atomic step; \<^verbatim>\<open>cpu\<close> is the index \<^verbatim>\<open>smp::cpu_index\<close> gave the calling CPU.  A task pointer is the slot it points to.
  Kernel stacks are an explicit store of 64-bit cells, so a saved context is the address of its frame.
\<close>

section \<open>State\<close>

definition MAX_TASKS :: nat where "MAX_TASKS = 64"
definition KERNEL_STACK_SIZE :: u64 where "KERNEL_STACK_SIZE = 64 * 1024"
definition FRAME_WORDS :: nat where "FRAME_WORDS = 22"
definition SYSCALL_VECTOR :: u64 where "SYSCALL_VECTOR = 0x80"
definition TIMER_VECTOR :: u8 where "TIMER_VECTOR = 32"

datatype TaskState = Unused | Ready | Running | Blocked | Dead

datatype TaskKind = User | Idle

record Task =
  state :: TaskState
  kind :: TaskKind
  cpu :: nat
  frame :: u64
  kstack :: u64
  wake_tick :: u64
  wait_input :: bool

definition EMPTY_TASK :: Task where
  "EMPTY_TASK = \<lparr>state = Unused, kind = Idle, cpu = 0, frame = 0, kstack = 0, wake_tick = 0, wait_input = False\<rparr>"

datatype task_ptr = Slot nat | IdleSlot nat

record PerCpu =
  current :: "task_ptr option"
  deferred :: "task_ptr option"

record sched =
  INITIALIZED :: bool
  TASKS :: "nat \<Rightarrow> Task"
  IDLE :: "nat \<Rightarrow> Task"
  PERCPU :: "nat \<Rightarrow> PerCpu"
  TSS :: "nat \<Rightarrow> Tss"
  stacks :: "u64 \<Rightarrow> u64"

primrec task :: "sched \<Rightarrow> task_ptr \<Rightarrow> Task" where
  "task s (Slot i) = TASKS s i"
| "task s (IdleSlot c) = IDLE s c"

primrec set_task :: "task_ptr \<Rightarrow> Task \<Rightarrow> sched \<Rightarrow> sched" where
  "set_task (Slot i) t s = s\<lparr>TASKS := (TASKS s)(i := t)\<rparr>"
| "set_task (IdleSlot c) t s = s\<lparr>IDLE := (IDLE s)(c := t)\<rparr>"

definition set_per :: "nat \<Rightarrow> PerCpu \<Rightarrow> sched \<Rightarrow> sched" where
  "set_per c p s = s\<lparr>PERCPU := (PERCPU s)(c := p)\<rparr>"

lemma set_task_simps [simp]:
  "TASKS (set_task p t s) i = (if p = Slot i then t else TASKS s i)"
  "IDLE (set_task p t s) c = (if p = IdleSlot c then t else IDLE s c)"
  "PERCPU (set_task p t s) = PERCPU s" "TSS (set_task p t s) = TSS s"
  "INITIALIZED (set_task p t s) = INITIALIZED s" "stacks (set_task p t s) = stacks s"
  "task (set_task p t s) q = (if p = q then t else task s q)"
  by (cases p; simp; fail | cases p; cases q; simp)+

lemma set_per_simps [simp]:
  "TASKS (set_per c p s) = TASKS s" "IDLE (set_per c p s) = IDLE s" "TSS (set_per c p s) = TSS s"
  "INITIALIZED (set_per c p s) = INITIALIZED s" "stacks (set_per c p s) = stacks s"
  "PERCPU (set_per c p s) = (PERCPU s)(c := p)" "task (set_per c p s) q = task s q"
  by (simp_all add: set_per_def) (cases q; simp)

section \<open>Frames\<close>

definition frame_at :: "u64 \<Rightarrow> u64 option" where
  "frame_at stk_top = csub stk_top (of_nat (FRAME_WORDS * 8))"

text \<open>Consecutive 64-bit cells from an address.\<close>

fun store_words :: "u64 \<Rightarrow> u64 list \<Rightarrow> (u64 \<Rightarrow> u64) \<Rightarrow> u64 \<Rightarrow> u64" where
  "store_words a [] m = m"
| "store_words a (w # ws) m = store_words (a + 8) ws (m(a := w))"

definition build_user_frame :: "u64 \<Rightarrow> u64 \<Rightarrow> u64 \<Rightarrow> (u64 \<Rightarrow> u64) \<Rightarrow> (u64 \<times> (u64 \<Rightarrow> u64)) option" where
  "build_user_frame stk_top entry stack m = do {
     f \<leftarrow> frame_at stk_top;
     Some (f, store_words f (replicate 15 0 @ [SYSCALL_VECTOR, 0, entry, ucast USER_CODE_SELECTOR, 0x202, stack,
                                               ucast USER_DATA_SELECTOR]) m)
   }"

definition build_idle_frame :: "u64 \<Rightarrow> u64 \<Rightarrow> (u64 \<Rightarrow> u64) \<Rightarrow> (u64 \<times> (u64 \<Rightarrow> u64)) option" where
  "build_idle_frame idle_loop stk_top m = do {
     f \<leftarrow> frame_at stk_top;
     Some (f, store_words f (replicate 15 0 @ [ucast TIMER_VECTOR, 0, idle_loop, ucast KERNEL_CODE_SELECTOR, 0x202,
                                               stk_top, ucast KERNEL_DATA_SELECTOR]) m)
   }"

section \<open>Operations\<close>

fun pick_from :: "nat list \<Rightarrow> task_ptr option \<Rightarrow> sched \<Rightarrow> task_ptr option" where
  "pick_from [] cur s = None"
| "pick_from (i # is) cur s =
     (if state (TASKS s i) = Ready \<and> cur \<noteq> Some (Slot i) then Some (Slot i) else pick_from is cur s)"

definition pick :: "task_ptr option \<Rightarrow> sched \<Rightarrow> task_ptr option" where
  "pick cur s = pick_from [0..<MAX_TASKS] cur s"

text \<open>One idle task per CPU; \<open>idle_loop\<close> is the address of the idle loop.\<close>

fun init_idle :: "u64 \<Rightarrow> (nat \<Rightarrow> u64) \<Rightarrow> nat list \<Rightarrow> sched \<Rightarrow> sched option" where
  "init_idle idle_loop stack_base [] s = Some s"
| "init_idle idle_loop stack_base (c # cs) s = do {
     stk_top \<leftarrow> kstack_top stack_base c;
     (f, m) \<leftarrow> build_idle_frame idle_loop stk_top (stacks s);
     init_idle idle_loop stack_base cs (s\<lparr>stacks := m, IDLE := (IDLE s)(c := (IDLE s c)
       \<lparr>state := Unused, kind := Idle, cpu := c, kstack := stk_top, frame := f\<rparr>)\<rparr>)
   }"

definition init_global :: "u64 \<Rightarrow> (nat \<Rightarrow> u64) \<Rightarrow> nat \<Rightarrow> sched \<Rightarrow> sched option" where
  "init_global idle_loop stack_base cpu_count s = do {
     s \<leftarrow> init_idle idle_loop stack_base [0..<cpu_count]
            (s\<lparr>TASKS := (\<lambda>i. if i < MAX_TASKS then EMPTY_TASK else TASKS s i)\<rparr>);
     Some (s\<lparr>INITIALIZED := True\<rparr>)
   }"

definition init_cpu :: "nat \<Rightarrow> sched \<Rightarrow> sched" where
  "init_cpu c s =
     (let idle = (IDLE s c)\<lparr>state := Running\<rparr> in
      s\<lparr>IDLE := (IDLE s)(c := idle),
        PERCPU := (PERCPU s)(c := \<lparr>current = Some (IdleSlot c), deferred = None\<rparr>),
        TSS := set_kernel_stack c (kstack idle) (TSS s)\<rparr>)"

fun find_unused :: "nat list \<Rightarrow> sched \<Rightarrow> nat option" where
  "find_unused [] s = None"
| "find_unused (i # is) s = (if state (TASKS s i) \<noteq> Unused then find_unused is s else Some i)"

text \<open>The part of \<^verbatim>\<open>spawn_user\<close> under the lock, with the top of the new kernel stack.\<close>

definition spawn_slot :: "u64 \<Rightarrow> u64 \<Rightarrow> u64 \<Rightarrow> sched \<Rightarrow> (nat option \<times> sched) option" where
  "spawn_slot stk_top entry user_stack s = (case find_unused [0..<MAX_TASKS] s of
      None \<Rightarrow> Some (None, s)
    | Some i \<Rightarrow> do {
        (f, m) \<leftarrow> build_user_frame stk_top entry user_stack (stacks s);
        Some (Some i, s\<lparr>stacks := m, TASKS := (TASKS s)(i :=
          \<lparr>state = Ready, kind = User, cpu = 0, frame = f, kstack = stk_top, wake_tick = 0, wait_input = False\<rparr>)\<rparr>)
      })"

definition spawn_user :: "u64 \<Rightarrow> u64 \<Rightarrow> heap \<times> sched \<Rightarrow> (nat option \<times> heap \<times> sched) option" where
  "spawn_user entry user_stack = (\<lambda>(h, s). do {
     (stack, h) \<leftarrow> kmalloc KERNEL_STACK_SIZE h;
     if stack = 0 then Some (None, h, s)
     else do {
       e \<leftarrow> cadd stack KERNEL_STACK_SIZE;
       (pid, s) \<leftarrow> spawn_slot (e AND NOT 0xF) entry user_stack s;
       Some (pid, h, s)
     }
   })"

definition update_current :: "nat \<Rightarrow> (Task \<Rightarrow> Task) \<Rightarrow> sched \<Rightarrow> sched" where
  "update_current c f s = (case current (PERCPU s c) of None \<Rightarrow> s | Some p \<Rightarrow> set_task p (f (task s p)) s)"

definition mark_current_dead :: "nat \<Rightarrow> sched \<Rightarrow> sched" where
  "mark_current_dead c = update_current c (\<lambda>t. t\<lparr>state := Dead\<rparr>)"

definition block_current_until :: "nat \<Rightarrow> u64 \<Rightarrow> sched \<Rightarrow> sched" where
  "block_current_until c tick = update_current c (\<lambda>t. t\<lparr>state := Blocked, wake_tick := tick, wait_input := False\<rparr>)"

definition block_current_input :: "nat \<Rightarrow> sched \<Rightarrow> sched" where
  "block_current_input c = update_current c (\<lambda>t. t\<lparr>state := Blocked, wake_tick := 0, wait_input := True\<rparr>)"

definition map_tasks :: "(Task \<Rightarrow> Task) \<Rightarrow> sched \<Rightarrow> sched" where
  "map_tasks f s = s\<lparr>TASKS := (\<lambda>i. if i < MAX_TASKS then f (TASKS s i) else TASKS s i)\<rparr>"

definition wake_sleepers :: "u64 \<Rightarrow> sched \<Rightarrow> sched" where
  "wake_sleepers now = map_tasks (\<lambda>t.
     if state t = Blocked \<and> \<not> wait_input t \<and> wake_tick t \<noteq> 0 \<and> wake_tick t \<le> now
     then t\<lparr>state := Ready, wake_tick := 0\<rparr> else t)"

definition wake_input_waiters :: "sched \<Rightarrow> sched" where
  "wake_input_waiters = map_tasks (\<lambda>t.
     if state t = Blocked \<and> wait_input t then t\<lparr>state := Ready, wait_input := False\<rparr> else t)"

text \<open>\<^verbatim>\<open>schedule\<close>: the frame to resume and the new state.\<close>

definition publish_deferred :: "nat \<Rightarrow> sched \<Rightarrow> sched" where
  "publish_deferred c s = (case deferred (PERCPU s c) of
      None \<Rightarrow> s
    | Some d \<Rightarrow> set_per c ((PERCPU s c)\<lparr>deferred := None\<rparr>) (set_task d ((task s d)\<lparr>state := Ready\<rparr>) s))"

definition running_user :: "task_ptr option \<Rightarrow> sched \<Rightarrow> bool" where
  "running_user cur s = (case cur of None \<Rightarrow> False | Some p \<Rightarrow> kind (task s p) = User \<and> state (task s p) = Running)"

definition switch_to :: "nat \<Rightarrow> task_ptr option \<Rightarrow> task_ptr \<Rightarrow> sched \<Rightarrow> u64 \<times> sched" where
  "switch_to c cur nxt s =
     (let s = (if Some nxt \<noteq> cur then
                 (let s = (if running_user cur s then set_per c ((PERCPU s c)\<lparr>deferred := cur\<rparr>) s else s);
                      s = set_per c ((PERCPU s c)\<lparr>current := Some nxt\<rparr>) s
                  in s\<lparr>TSS := set_kernel_stack c (kstack (task s nxt)) (TSS s)\<rparr>)
               else s);
          s = set_task nxt ((task s nxt)\<lparr>state := Running, cpu := c\<rparr>) s
      in (frame (task s nxt), s))"

definition schedule :: "nat \<Rightarrow> u64 \<Rightarrow> sched \<Rightarrow> u64 \<times> sched" where
  "schedule c f s =
     (if \<not> INITIALIZED s then (f, s)
      else let s = publish_deferred c s;
               cur = current (PERCPU s c);
               s = update_current c (\<lambda>t. t\<lparr>frame := f\<rparr>) s
           in case pick cur s of
                Some nxt \<Rightarrow> switch_to c cur nxt s
              | None \<Rightarrow>
                  if running_user cur s then switch_to c cur (the cur) s
                  else if (case cur of None \<Rightarrow> False | Some p \<Rightarrow> kind (task s p) = Idle) then (f, s)
                  else switch_to c cur (IdleSlot c) s)"

section \<open>The scheduler as a state machine\<close>

text \<open>
  The kernel's uses of the scheduler, each as one step: a CPU comes up, a task is spawned, the timer fires, a task
  yields, exits, sleeps or waits for input, a key arrives.  System calls are made by user tasks.  Here
  blocking and the following \<^verbatim>\<open>schedule\<close> are one step, as on a single CPU with interrupts off.
\<close>

inductive sched_step :: "sched \<Rightarrow> sched \<Rightarrow> bool" where
  boot: "current (PERCPU s c) = None \<Longrightarrow> sched_step s (init_cpu c s)"
| spawn: "spawn_slot stk_top entry user_stack s = Some (pid, s') \<Longrightarrow> sched_step s s'"
| timer: "sched_step s (snd (schedule c f (wake_sleepers now s)))"
| yield: "sched_step s (snd (schedule c f s))"
| exit: "current (PERCPU s c) = Some (Slot i) \<Longrightarrow> sched_step s (snd (schedule c f (mark_current_dead c s)))"
| sleep: "current (PERCPU s c) = Some (Slot i) \<Longrightarrow> sched_step s (snd (schedule c f (block_current_until c tick s)))"
| wait: "current (PERCPU s c) = Some (Slot i) \<Longrightarrow> sched_step s (snd (schedule c f (block_current_input c s)))"
| key: "sched_step s (wake_input_waiters s)"

inductive sched_reach :: "sched \<Rightarrow> sched \<Rightarrow> bool" for s0 where
  start: "sched_reach s0 s0"
| step: "sched_reach s0 s \<Longrightarrow> sched_step s s' \<Longrightarrow> sched_reach s0 s'"

abbreviation cur :: "sched \<Rightarrow> nat \<Rightarrow> task_ptr option" where "cur s c \<equiv> current (PERCPU s c)"
abbreviation dfr :: "sched \<Rightarrow> nat \<Rightarrow> task_ptr option" where "dfr s c \<equiv> deferred (PERCPU s c)"
abbreviation st :: "sched \<Rightarrow> nat \<Rightarrow> TaskState" where "st s i \<equiv> state (TASKS s i)"

text \<open>
  The invariant, with one CPU \<open>oc\<close> possibly inside an operation: its current task may already be marked dead
  or blocked.  \<open>None\<close> means that no CPU is inside an operation.
\<close>

definition sched_inv_at :: "nat option \<Rightarrow> sched \<Rightarrow> bool" where
  "sched_inv_at oc s \<longleftrightarrow> INITIALIZED s \<and>
     (\<forall>c p. cur s c = Some p \<longrightarrow> (\<exists>i<MAX_TASKS. p = Slot i) \<or> p = IdleSlot c) \<and>
     (\<forall>c i. cur s c = Some (Slot i) \<longrightarrow> st s i \<notin> {Ready, Unused} \<and> (oc \<noteq> Some c \<longrightarrow> st s i = Running)) \<and>
     (\<forall>c d i. cur s c = Some (Slot i) \<longrightarrow> cur s d = Some (Slot i) \<longrightarrow> c = d) \<and>
     (\<forall>c p. dfr s c = Some p \<longrightarrow> (\<exists>i<MAX_TASKS. p = Slot i \<and> st s i = Running)) \<and>
     (\<forall>c d i. dfr s c = Some (Slot i) \<longrightarrow> cur s d \<noteq> Some (Slot i)) \<and>
     (\<forall>c d i. dfr s c = Some (Slot i) \<longrightarrow> dfr s d = Some (Slot i) \<longrightarrow> c = d) \<and>
     (\<forall>i<MAX_TASKS. st s i = Running \<longrightarrow> (\<exists>c. cur s c = Some (Slot i) \<or> dfr s c = Some (Slot i))) \<and>
     (\<forall>c. cur s c = None \<longrightarrow> dfr s c = None) \<and>
     (\<forall>c. kind (IDLE s c) = Idle) \<and> (\<forall>i<MAX_TASKS. st s i \<noteq> Unused \<longrightarrow> kind (TASKS s i) = User) \<and>
     (\<forall>c p. cur s c = Some p \<longrightarrow> rsp0 (TSS s c) = kstack (task s p))"

abbreviation sched_inv :: "sched \<Rightarrow> bool" where "sched_inv \<equiv> sched_inv_at None"

lemma sched_inv_weaken: "sched_inv s \<Longrightarrow> sched_inv_at oc s"
  unfolding sched_inv_at_def by simp

lemma sched_invD:
  assumes "sched_inv_at oc s"
  shows "INITIALIZED s"
    "cur s c = Some p \<Longrightarrow> (\<exists>i<MAX_TASKS. p = Slot i) \<or> p = IdleSlot c"
    "cur s c = Some (Slot i) \<Longrightarrow> st s i \<noteq> Ready \<and> st s i \<noteq> Unused"
    "cur s c = Some (Slot i) \<Longrightarrow> oc \<noteq> Some c \<Longrightarrow> st s i = Running"
    "cur s c = Some (Slot i) \<Longrightarrow> cur s d = Some (Slot i) \<Longrightarrow> c = d"
    "dfr s c = Some p \<Longrightarrow> \<exists>i<MAX_TASKS. p = Slot i \<and> st s i = Running"
    "dfr s c = Some (Slot i) \<Longrightarrow> cur s d \<noteq> Some (Slot i)"
    "dfr s c = Some (Slot i) \<Longrightarrow> dfr s d = Some (Slot i) \<Longrightarrow> c = d"
    "i < MAX_TASKS \<Longrightarrow> st s i = Running \<Longrightarrow> \<exists>c. cur s c = Some (Slot i) \<or> dfr s c = Some (Slot i)"
    "cur s c = None \<Longrightarrow> dfr s c = None"
    "kind (IDLE s c) = Idle"
    "i < MAX_TASKS \<Longrightarrow> st s i \<noteq> Unused \<Longrightarrow> kind (TASKS s i) = User"
    "cur s c = Some p \<Longrightarrow> rsp0 (TSS s c) = kstack (task s p)"
  using assms unfolding sched_inv_at_def by (blast | simp)+

lemma sched_invI:
  assumes "INITIALIZED s"
    "\<And>c p. cur s c = Some p \<Longrightarrow> (\<exists>i<MAX_TASKS. p = Slot i) \<or> p = IdleSlot c"
    "\<And>c i. cur s c = Some (Slot i) \<Longrightarrow> st s i \<noteq> Ready \<and> st s i \<noteq> Unused \<and> (oc \<noteq> Some c \<longrightarrow> st s i = Running)"
    "\<And>c d i. cur s c = Some (Slot i) \<Longrightarrow> cur s d = Some (Slot i) \<Longrightarrow> c = d"
    "\<And>c p. dfr s c = Some p \<Longrightarrow> \<exists>i<MAX_TASKS. p = Slot i \<and> st s i = Running"
    "\<And>c d i. dfr s c = Some (Slot i) \<Longrightarrow> cur s d \<noteq> Some (Slot i)"
    "\<And>c d i. dfr s c = Some (Slot i) \<Longrightarrow> dfr s d = Some (Slot i) \<Longrightarrow> c = d"
    "\<And>i. i < MAX_TASKS \<Longrightarrow> st s i = Running \<Longrightarrow> \<exists>c. cur s c = Some (Slot i) \<or> dfr s c = Some (Slot i)"
    "\<And>c. cur s c = None \<Longrightarrow> dfr s c = None"
    "\<And>c. kind (IDLE s c) = Idle"
    "\<And>i. i < MAX_TASKS \<Longrightarrow> st s i \<noteq> Unused \<Longrightarrow> kind (TASKS s i) = User"
    "\<And>c p. cur s c = Some p \<Longrightarrow> rsp0 (TSS s c) = kstack (task s p)"
  shows "sched_inv_at oc s"
  unfolding sched_inv_at_def using assms by simp

text \<open>Changes that keep states, kinds, stacks and the per-CPU pointers.\<close>

lemma sched_inv_cong:
  assumes "sched_inv_at oc s" "INITIALIZED s' = INITIALIZED s" "PERCPU s' = PERCPU s" "TSS s' = TSS s"
    "\<And>i. st s' i = st s i \<and> kind (TASKS s' i) = kind (TASKS s i) \<and> kstack (TASKS s' i) = kstack (TASKS s i)"
    "\<And>c. kind (IDLE s' c) = kind (IDLE s c) \<and> kstack (IDLE s' c) = kstack (IDLE s c)"
  shows "sched_inv_at oc s'"
proof -
  have "kstack (task s' p) = kstack (task s p)" for p using assms(5,6) by (cases p) simp_all
  then show ?thesis using assms unfolding sched_inv_at_def by simp
qed

lemma publish_deferred_inv:
  assumes inv: "sched_inv_at (Some c) s"
  shows "sched_inv_at (Some c) (publish_deferred c s)" "dfr (publish_deferred c s) c = None"
    "cur (publish_deferred c s) d = cur s d"
proof -
  have "sched_inv_at (Some c) (publish_deferred c s) \<and> dfr (publish_deferred c s) c = None \<and>
    cur (publish_deferred c s) d = cur s d" for d
  proof (cases "dfr s c")
    case None
    then show ?thesis using inv by (simp add: publish_deferred_def)
  next
    case (Some p)
    then obtain i where i: "p = Slot i" "i < MAX_TASKS" "st s i = Running"
      using sched_invD(6) [OF inv] by blast
    have nc: "cur s d \<noteq> Some (Slot i)" for d using sched_invD(7) [OF inv] Some i(1) by blast
    have nd: "dfr s d = Some (Slot i) \<Longrightarrow> d = c" for d using sched_invD(8) [OF inv] Some i(1) by blast
    let ?s = "publish_deferred c s"
    have s': "TASKS ?s = (TASKS s)(i := (TASKS s i)\<lparr>state := Ready\<rparr>)" "IDLE ?s = IDLE s" "TSS ?s = TSS s"
      "PERCPU ?s = (PERCPU s)(c := (PERCPU s c)\<lparr>deferred := None\<rparr>)" "INITIALIZED ?s = INITIALIZED s"
      using Some i(1) by (simp_all add: publish_deferred_def set_per_def)
    have cu: "cur ?s d = cur s d" for d by (simp add: s'(4))
    have df: "dfr ?s d = (if d = c then None else dfr s d)" for d by (simp add: s'(4))
    have ta: "st ?s j = (if j = i then Ready else st s j)" "kind (TASKS ?s j) = kind (TASKS s j)"
      "kstack (TASKS ?s j) = kstack (TASKS s j)" for j by (simp_all add: s'(1))
    have ks: "kstack (task ?s p) = kstack (task s p)" for p by (cases p) (simp_all add: s'(2) ta)
    have run: "\<exists>d. cur s d = Some (Slot j) \<or> dfr ?s d = Some (Slot j)"
      if lt: "j < MAX_TASKS" and r: "st ?s j = Running" for j
    proof -
      have j: "j \<noteq> i" "st s j = Running" using r by (auto simp: ta(1) split: if_splits)
      obtain d where "cur s d = Some (Slot j) \<or> dfr s d = Some (Slot j)"
        using sched_invD(9) [OF inv lt j(2)] by blast
      moreover have "d \<noteq> c" if "dfr s d = Some (Slot j)" using that Some i(1) j(1) by auto
      ultimately show ?thesis by (intro exI [of _ d]) (auto simp: df)
    qed
    have dq: "\<exists>k<MAX_TASKS. q = Slot k \<and> st ?s k = Running" if "dfr ?s d = Some q" for d q
      using that sched_invD(6) [OF inv, of d q] nd [of d] by (auto simp: df ta(1) split: if_splits)
    have "sched_inv_at (Some c) ?s"
    proof (rule sched_invI)
      show "dfr ?s a = Some q \<Longrightarrow> \<exists>k<MAX_TASKS. q = Slot k \<and> st ?s k = Running" for a q by (rule dq)
      show "j < MAX_TASKS \<Longrightarrow> st ?s j = Running \<Longrightarrow> \<exists>d. cur ?s d = Some (Slot j) \<or> dfr ?s d = Some (Slot j)" for j
        using run by (simp add: cu)
    qed (use sched_invD [OF inv] nc i in \<open>auto simp: cu ta ks s' df split: if_splits\<close>)
    then show ?thesis by (simp add: df cu)
  qed
  then show "sched_inv_at (Some c) (publish_deferred c s)" "dfr (publish_deferred c s) c = None"
    "cur (publish_deferred c s) d = cur s d" by blast+
qed

lemma update_current_frame_inv:
  assumes "sched_inv_at oc s"
  shows "sched_inv_at oc (update_current c (\<lambda>t. t\<lparr>frame := f\<rparr>) s)"
  by (rule sched_inv_cong [OF assms])
    (simp_all add: update_current_def split: option.splits)

text \<open>What a switch does to the tables.\<close>

lemma task_TSS [simp]: "task (s\<lparr>TSS := x\<rparr>) q = task s q"
  by (cases q) simp_all

lemma switch_to_simps:
  assumes "Some nxt \<noteq> cu" "cu = cur s c"
  shows "fst (switch_to c cu nxt s) = frame (task s nxt)"
    "PERCPU (snd (switch_to c cu nxt s)) = (PERCPU s)(c := \<lparr>current = Some nxt,
       deferred = if running_user cu s then cu else dfr s c\<rparr>)"
    "TSS (snd (switch_to c cu nxt s)) = set_kernel_stack c (kstack (task s nxt)) (TSS s)"
    "task (snd (switch_to c cu nxt s)) p =
       (if p = nxt then (task s p)\<lparr>state := Running, cpu := c\<rparr> else task s p)"
    "INITIALIZED (snd (switch_to c cu nxt s)) = INITIALIZED s"
  using assms by (auto simp: switch_to_def Let_def)

lemma switch_to_other_inv:
  assumes inv: "sched_inv_at (Some c) s" and d: "dfr s c = None"
    and nxt: "(\<exists>j<MAX_TASKS. nxt = Slot j \<and> st s j = Ready) \<or> nxt = IdleSlot c" and ne: "cur s c \<noteq> Some nxt"
  shows "sched_inv (snd (switch_to c (cur s c) nxt s))"
proof -
  let ?cu = "cur s c" and ?s = "snd (switch_to c (cur s c) nxt s)"
  have ne': "Some nxt \<noteq> ?cu" using ne by simp
  note sw = switch_to_simps [OF ne' refl]
  have cu: "cur ?s e = (if e = c then Some nxt else cur s e)" for e by (simp add: sw)
  have df: "dfr ?s e = (if e = c then (if running_user ?cu s then ?cu else None) else dfr s e)" for e
    using d by (simp add: sw)
  have ta: "TASKS ?s i = (if nxt = Slot i then (TASKS s i)\<lparr>state := Running, cpu := c\<rparr> else TASKS s i)" for i
    using sw(4) [of "Slot i"] by auto
  have id: "kind (IDLE ?s e) = Idle" for e
    using sw(4) [of "IdleSlot e"] sched_invD(11) [OF inv, of e] by (auto split: if_splits)
  have fresh: "cur s e \<noteq> Some nxt" "dfr s e \<noteq> Some nxt" for e
    using nxt ne sched_invD(2,3,6) [OF inv] by fastforce+
  have ru: "running_user ?cu s \<Longrightarrow> \<exists>i<MAX_TASKS. ?cu = Some (Slot i) \<and> st s i = Running"
    using sched_invD(2,11) [OF inv] by (fastforce simp: running_user_def split: option.splits)
  have ur: "running_user ?cu s" if "?cu = Some (Slot i)" "i < MAX_TASKS" "st s i = Running" for i
    using that sched_invD(12) [OF inv, of i] by (simp add: running_user_def)
  show ?thesis
  proof (rule sched_invI)
    fix e p assume "cur ?s e = Some p"
    then show "(\<exists>i<MAX_TASKS. p = Slot i) \<or> p = IdleSlot e" "rsp0 (TSS ?s e) = kstack (task ?s p)"
      using sched_invD(2,13) [OF inv, of e p] nxt sw(4)
      by (auto simp: cu sw(3) set_kernel_stack_def split: if_splits)
  next
    fix e i assume "cur ?s e = Some (Slot i)"
    then show "st ?s i \<noteq> Ready \<and> st ?s i \<noteq> Unused \<and> (None \<noteq> Some e \<longrightarrow> st ?s i = Running)"
      using sched_invD(3,4) [OF inv, of e i] by (auto simp: cu ta split: if_splits)
  next
    fix e1 e2 i assume "cur ?s e1 = Some (Slot i)" "cur ?s e2 = Some (Slot i)"
    then show "e1 = e2" using sched_invD(5) [OF inv] fresh by (auto simp: cu split: if_splits)
  next
    fix e p assume "dfr ?s e = Some p"
    then show "\<exists>i<MAX_TASKS. p = Slot i \<and> st ?s i = Running"
      using sched_invD(6) [OF inv, of e p] ru by (auto simp: df ta split: if_splits)
  next
    fix e1 e2 i assume "dfr ?s e1 = Some (Slot i)"
    then show "cur ?s e2 \<noteq> Some (Slot i)"
      using sched_invD(7) [OF inv, of e1 i e2] sched_invD(5) [OF inv, of c i e2] fresh [of e1] fresh [of c]
      by (auto simp: df cu split: if_splits)
  next
    fix e1 e2 i assume "dfr ?s e1 = Some (Slot i)" "dfr ?s e2 = Some (Slot i)"
    then show "e1 = e2"
      using sched_invD(8) [OF inv, of e1 i e2] sched_invD(7) [OF inv, of e1 i c] sched_invD(7) [OF inv, of e2 i c]
      by (auto simp: df split: if_splits)
  next
    fix i assume i: "i < MAX_TASKS" "st ?s i = Running"
    show "\<exists>e. cur ?s e = Some (Slot i) \<or> dfr ?s e = Some (Slot i)"
    proof (cases "nxt = Slot i")
      case False
      then have r: "st s i = Running" using i by (simp add: ta)
      from sched_invD(9) [OF inv i(1) r] obtain e where "cur s e = Some (Slot i) \<or> dfr s e = Some (Slot i)" ..
      then show ?thesis using ur [OF _ i(1) r] d False by (intro exI [of _ e]) (auto simp: cu df)
    qed (use cu [of c] in auto)
  qed (use sched_invD(1,10,12) [OF inv] nxt in \<open>auto simp: cu df ta id sw(5) split: if_splits\<close>)
qed

lemma pick_from_Some:
  "pick_from is cu s = Some p \<Longrightarrow> \<exists>i\<in>set is. p = Slot i \<and> st s i = Ready \<and> cu \<noteq> Some p"
  by (induction "is") (auto split: if_splits)

lemma pick_from_None: "pick_from is cu s = None \<longleftrightarrow> (\<forall>i\<in>set is. st s i = Ready \<longrightarrow> cu = Some (Slot i))"
  by (induction "is") auto

lemmas pick_Some = pick_from_Some [of "[0..<MAX_TASKS]", folded pick_def, simplified]
lemmas pick_None = pick_from_None [of "[0..<MAX_TASKS]", folded pick_def, simplified]

lemma sched_inv_settled:
  "sched_inv_at (Some c) s \<Longrightarrow> (\<And>i. cur s c = Some (Slot i) \<Longrightarrow> st s i = Running) \<Longrightarrow> sched_inv s"
  unfolding sched_inv_at_def by (elim conjE, intro conjI) (metis, metis, (metis insert_iff option.inject empty_iff)?, metis+)

lemma switch_to_same:
  "switch_to c (Some p) p s = (frame (task s p), set_task p ((task s p)\<lparr>state := Running, cpu := c\<rparr>) s)"
  by (simp add: switch_to_def Let_def)

lemma update_current_simps [simp]:
  "PERCPU (update_current c f s) = PERCPU s" "TSS (update_current c f s) = TSS s"
  "INITIALIZED (update_current c f s) = INITIALIZED s"
  "task (update_current c f s) p = (if cur s c = Some p then f (task s p) else task s p)"
  "TASKS (update_current c f s) i = (if cur s c = Some (Slot i) then f (TASKS s i) else TASKS s i)"
  "IDLE (update_current c f s) d = (if cur s c = Some (IdleSlot d) then f (IDLE s d) else IDLE s d)"
  by (auto simp: update_current_def split: option.split)

text \<open>The state in which \<^verbatim>\<open>schedule\<close> chooses: deferred task published, interrupted context saved.\<close>

definition saved :: "nat \<Rightarrow> u64 \<Rightarrow> sched \<Rightarrow> sched" where
  "saved c f s = update_current c (\<lambda>t. t\<lparr>frame := f\<rparr>) (publish_deferred c s)"

lemma saved_simps [simp]: "cur (saved c f s) d = cur s d" "INITIALIZED (saved c f s) = INITIALIZED s"
  "TSS (saved c f s) = TSS s" "dfr (saved c f s) c = None"
  by (simp_all add: saved_def publish_deferred_def split: option.split)

lemma schedule_cases:
  assumes "INITIALIZED s"
  shows "schedule c f s = (case pick (cur s c) (saved c f s) of Some nxt \<Rightarrow> switch_to c (cur s c) nxt (saved c f s)
      | None \<Rightarrow> if running_user (cur s c) (saved c f s) then switch_to c (cur s c) (the (cur s c)) (saved c f s)
          else if (case cur s c of None \<Rightarrow> False | Some p \<Rightarrow> kind (task (saved c f s) p) = Idle) then (f, saved c f s)
          else switch_to c (cur s c) (IdleSlot c) (saved c f s))"
proof -
  have cu: "cur (publish_deferred c s) c = cur s c" by (simp add: publish_deferred_def split: option.split)
  show ?thesis unfolding schedule_def Let_def saved_def [symmetric] cu using assms by simp
qed

lemma schedule_inv:
  assumes inv: "sched_inv_at (Some c) s"
  shows "sched_inv (snd (schedule c f s))"
proof -
  define s2 where "s2 = saved c f s"
  have inv2: "sched_inv_at (Some c) s2" and d: "dfr s2 c = None" and cu [simp]: "cur s c = cur s2 c"
    using publish_deferred_inv [OF inv] update_current_frame_inv by (simp_all add: s2_def) (simp add: saved_def)
  note sch = schedule_cases [OF sched_invD(1) [OF inv], of c f, folded s2_def]
  consider nxt where "pick (cur s2 c) s2 = Some nxt"
    | p where "pick (cur s2 c) s2 = None" "cur s2 c = Some p" "running_user (Some p) s2"
    | p where "pick (cur s2 c) s2 = None" "cur s2 c = Some p" "\<not> running_user (Some p) s2" "kind (task s2 p) = Idle"
    | "pick (cur s2 c) s2 = None" "\<not> running_user (cur s2 c) s2" "\<And>p. cur s2 c = Some p \<Longrightarrow> kind (task s2 p) \<noteq> Idle"
    by (cases "pick (cur s2 c) s2"; cases "cur s2 c") (auto simp: running_user_def)
  then show ?thesis
  proof cases
    case 1
    with pick_Some [OF 1] show ?thesis
      by (auto simp: sch intro!: switch_to_other_inv [OF inv2 d])
  next
    case (2 p)
    have "sched_inv s2" using 2 by (intro sched_inv_settled [OF inv2]) (auto simp: running_user_def)
    then have "sched_inv (set_task p ((task s2 p)\<lparr>state := Running, cpu := c\<rparr>) s2)"
      by (rule sched_inv_cong) (use 2 in \<open>auto simp: running_user_def\<close>)
    then show ?thesis using 2 by (simp add: sch switch_to_same)
  next
    case (3 p)
    have nc: "cur s2 c \<noteq> Some (Slot i)" for i
      using 3 sched_invD(2) [OF inv2, of c p] sched_invD(3) [OF inv2, of c i] sched_invD(12) [OF inv2, of i] by auto
    have "sched_inv s2" by (rule sched_inv_settled [OF inv2]) (simp add: nc)
    with 3 show ?thesis by (simp add: sch)
  next
    case 4
    have "sched_inv (snd (switch_to c (cur s2 c) (IdleSlot c) s2))"
      by (rule switch_to_other_inv [OF inv2 d]) (use 4(3) sched_invD(11) [OF inv2] in auto)
    with 4 show ?thesis by (auto simp: sch split: option.splits)
  qed
qed

text \<open>The other operations.\<close>

lemma update_current_state_inv:
  assumes inv: "sched_inv s" and f: "\<And>t. kind (f t) = kind t \<and> kstack (f t) = kstack t \<and> state (f t) \<in> {Blocked, Dead}"
  shows "sched_inv_at (Some c) (update_current c f s)"
proof (rule sched_invI)
  fix d p assume "dfr (update_current c f s) d = Some p"
  then have p: "dfr s d = Some p" by simp
  then obtain i where i: "i < MAX_TASKS" "p = Slot i" "st s i = Running" using sched_invD(6) [OF inv] by blast
  then have "cur s c \<noteq> Some (Slot i)" using sched_invD(7) [OF inv, of d i c] p by simp
  with i show "\<exists>i<MAX_TASKS. p = Slot i \<and> st (update_current c f s) i = Running"
    by (intro exI [of _ i]) simp
  next
  fix d i assume "cur (update_current c f s) d = Some (Slot i)"
  then show "st (update_current c f s) i \<noteq> Ready \<and> st (update_current c f s) i \<noteq> Unused \<and>
    (Some c \<noteq> Some d \<longrightarrow> st (update_current c f s) i = Running)"
    using sched_invD(4) [OF inv, of d i] sched_invD(5) [OF inv, of c i d] f [of "TASKS s i"] by auto
  next
  fix i assume "i < MAX_TASKS" "st (update_current c f s) i = Running"
  then show "\<exists>d. cur (update_current c f s) d = Some (Slot i) \<or> dfr (update_current c f s) d = Some (Slot i)"
    using sched_invD(9) [OF inv] f [of "TASKS s i"] by (auto split: if_splits)
  next
  fix i assume i: "i < MAX_TASKS" "st (update_current c f s) i \<noteq> Unused"
  then show "kind (TASKS (update_current c f s) i) = User"
    using sched_invD(12) [OF inv i(1)] sched_invD(3) [OF inv, of c i] f [of "TASKS s i"] by (auto split: if_splits)
qed (use sched_invD(1,2,5,7,8,10,11,13) [OF inv] f in \<open>auto split: if_splits\<close>)

lemma map_tasks_inv:
  assumes inv: "sched_inv s"
    and f: "\<And>t. kind (f t) = kind t \<and> kstack (f t) = kstack t \<and> (f t = t \<or> state t = Blocked \<and> state (f t) = Ready)"
  shows "sched_inv (map_tasks f s)"
proof -
  have st: "st (map_tasks f s) i = Running \<longleftrightarrow> st s i = Running" for i
    using f [of "TASKS s i"] by (auto simp: map_tasks_def)
  have un: "st (map_tasks f s) i \<noteq> Unused \<Longrightarrow> st s i \<noteq> Unused" for i
    using f [of "TASKS s i"] by (auto simp: map_tasks_def split: if_splits)
  have ki: "kind (TASKS (map_tasks f s) i) = kind (TASKS s i)" for i
    using f by (simp add: map_tasks_def)
  have ta: "kstack (task (map_tasks f s) p) = kstack (task s p)" for p
    using f by (cases p) (auto simp: map_tasks_def)
  have same: "PERCPU (map_tasks f s) = PERCPU s" "TSS (map_tasks f s) = TSS s" "IDLE (map_tasks f s) = IDLE s"
    "INITIALIZED (map_tasks f s) = INITIALIZED s" by (simp_all add: map_tasks_def)
  show ?thesis
  proof (rule sched_invI)
    fix c i assume "cur (map_tasks f s) c = Some (Slot i)"
    then show "st (map_tasks f s) i \<noteq> Ready \<and> st (map_tasks f s) i \<noteq> Unused \<and>
      (None \<noteq> Some c \<longrightarrow> st (map_tasks f s) i = Running)"
      using sched_invD(4) [OF inv, of c i] st [of i] by (simp add: same)
  qed (use sched_invD(1,2,5-13) [OF inv] in \<open>auto simp: same st ta ki dest!: un\<close>)
qed

lemma wake_inv: "sched_inv s \<Longrightarrow> sched_inv (wake_sleepers now s)" "sched_inv s \<Longrightarrow> sched_inv (wake_input_waiters s)"
  unfolding wake_sleepers_def wake_input_waiters_def by (rule map_tasks_inv; simp)+

lemma find_unused_Some: "find_unused is s = Some i \<Longrightarrow> i \<in> set is \<and> st s i = Unused"
  by (induction "is") (auto split: if_splits)

lemma find_unused_None: "find_unused is s = None \<longleftrightarrow> (\<forall>i\<in>set is. st s i \<noteq> Unused)"
  by (induction "is") auto

lemma spawn_slot_inv:
  assumes inv: "sched_inv s" and sp: "spawn_slot tp entry user_stack s = Some (pid, s')"
  shows "sched_inv s'"
proof (cases "find_unused [0..<MAX_TASKS] s")
  case None
  then show ?thesis using assms by (simp add: spawn_slot_def)
next
  case (Some i)
  then have i: "i < MAX_TASKS" "st s i = Unused" using find_unused_Some [OF Some] by auto
  obtain f m where s': "s' = s\<lparr>stacks := m, TASKS := (TASKS s)(i :=
          \<lparr>state = Ready, kind = User, cpu = 0, frame = f, kstack = tp, wake_tick = 0, wait_input = False\<rparr>)\<rparr>"
    using sp Some by (auto simp: spawn_slot_def split: Option.bind_splits)
  have nc: "cur s c \<noteq> Some (Slot i)" "dfr s c \<noteq> Some (Slot i)" for c
    using sched_invD(4) [OF inv, of c i] sched_invD(6) [OF inv, of c "Slot i"] i by auto
  have ta: "kstack (task s' p) = kstack (task s p)" if "p \<noteq> Slot i" for p
    using that by (cases p) (simp_all add: s')
  have pe: "PERCPU s' = PERCPU s" "TSS s' = TSS s" "INITIALIZED s' = INITIALIZED s" "IDLE s' = IDLE s"
    by (simp_all add: s')
  have st: "st s' j = (if j = i then Ready else st s j)" "kind (TASKS s' j) = (if j = i then User else kind (TASKS s j))" for j
    by (simp_all add: s')
  show ?thesis
  proof (rule sched_invI)
    fix c p assume "cur s' c = Some p"
    then show "rsp0 (TSS s' c) = kstack (task s' p)"
      using sched_invD(13) [OF inv, of c p] nc(1) [of c] ta [of p] by (cases "p = Slot i") (auto simp: pe)
  next
    fix c p assume "dfr s' c = Some p"
    then show "\<exists>j<MAX_TASKS. p = Slot j \<and> st s' j = Running"
      using sched_invD(6) [OF inv, of c p] nc(2) [of c] by (auto simp: pe st)
  qed (use sched_invD(1-5,7-12) [OF inv] nc in \<open>auto simp: pe st split: if_splits\<close>)
qed

lemma init_cpu_inv:
  assumes inv: "sched_inv s" and n: "cur s c = None"
  shows "sched_inv (init_cpu c s)"
proof -
  have d: "dfr s c = None" using sched_invD(10) [OF inv n] .
  let ?s = "init_cpu c s"
  have pe: "cur ?s e = (if e = c then Some (IdleSlot c) else cur s e)" "dfr ?s e = dfr s e" for e
    using d by (auto simp: init_cpu_def Let_def)
  have ks: "kstack (task ?s p) = kstack (task s p)" for p by (cases p) (auto simp: init_cpu_def Let_def)
  have id: "kind (IDLE ?s e) = kind (IDLE s e)" "TASKS ?s = TASKS s" "INITIALIZED ?s = INITIALIZED s" for e
    by (auto simp: init_cpu_def Let_def)
  have ts: "rsp0 (TSS ?s e) = (if e = c then kstack (IDLE s c) else rsp0 (TSS s e))" for e
    by (simp add: init_cpu_def Let_def set_kernel_stack_def)
  show ?thesis
  proof (rule sched_invI)
    fix i assume i: "i < MAX_TASKS" "st ?s i = Running"
    then obtain e where "cur s e = Some (Slot i) \<or> dfr s e = Some (Slot i)"
      using sched_invD(9) [OF inv, of i] by (auto simp: id)
    then show "\<exists>e. cur ?s e = Some (Slot i) \<or> dfr ?s e = Some (Slot i)"
      using n by (intro exI [of _ e]) (auto simp: pe)
  next
    fix e p assume "cur ?s e = Some p"
    then show "rsp0 (TSS ?s e) = kstack (task ?s p)"
      using sched_invD(13) [OF inv, of e p] by (auto simp: pe ks ts split: if_splits)
  qed (use sched_invD(1-8,10-12) [OF inv] d in \<open>auto simp: pe id split: if_splits\<close>)
qed

lemma sched_step_inv: "sched_step s s' \<Longrightarrow> sched_inv s \<Longrightarrow> sched_inv s'"
proof (induction rule: sched_step.induct)
  case (timer s c f now)
  then show ?case by (simp add: schedule_inv sched_inv_weaken wake_inv)
qed (auto intro!: init_cpu_inv schedule_inv update_current_state_inv wake_inv intro: spawn_slot_inv sched_inv_weaken
     simp: mark_current_dead_def block_current_until_def block_current_input_def)

lemma sched_reach_inv: "sched_reach s0 s \<Longrightarrow> sched_inv s0 \<Longrightarrow> sched_inv s"
  by (induction rule: sched_reach.induct) (auto intro: sched_step_inv)

text \<open>The statics at boot.\<close>

definition boot_sched :: sched where
  "boot_sched = \<lparr>INITIALIZED = False, TASKS = (\<lambda>_. EMPTY_TASK), IDLE = (\<lambda>_. EMPTY_TASK),
     PERCPU = (\<lambda>_. \<lparr>current = None, deferred = None\<rparr>), TSS = (\<lambda>_. \<lparr>rsp0 = 0, iomap_base = 0\<rparr>), stacks = (\<lambda>_. 0)\<rparr>"

lemma init_idle_simps:
  assumes "init_idle idle_loop stack_base cs s = Some s'"
  shows "TASKS s' = TASKS s \<and> PERCPU s' = PERCPU s \<and> TSS s' = TSS s \<and>
    ((\<forall>c. kind (IDLE s c) = Idle) \<longrightarrow> (\<forall>c. kind (IDLE s' c) = Idle))"
  using assms
proof (induction cs arbitrary: s)
  case (Cons c cs)
  then obtain tp f m where "init_idle idle_loop stack_base cs (s\<lparr>stacks := m, IDLE := (IDLE s)(c := (IDLE s c)
       \<lparr>state := Unused, kind := Idle, cpu := c, kstack := tp, frame := f\<rparr>)\<rparr>) = Some s'"
    by (auto split: Option.bind_splits)
  from Cons.IH [OF this] show ?case by simp
qed simp

lemma init_global_inv:
  assumes "init_global idle_loop stack_base n boot_sched = Some s"
  shows "sched_inv s"
proof -
  obtain s1 where s1: "init_idle idle_loop stack_base [0..<n]
      (boot_sched\<lparr>TASKS := (\<lambda>i. if i < MAX_TASKS then EMPTY_TASK else TASKS boot_sched i)\<rparr>) = Some s1"
    and s: "s = s1\<lparr>INITIALIZED := True\<rparr>"
    using assms by (auto simp: init_global_def split: Option.bind_splits)
  show ?thesis using init_idle_simps [OF s1]
    by (intro sched_invI) (auto simp: s boot_sched_def EMPTY_TASK_def split: if_splits)
qed

text \<open>What the chosen context is.\<close>

lemma saved_task:
  "frame (task (saved c f s) q) = (if cur s c = Some q then f else frame (task s q))"
  "state (task (saved c f s) q) = (if dfr s c = Some q then Ready else state (task s q))"
  "kind (task (saved c f s) q) = kind (task s q)" "kstack (task (saved c f s) q) = kstack (task s q)"
  "d \<noteq> c \<Longrightarrow> PERCPU (saved c f s) d = PERCPU s d"
  by (auto simp: saved_def publish_deferred_def split: option.split)

lemma switch_to_result:
  assumes "cu = cur s c"
  shows "fst (switch_to c cu q s) = frame (task s q)" "cur (snd (switch_to c cu q s)) c = Some q"
    "frame (task (snd (switch_to c cu q s)) r) = frame (task s r)"
    "state (task (snd (switch_to c cu q s)) r) = (if r = q then Running else state (task s r))"
    "d \<noteq> c \<Longrightarrow> PERCPU (snd (switch_to c cu q s)) d = PERCPU s d"
    "q \<noteq> p \<Longrightarrow> cu = Some p \<Longrightarrow> running_user cu s \<Longrightarrow> dfr (snd (switch_to c cu q s)) c = Some p"
  using assms by (auto simp: switch_to_def Let_def)

lemma schedule_entry:
  assumes inv: "sched_inv_at (Some c) s" and p: "cur s c = Some p"
  shows "dfr s c \<noteq> Some p" "p = IdleSlot c \<Longrightarrow> kind (task s p) = Idle"
    "running_user (Some p) (saved c f s) \<longleftrightarrow> (\<exists>i<MAX_TASKS. p = Slot i \<and> st s i = Running)"
    "st (saved c f s) i = (if dfr s c = Some (Slot i) then Ready else st s i)"
    "pick (Some p) (saved c f s) = None \<Longrightarrow> i < MAX_TASKS \<Longrightarrow> st s i \<noteq> Ready \<and> dfr s c \<noteq> Some (Slot i)"
    "kind (task s p) = Idle \<Longrightarrow> p \<noteq> Slot i"
proof -
  let ?s = "saved c f s"
  have nd: "dfr s c \<noteq> Some p" using sched_invD(6,7) [OF inv, of c] p by metis
  have us: "kind (task s p) = User \<longleftrightarrow> (\<exists>i<MAX_TASKS. p = Slot i)" "p = IdleSlot c \<Longrightarrow> kind (task s p) = Idle"
    using sched_invD(2) [OF inv p] sched_invD(3) [OF inv, of c] sched_invD(11,12) [OF inv] p by fastforce+
  have ru: "running_user (Some p) ?s \<longleftrightarrow> (\<exists>i<MAX_TASKS. p = Slot i \<and> st s i = Running)"
    using us nd by (auto simp: running_user_def saved_task)
  have rdy: "st ?s i = (if dfr s c = Some (Slot i) then Ready else st s i)" for i
    using saved_task(2) [of c f s "Slot i"] by simp
  show "st s i \<noteq> Ready \<and> dfr s c \<noteq> Some (Slot i)" if "pick (Some p) ?s = None" "i < MAX_TASKS"
  proof -
    have "st ?s i = Ready \<longrightarrow> p = Slot i" using that by (simp add: pick_None)
    then show ?thesis using rdy [of i] nd sched_invD(3) [OF inv, of c i] p by (metis (full_types))
  qed
  show "dfr s c \<noteq> Some p" "p = IdleSlot c \<Longrightarrow> kind (task s p) = Idle"
    "running_user (Some p) (saved c f s) \<longleftrightarrow> (\<exists>i<MAX_TASKS. p = Slot i \<and> st s i = Running)"
    "st (saved c f s) i = (if dfr s c = Some (Slot i) then Ready else st s i)"
    using nd us(2) ru rdy by blast+
  show "kind (task s p) = Idle \<Longrightarrow> p \<noteq> Slot i" using us(1) sched_invD(2) [OF inv p] by auto
qed

text \<open>
  C31: The context switch.  \<^verbatim>\<open>schedule\<close> on CPU \<open>c\<close>, interrupted with frame \<open>f\<close> while \<open>p\<close> is current, returns the frame of
  the task it makes current: \<open>f\<close> itself when \<open>p\<close> goes on, the frame saved for \<open>q\<close> otherwise.  It saves \<open>f\<close> for \<open>p\<close>
  and touches no other saved context and no other CPU.  The CPU falls back to its idle task only when no task is ready,
  a preempted running task is kept for the next pass, and a blocked or dead one leaves the CPU in that state.
\<close>

theorem schedule_resumes:
  assumes inv: "sched_inv_at (Some c) s" and p: "cur s c = Some p"
    and r: "schedule c f s = (f', s')"
  shows "\<exists>q. cur s' c = Some q \<and> f' = (if q = p then f else frame (task s q)) \<and>
    (\<forall>r. frame (task s' r) = (if r = p then f else frame (task s r))) \<and>
    (\<forall>d. d \<noteq> c \<longrightarrow> PERCPU s' d = PERCPU s d) \<and>
    (q = IdleSlot c \<longrightarrow> (\<forall>i<MAX_TASKS. st s i \<noteq> Ready \<and> dfr s c \<noteq> Some (Slot i))) \<and>
    (\<forall>i. p = Slot i \<and> st s i = Running \<longrightarrow> q = p \<or> dfr s' c = Some p) \<and>
    (\<forall>i. p = Slot i \<and> st s i \<noteq> Running \<longrightarrow> q \<noteq> p \<and> st s' i = st s i)"
proof -
  let ?s = "saved c f s"
  note entry = schedule_entry [OF inv p]
  have sw: "?thesis" if q: "schedule c f s = switch_to c (Some p) q ?s"
    and pn: "q = IdleSlot c \<longrightarrow> pick (Some p) ?s = None" and ne: "\<not> running_user (Some p) ?s \<longrightarrow> q \<noteq> p" for q
  proof -
    have f': "f' = fst (switch_to c (Some p) q ?s)" and s': "s' = snd (switch_to c (Some p) q ?s)"
      using r q by auto
    have cu: "Some p = cur ?s c" using p by simp
    note R = switch_to_result [OF cu, where q = q, folded s' f']
    have st': "st s' i = (if Slot i = q then Running else st ?s i)" for i using R(4) [of "Slot i"] by simp
    show ?thesis
    proof (intro exI [of _ q] conjI allI impI; (elim conjE)?)
      show "cur s' c = Some q" by (rule R)
      show "f' = (if q = p then f else frame (task s q))" using p by (auto simp: R saved_task)
      show "frame (task s' r) = (if r = p then f else frame (task s r))" for r using p by (auto simp: R saved_task)
      show "d \<noteq> c \<Longrightarrow> PERCPU s' d = PERCPU s d" for d by (simp add: R saved_task)
      show "q = p \<or> dfr s' c = Some p" if "p = Slot i" "st s i = Running" for i
        using R(6) [of p] entry(3) that sched_invD(2) [OF inv p] by auto
      show "q \<noteq> p" if "p = Slot i" "st s i \<noteq> Running" for i using that ne entry(3) by auto
      show "st s' i = st s i" if "p = Slot i" "st s i \<noteq> Running" for i using that ne entry(3) entry(1) by (auto simp: st' entry(4))
    qed (use entry(5) pn in auto)
  qed
  note sch = schedule_cases [OF sched_invD(1) [OF inv], of c f, unfolded p]
  show ?thesis
  proof (cases "pick (Some p) ?s")
    case (Some q)
    then show ?thesis using pick_Some [OF Some] by (intro sw [of q]) (auto simp: sch)
  next
    case None
    consider "running_user (Some p) ?s" | "\<not> running_user (Some p) ?s" "kind (task s p) = Idle"
      | "\<not> running_user (Some p) ?s" "kind (task s p) \<noteq> Idle" by blast
    then show ?thesis
    proof cases
      case 1
      then show ?thesis using None by (intro sw [of p]) (auto simp: sch entry(3))
    next
      case 2
      then have "f' = f" "s' = ?s" using r None by (auto simp: sch saved_task)
      moreover have "p \<noteq> Slot i" for i using entry(6) 2(2) .
      ultimately show ?thesis using p entry(5) [OF None] by (intro exI [of _ p]) (auto simp: saved_task)
    next
      case 3
      then show ?thesis using None entry(2) by (intro sw [of "IdleSlot c"]) (auto simp: sch saved_task)
    qed
  qed
qed

text \<open>A sample: CPU 0 runs task 0 while task 1 is ready, CPU 1 is idle.\<close>

definition sample_sched :: sched where
  "sample_sched = \<lparr>INITIALIZED = True,
     TASKS = (\<lambda>i. if i = 0 then \<lparr>state = Running, kind = User, cpu = 0, frame = 0xFFFF90000000FF50,
                      kstack = 0xFFFF900000010000, wake_tick = 0, wait_input = False\<rparr>
                 else if i = 1 then \<lparr>state = Ready, kind = User, cpu = 0, frame = 0xFFFF90000001FF50,
                      kstack = 0xFFFF900000020000, wake_tick = 0, wait_input = False\<rparr> else EMPTY_TASK),
     IDLE = (\<lambda>c. \<lparr>state = Running, kind = Idle, cpu = c, frame = 0xFFFFFFFF80107F50,
                  kstack = 0xFFFFFFFF80108000, wake_tick = 0, wait_input = False\<rparr>),
     PERCPU = (\<lambda>c. \<lparr>current = if c = 0 then Some (Slot 0) else if c = 1 then Some (IdleSlot 1) else None, deferred = None\<rparr>),
     TSS = (\<lambda>c. \<lparr>rsp0 = if c = 0 then 0xFFFF900000010000 else 0xFFFFFFFF80108000, iomap_base = 104\<rparr>),
     stacks = (\<lambda>_. 0)\<rparr>"

lemma sample_sched_inv: "sched_inv sample_sched"
  by (intro sched_invI) (auto simp: sample_sched_def EMPTY_TASK_def MAX_TASKS_def split: if_splits)

lemma pick_first:
  "st s 0 = Ready \<Longrightarrow> cu \<noteq> Some (Slot 0) \<Longrightarrow> pick cu s = Some (Slot 0)"
  "st s 1 = Ready \<Longrightarrow> st s 0 \<noteq> Ready \<or> cu = Some (Slot 0) \<Longrightarrow> cu \<noteq> Some (Slot 1) \<Longrightarrow> pick cu s = Some (Slot 1)"
  by (auto simp: pick_def MAX_TASKS_def upt_conv_Cons)

lemma switch_to_task:
  "task (snd (switch_to c cu q s)) r = (if r = q then (task s r)\<lparr>state := Running, cpu := c\<rparr> else task s r)"
  by (auto simp: switch_to_def Let_def)

lemma schedule_pick:
  assumes "INITIALIZED s" "pick (cur s c) (saved c f s) = Some q"
  shows "schedule c f s = switch_to c (cur s c) q (saved c f s)"
  using assms by (simp add: schedule_cases)

theorem schedule_resumes_witness:
  "schedule 0 0xFFFF90000000FE00 sample_sched = (0xFFFF90000001FF50, snd (schedule 0 0xFFFF90000000FE00 sample_sched)) \<and>
   (\<exists>q. cur (snd (schedule 0 0xFFFF90000000FE00 sample_sched)) 0 = Some q \<and> q = Slot 1)"
proof -
  let ?f = "0xFFFF90000000FE00" and ?s = sample_sched
  have "pick (cur ?s 0) (saved 0 ?f ?s) = Some (Slot 1)"
    by (rule pick_first(2)) (use saved_task(2) [of 0 ?f ?s "Slot 1"] in \<open>simp_all add: sample_sched_def\<close>)
  then have "cur (snd (schedule 0 ?f ?s)) 0 = Some (Slot 1)"
    using schedule_pick [of ?s 0 ?f] by (simp add: sample_sched_def switch_to_result(2))
  moreover have "cur ?s 0 = Some (Slot 0)" "frame (TASKS ?s (Suc 0)) = 0xFFFF90000001FF50"
    by (simp_all add: sample_sched_def)
  ultimately show ?thesis
    using schedule_resumes [OF sched_inv_weaken [OF sample_sched_inv], of 0 "Slot 0" ?f "fst (schedule 0 ?f ?s)" "snd (schedule 0 ?f ?s)"]
    by (auto simp: prod_eq_iff)
qed

text \<open>A current task that is blocked or dead keeps its fields; only its context is saved.\<close>

lemma schedule_parked:
  assumes inv: "sched_inv_at (Some c) s" and cu: "cur s c = Some (Slot i)" and st: "st s i \<noteq> Running"
  shows "TASKS (snd (schedule c f s)) i = (TASKS s i)\<lparr>frame := f\<rparr>"
proof -
  note entry = schedule_entry [OF inv cu]
  have "TASKS (saved c f s) i = (TASKS s i)\<lparr>frame := f\<rparr>"
    using entry(1) cu by (auto simp: saved_def publish_deferred_def split: option.split)
  moreover have "TASKS (snd (switch_to c cu q s')) i = (if Slot i = q then (TASKS s' i)\<lparr>state := Running, cpu := c\<rparr> else TASKS s' i)"
    for cu q s' using switch_to_task [of c cu q s' "Slot i"] by auto
  moreover have "kind (TASKS s i) \<noteq> Idle" using entry(6) [of i] by auto
  moreover have "\<not> running_user (Some (Slot i)) (saved c f s)" using entry(3) st by auto
  ultimately show ?thesis using cu pick_Some [of "Some (Slot i)" "saved c f s"] saved_task(3) [of c f s "Slot i"]
    by (auto simp: schedule_cases [OF sched_invD(1) [OF inv]] split: option.split)
qed

text \<open>
  C35: Sleeping.  A user task that calls \<^verbatim>\<open>block_current_until\<close> with a nonzero deadline and then \<^verbatim>\<open>schedule\<close> is off every
  CPU, with its context saved.  A timer pass at time \<open>now\<close> makes it ready exactly when the deadline has passed; a key
  press does not wake it.
\<close>

theorem sleep_until_deadline:
  assumes inv: "sched_inv s" and cu: "cur s c = Some (Slot i)" and tick: "tick \<noteq> 0"
  shows "let s' = snd (schedule c f (block_current_until c tick s)) in
    st s' i = Blocked \<and> frame (TASKS s' i) = f \<and> (\<forall>d. cur s' d \<noteq> Some (Slot i) \<and> dfr s' d \<noteq> Some (Slot i)) \<and>
    st (wake_input_waiters s') i = Blocked \<and>
    (\<forall>now. st (wake_sleepers now s') i = (if tick \<le> now then Ready else Blocked))"
proof -
  define b where "b = block_current_until c tick s"
  define s' where "s' = snd (schedule c f b)"
  have i: "i < MAX_TASKS" using sched_invD(2) [OF inv cu] by auto
  have bi: "sched_inv_at (Some c) b" unfolding b_def block_current_until_def
    by (rule update_current_state_inv [OF inv]) simp
  have b: "st b i = Blocked" "wake_tick (TASKS b i) = tick" "\<not> wait_input (TASKS b i)" "cur b c = Some (Slot i)"
    using cu by (simp_all add: b_def block_current_until_def)
  have t: "TASKS s' i = (TASKS b i)\<lparr>frame := f\<rparr>"
    unfolding s'_def by (rule schedule_parked [OF bi b(4)]) (simp add: b)
  have inv': "sched_inv s'" unfolding s'_def by (rule schedule_inv [OF bi])
  have "cur s' d \<noteq> Some (Slot i) \<and> dfr s' d \<noteq> Some (Slot i)" for d
    using sched_invD(4) [OF inv', of d i] sched_invD(6) [OF inv', of d "Slot i"] t b(1) by auto
  then show ?thesis using t b i tick
    by (simp add: Let_def wake_input_waiters_def wake_sleepers_def map_tasks_def flip: s'_def b_def)
qed

theorem sleep_until_deadline_witness:
  "cur sample_sched 0 = Some (Slot 0) \<and>
   st (wake_sleepers 500 (snd (schedule 0 0xFFFF90000000FE00 (block_current_until 0 500 sample_sched)))) 0 = Ready \<and>
   st (wake_sleepers 499 (snd (schedule 0 0xFFFF90000000FE00 (block_current_until 0 500 sample_sched)))) 0 = Blocked"
proof -
  have c: "cur sample_sched 0 = Some (Slot 0)" by (simp add: sample_sched_def)
  show ?thesis using sleep_until_deadline [OF sample_sched_inv c, of 500 "0xFFFF90000000FE00"] c by (simp add: Let_def)
qed

text \<open>Timer ticks on one CPU, each with the time and the interrupted frame.\<close>

fun ticks :: "nat \<Rightarrow> (u64 \<times> u64) list \<Rightarrow> sched \<Rightarrow> sched" where
  "ticks c [] s = s"
| "ticks c ((now, f) # es) s = ticks c es (snd (schedule c f (wake_sleepers now s)))"

text \<open>Task \<open>i\<close> runs on \<open>c\<close> and task \<open>j\<close> is next: ready, or still to be published.\<close>

definition alternating :: "nat \<Rightarrow> nat \<Rightarrow> nat \<Rightarrow> sched \<Rightarrow> bool" where
  "alternating c i j s \<longleftrightarrow> INITIALIZED s \<and> cur s c = Some (Slot i) \<and> st s i = Running \<and> kind (TASKS s i) = User \<and>
     kind (TASKS s j) = User \<and> (dfr s c = None \<and> st s j = Ready \<or> dfr s c = Some (Slot j) \<and> st s j = Running)"

lemma wake_sleepers_simps:
  "PERCPU (wake_sleepers now s) = PERCPU s" "INITIALIZED (wake_sleepers now s) = INITIALIZED s"
  "st s i \<noteq> Blocked \<Longrightarrow> TASKS (wake_sleepers now s) i = TASKS s i"
  by (simp_all add: wake_sleepers_def map_tasks_def)

lemma alternating_tick:
  assumes a: "alternating c i j s" and ij: "i = 0 \<and> j = 1 \<or> i = 1 \<and> j = 0"
  shows "alternating c j i (snd (schedule c f s))"
    "k \<noteq> i \<Longrightarrow> k \<noteq> j \<Longrightarrow> TASKS (snd (schedule c f s)) k = TASKS s k"
proof -
  let ?s = "saved c f s"
  have A: "INITIALIZED s" "cur s c = Some (Slot i)" "st s i = Running" "kind (TASKS s i) = User"
    "kind (TASKS s j) = User" "dfr s c = None \<and> st s j = Ready \<or> dfr s c = Some (Slot j)" "i \<noteq> j"
    using a ij by (auto simp: alternating_def)
  have j: "st ?s j = Ready" "st ?s i = Running" "kind (TASKS ?s i) = User" "kind (TASKS ?s j) = User"
    using A saved_task(2,3) [of c f s "Slot j"] saved_task(2,3) [of c f s "Slot i"] by auto
  have "pick (cur s c) ?s = Some (Slot j)" using ij A(2) j by (auto intro!: pick_first [simplified])
  from schedule_pick [OF A(1) this] have sch: "schedule c f s = switch_to c (cur ?s c) (Slot j) ?s" by simp
  have ne: "Some (Slot j) \<noteq> cur ?s c" using A(2,7) by simp
  note S = switch_to_simps [OF ne refl, folded sch]
  have "running_user (cur ?s c) ?s" using A(2) j by (simp add: running_user_def)
  then show "alternating c j i (snd (schedule c f s))"
    using A j S(2,5) S(4) [of "Slot i"] S(4) [of "Slot j"] by (auto simp: alternating_def)
  show "TASKS (snd (schedule c f s)) k = TASKS s k" if "k \<noteq> i" "k \<noteq> j"
    using S(4) [of "Slot k"] that A(2,6)
    by (auto simp: saved_def publish_deferred_def split: option.split)
qed

lemma ticks_alternating:
  "alternating c i j s \<Longrightarrow> i = 0 \<and> j = 1 \<or> i = 1 \<and> j = 0 \<Longrightarrow>
   cur (ticks c es s) c = Some (Slot (if even (length es) then i else j)) \<and>
   (\<forall>k. 2 \<le> k \<longrightarrow> st s k = Ready \<longrightarrow> st (ticks c es s) k = Ready)"
proof (induction c es s arbitrary: i j rule: ticks.induct)
  case (1 c s)
  then show ?case by (simp add: alternating_def)
next
  case (2 c now f es s)
  have "alternating c i j (wake_sleepers now s)"
    using 2(2) wake_sleepers_simps(1,2) [of now s] wake_sleepers_simps(3) [of s i now] wake_sleepers_simps(3) [of s j now]
    by (auto simp: alternating_def)
  note step = alternating_tick [OF this 2(3), where f = f]
  have "st (snd (schedule c f (wake_sleepers now s))) k = Ready" if "2 \<le> k" "st s k = Ready" for k
    using step(2) [of k] 2(3) that wake_sleepers_simps(3) [of s k now] by auto
  moreover have "j = 0 \<and> i = 1 \<or> j = 1 \<and> i = 0" using 2(3) by auto
  ultimately show ?case using 2(1) [OF step(1)] by simp
qed

text \<open>
  Starvation.  On one CPU, once task 0 runs and task 1 is ready, every timer tick switches between those two for as
  long as neither blocks or exits: a ready task in a later slot stays ready and never runs.  The choice is by slot
  number, not round robin.
\<close>

lemma timer_ticks_starve:
  assumes "INITIALIZED s" "cur s c = Some (Slot 0)" "st s 0 = Running" "kind (TASKS s 0) = User"
    "st s 1 = Ready" "kind (TASKS s 1) = User" "dfr s c = None"
  shows "cur (ticks c es s) c = Some (Slot (length es mod 2)) \<and>
    (\<forall>k. 2 \<le> k \<longrightarrow> st s k = Ready \<longrightarrow> st (ticks c es s) k = Ready)"
  using ticks_alternating [of c 0 1 s es] assms by (simp add: alternating_def mod2_eq_if)

text \<open>
  C40: Blocking and leaving the CPU are two separate critical sections, and another CPU can run in between.  When CPU \<open>c\<close>
  has marked its current task \<open>i\<close> blocked until \<open>tick\<close> and the idle CPU \<open>d\<close> takes its timer interrupt at a time past
  \<open>tick\<close> before \<open>c\<close> calls \<^verbatim>\<open>schedule\<close>, the task is woken and becomes current on both CPUs, and \<open>d\<close> resumes
  it from the context of an earlier switch.
\<close>

theorem block_schedule_race:
  assumes inv: "sched_inv s" and cu: "cur s c = Some (Slot i)" "cur s d = Some (IdleSlot d)"
    and tick: "tick \<noteq> 0" "tick \<le> now" and none: "\<forall>j<i. st s j = Unused \<or> st s j = Dead" and df: "dfr s d = None"
  shows "let r = schedule d f (wake_sleepers now (block_current_until c tick s)) in
    fst r = frame (TASKS s i) \<and> cur (snd r) c = Some (Slot i) \<and> cur (snd r) d = Some (Slot i)"
proof -
  define w where "w = wake_sleepers now (block_current_until c tick s)"
  have i: "i < MAX_TASKS" and cd: "c \<noteq> d" using sched_invD(2) [OF inv cu(1)] cu by auto
  have w: "INITIALIZED w" "cur w c = Some (Slot i)" "cur w d = Some (IdleSlot d)" "dfr w d = None" "st w i = Ready"
    "frame (TASKS w i) = frame (TASKS s i)" and lt: "\<forall>j<i. st w j \<noteq> Ready"
    using cu cd tick df i none sched_invD(1) [OF inv]
    by (auto simp: w_def wake_sleepers_def map_tasks_def block_current_until_def)
  let ?s = "saved d f w"
  have st: "st ?s j = st w j" for j using saved_task(2) [of d f w "Slot j"] w(4) by simp
  have up: "[0..<MAX_TASKS] = [0..<i] @ i # [Suc i..<MAX_TASKS]"
    using i upt_add_eq_append [of 0 i "MAX_TASKS - i"] by (simp add: upt_conv_Cons)
  have skip: "(\<forall>j\<in>set js. st ?s j \<noteq> Ready) \<Longrightarrow> pick_from (js @ k) cu ?s = pick_from k cu ?s" for js k cu
    by (induction js) auto
  have "pick (cur w d) ?s = Some (Slot i)"
    unfolding pick_def up by (subst skip) (use lt st w in auto)
  from schedule_pick [OF w(1) this]
  have sch: "schedule d f w = switch_to d (cur ?s d) (Slot i) ?s" by simp
  have "cur (snd (schedule d f w)) c = Some (Slot i)"
    using switch_to_result(5) [of "cur ?s d" ?s d c "Slot i"] cd w(2) saved_task(5) [of c d f w] by (simp add: sch)
  then show ?thesis
    using saved_task(1) [of d f w "Slot i"] w by (simp add: Let_def sch switch_to_result(1,2) flip: w_def)
qed

theorem block_schedule_race_witness:
  "let r = schedule 1 0xFFFFFFFF80107F50 (wake_sleepers 500 (block_current_until 0 500 sample_sched)) in
    fst r = 0xFFFF90000000FF50 \<and> cur (snd r) 0 = Some (Slot 0) \<and> cur (snd r) 1 = Some (Slot 0)"
  using block_schedule_race [OF sample_sched_inv, of 0 0 1 500 500 "0xFFFFFFFF80107F50"]
  by (simp add: sample_sched_def)

text \<open>
  C30: From the statics of the image, once \<^verbatim>\<open>init_global\<close> has run, in every state the kernel's use of the scheduler reaches with
  blocking and rescheduling as one step: a user task that is current on a CPU is running, is current on no other CPU, is not waiting to be
  published anywhere, and its kernel stack is the stack that CPU's task-state segment enters ring 0 on.
\<close>

theorem one_cpu_per_task:
  assumes "init_global idle_loop stack_base n boot_sched = Some s0" "sched_reach s0 s" "cur s c = Some (Slot i)"
  shows "i < MAX_TASKS \<and> st s i = Running \<and> kind (TASKS s i) = User \<and> (\<forall>d. cur s d = Some (Slot i) \<longrightarrow> d = c) \<and>
    (\<forall>d. dfr s d \<noteq> Some (Slot i)) \<and> rsp0 (TSS s c) = kstack (TASKS s i)"
proof -
  have inv: "sched_inv s" using sched_reach_inv [OF assms(2) init_global_inv [OF assms(1)]] .
  have "i < MAX_TASKS" "st s i = Running" using sched_invD(2,4) [OF inv assms(3)] by auto
  then show ?thesis using sched_invD(5,7,12,13) [OF inv] assms(3) by fastforce
qed

text \<open>The first spawn after boot, then a timer interrupt on CPU 0.\<close>

theorem one_cpu_per_task_witness:
  "\<exists>s0 s. init_global 0xFFFFFFFF80001000 (\<lambda>_. 0xFFFFFFFF80100000) 1 boot_sched = Some s0 \<and> sched_reach s0 s \<and>
     cur s 0 = Some (Slot 0) \<and> st s 0 = Running \<and> rsp0 (TSS s 0) = kstack (TASKS s 0)"
proof -
  obtain s0 where g: "init_global 0xFFFFFFFF80001000 (\<lambda>_. 0xFFFFFFFF80100000) 1 boot_sched = Some s0"
    by (simp add: init_global_def kstack_top_def cadd_def RING0_STACK_SIZE_def build_idle_frame_def frame_at_def
        csub_def FRAME_WORDS_def)
  have z: "cur s0 0 = None" "st s0 0 = Unused" "INITIALIZED s0"
    using g by (auto simp: init_global_def boot_sched_def EMPTY_TASK_def MAX_TASKS_def dest!: init_idle_simps split: Option.bind_splits)
  define s1 where "s1 = init_cpu 0 s0"
  have z1: "cur s1 0 = Some (IdleSlot 0)" "dfr s1 0 = None" "st s1 0 = Unused" "INITIALIZED s1"
    using z by (simp_all add: s1_def init_cpu_def Let_def)
  have "find_unused [0..<MAX_TASKS] s1 = Some 0" using z1 by (simp add: MAX_TASKS_def upt_conv_Cons)
  then obtain pid s2 where sp: "spawn_slot 0xFFFF900000010000 0x400000 0x7FFFFFFF0000 s1 = Some (pid, s2)"
    and z2: "cur s2 0 = Some (IdleSlot 0)" "dfr s2 0 = None" "st s2 0 = Ready" "INITIALIZED s2"
    using z1 by (auto simp: spawn_slot_def build_user_frame_def frame_at_def csub_def FRAME_WORDS_def)
  define s3 where "s3 = snd (schedule 0 0xFFFFFFFF80107F50 s2)"
  have "sched_reach s0 s3" unfolding s3_def
    by (rule sched_reach.step [OF sched_reach.step [OF sched_reach.step [OF start boot] spawn [OF sp [unfolded s1_def]]] yield])
      (rule z(1))
  moreover have "pick (cur s2 0) (saved 0 0xFFFFFFFF80107F50 s2) = Some (Slot 0)"
    using z2 saved_task(2) [of 0 "0xFFFFFFFF80107F50" s2 "Slot 0"] by (intro pick_first(1)) auto
  then have "cur s3 0 = Some (Slot 0)" using z2 by (simp add: s3_def schedule_pick switch_to_result(2))
  ultimately show ?thesis using one_cpu_per_task [OF g, of s3 0 0] g by blast
qed

end
