(* ===== verification/Block.thy ===== *)
theory Block
  imports Pinx_Prelude
begin

text \<open>
  The block-device interface of \<^verbatim>\<open>src/block.rs\<close>.  A trait object is the record of its methods over the state \<open>'d\<close> of the device;
  a method returns the error or result and the new state, or does not return.  A buffer that a method fills is returned with its result.
\<close>

datatype BlockError = BlockIo | BlockNoSpace | BlockNotFound | BlockCorrupt | BlockUnsupported

record 'd BlockDevice =
  block_count :: "'d \<Rightarrow> u64 option"
  block_size :: "'d \<Rightarrow> u32"
  read_blocks :: "u64 \<Rightarrow> u8 list \<Rightarrow> 'd \<Rightarrow> ((BlockError + u8 list) \<times> 'd) option"
  write_blocks :: "u64 \<Rightarrow> u8 list \<Rightarrow> 'd \<Rightarrow> ((BlockError + unit) \<times> 'd) option"
  flush :: "'d \<Rightarrow> (BlockError + unit) \<times> 'd"

definition read_block :: "'d BlockDevice \<Rightarrow> u64 \<Rightarrow> u8 list \<Rightarrow> 'd \<Rightarrow> ((BlockError + u8 list) \<times> 'd) option" where
  "read_block D lba buf d =
     (let size = unat (block_size D d) in
      if length buf < size then Some (Inl BlockIo, d)
      else do {
        (r, d) \<leftarrow> read_blocks D lba (take size buf) d;
        Some (map_sum (\<lambda>e. e) (\<lambda>b. b @ drop size buf) r, d)
      })"

definition write_block :: "'d BlockDevice \<Rightarrow> u64 \<Rightarrow> u8 list \<Rightarrow> 'd \<Rightarrow> ((BlockError + unit) \<times> 'd) option" where
  "write_block D lba buf d =
     (let size = unat (block_size D d) in
      if length buf < size then Some (Inl BlockIo, d) else write_blocks D lba (take size buf) d)"

section \<open>Runs of sectors\<close>

definition store_sectors :: "nat \<Rightarrow> u8 list \<Rightarrow> (nat \<Rightarrow> u8 list) \<Rightarrow> nat \<Rightarrow> u8 list" where
  "store_sectors lba bs f i = (if lba \<le> i \<and> i < lba + length bs div 512 then take 512 (drop ((i - lba) * 512) bs) else f i)"

definition load_sectors :: "nat \<Rightarrow> nat \<Rightarrow> (nat \<Rightarrow> u8 list) \<Rightarrow> u8 list" where
  "load_sectors lba n f = concat (map f [lba..<lba + n])"

lemma length_load_sectors: "\<forall>i. length (f i) = 512 \<Longrightarrow> length (load_sectors a n f) = 512 * n"
  by (induction n) (simp_all add: load_sectors_def)

lemma concat_chunks:
  "concat (map (\<lambda>i. take 512 (drop (i * 512) bs)) [0..<n]) = take (n * 512) bs"
proof (induction n)
  case (Suc n)
  then show ?case using take_add [of "n * 512" 512 bs] by (simp add: add.commute)
qed simp

lemma load_store_sectors: "length bs = 512 * n \<Longrightarrow> load_sectors a n (store_sectors a bs f) = bs"
proof -
  assume bs: "length bs = 512 * n"
  have "map (store_sectors a bs f) [a..<a + n] = map (\<lambda>i. take 512 (drop (i * 512) bs)) [0..<n]"
    by (rule nth_equalityI) (simp_all add: store_sectors_def bs)
  then show ?thesis using concat_chunks [of bs n] bs by (simp add: load_sectors_def mult.commute)
qed

lemma load_store_other: "b + m \<le> a \<or> a + length bs div 512 \<le> b \<Longrightarrow> load_sectors b m (store_sectors a bs f) = load_sectors b m f"
  unfolding load_sectors_def by (rule arg_cong [where f = concat], rule map_cong [OF refl]) (auto simp: store_sectors_def)

lemma length_store_sectors: "\<forall>i. length (f i) = 512 \<Longrightarrow> length (store_sectors a bs f i) = 512"
proof -
  assume f: "\<forall>i. length (f i) = 512"
  have "512 \<le> length bs - (i - a) * 512" if "a \<le> i" "i < a + length bs div 512" using that by linarith
  then show ?thesis using f by (simp add: store_sectors_def)
qed

section \<open>The contract of a device\<close>

text \<open>
  A device whose state satisfies \<open>ok\<close> stores \<open>count\<close> sectors \<open>store d\<close> of 512 bytes.  Transfers of 1 to 512 sectors inside it succeed: a read
  returns the sectors and changes nothing, a write replaces exactly its sectors.
\<close>

locale block_device =
  fixes D :: "'d BlockDevice" and ok :: "'d \<Rightarrow> bool" and store :: "'d \<Rightarrow> nat \<Rightarrow> u8 list" and count :: nat
  assumes count_bound: "count < 2 ^ 55"
    and sector_length: "ok d \<Longrightarrow> length (store d i) = 512"
    and sector_size: "block_size D d = 512"
    and read_ok: "ok d \<Longrightarrow> length buf = 512 * n \<Longrightarrow> 0 < n \<Longrightarrow> n \<le> 512 \<Longrightarrow> lba + n \<le> count \<Longrightarrow>
      \<exists>d'. read_blocks D (of_nat lba) buf d = Some (Inr (load_sectors lba n (store d)), d') \<and> ok d' \<and> store d' = store d"
    and write_ok: "ok d \<Longrightarrow> length buf = 512 * n \<Longrightarrow> 0 < n \<Longrightarrow> n \<le> 512 \<Longrightarrow> lba + n \<le> count \<Longrightarrow>
      \<exists>d'. write_blocks D (of_nat lba) buf d = Some (Inr (), d') \<and> ok d' \<and> store d' = store_sectors lba buf (store d)"
begin

lemma write_then_read:
  assumes "ok d" "length buf = 512 * n" "length old = 512 * n" "0 < n" "n \<le> 512" "lba + n \<le> count"
  shows "\<exists>d' d''. write_blocks D (of_nat lba) buf d = Some (Inr (), d') \<and>
    read_blocks D (of_nat lba) old d' = Some (Inr buf, d'') \<and> ok d'' \<and> store d'' = store_sectors lba buf (store d)"
proof -
  from write_ok [OF assms(1,2,4-6)] obtain d' where d': "write_blocks D (of_nat lba) buf d = Some (Inr (), d')" "ok d'"
    "store d' = store_sectors lba buf (store d)" by blast
  from read_ok [OF d'(2) assms(3-6)] show ?thesis using d' load_store_sectors [OF assms(2)] by auto
qed

lemma read_block_ok:
  assumes "ok d" "length buf = 512" "lba < count"
  shows "\<exists>d'. read_block D (of_nat lba) buf d = Some (Inr (store d lba), d') \<and> ok d' \<and> store d' = store d"
  using read_ok [of d buf 1 lba] assms by (auto simp: read_block_def Let_def sector_size load_sectors_def)

end

text \<open>A device that also promises what the result of any request means: an accepted one was a transfer of its sectors, a refused one did nothing.\<close>

locale checked_device = block_device +
  assumes read_inv: "ok d \<Longrightarrow> read_blocks D lba buf d = Some (r, d') \<Longrightarrow> ok d' \<and> store d' = store d \<and>
      (\<forall>data. r = Inr data \<longrightarrow> data = load_sectors (unat lba) (length buf div 512) (store d))"
    and write_inv: "ok d \<Longrightarrow> write_blocks D lba buf d = Some (w, d') \<Longrightarrow> ok d' \<and>
      store d' = (if w = Inr () then store_sectors (unat lba) buf (store d) else store d)"

end
