(* ===== verification/Ahci.thy ===== *)
theory Ahci
  imports Vmm Block
begin

text \<open>
  The AHCI driver of \<^verbatim>\<open>src/ahci.rs\<close>.  The host controller and the memory it shares with the driver (registers, command list, command table,
  staging window) are hardware: a state of unknown type \<open>'h\<close> and a record \<open>'h hba\<close> of the accesses the driver makes, which every definition
  that touches the controller takes as its first argument.  Log output is left out, and so are the fields of the command
  FIS that stay zero.
\<close>

section \<open>Constants and data\<close>

definition AHCI_PCMD_ST :: u32 where "AHCI_PCMD_ST = 1"
definition AHCI_PCMD_FRE :: u32 where "AHCI_PCMD_FRE = push_bit 4 1"
definition AHCI_PCMD_CR :: u32 where "AHCI_PCMD_CR = push_bit 15 1"
definition AHCI_GHC_AE :: u32 where "AHCI_GHC_AE = push_bit 31 1"
definition AHCI_PCMD_FR :: u32 where "AHCI_PCMD_FR = push_bit 14 1"
definition AHCI_CL_CFL_5 :: u16 where "AHCI_CL_CFL_5 = 5"
definition AHCI_CL_CBR :: u16 where "AHCI_CL_CBR = push_bit 10 1"
definition AHCI_PORT_MAX :: nat where "AHCI_PORT_MAX = 32"
definition AHCI_WINDOW_BASE :: u64 where "AHCI_WINDOW_BASE = 0xFFFFC00000000000"
definition AHCI_WINDOW_SIZE :: u64 where "AHCI_WINDOW_SIZE = 0x3000"
definition AHCI_CL_OFF :: u64 where "AHCI_CL_OFF = 0"
definition AHCI_FB_OFF :: u64 where "AHCI_FB_OFF = 0x1000"
definition AHCI_CT_OFF :: u64 where "AHCI_CT_OFF = 0x2000"
definition AHCI_PAGE_SIZE :: nat where "AHCI_PAGE_SIZE = 0x1000"
definition AHCI_DMA_PAGES :: nat where "AHCI_DMA_PAGES = 64"
definition AHCI_DMA_BASE :: u64 where "AHCI_DMA_BASE = 0xFFFFC10000000000"
definition AHCI_MAX_TRANSFER :: nat where "AHCI_MAX_TRANSFER = AHCI_DMA_PAGES * 0x1000"
definition AHCI_CR_SPINS :: nat where "AHCI_CR_SPINS = 1000000"
definition AHCI_FR_SPINS :: nat where "AHCI_FR_SPINS = 1000000"
definition AHCI_SECTOR_SIZE :: nat where "AHCI_SECTOR_SIZE = 512"
definition AHCI_SECTOR_MAX :: nat where "AHCI_SECTOR_MAX = AHCI_MAX_TRANSFER div AHCI_SECTOR_SIZE"
definition AHCI_FIS_TYPE_REG_H2D :: u8 where "AHCI_FIS_TYPE_REG_H2D = 0x27"
definition AHCI_CMD_READ_DMA_EXT :: u8 where "AHCI_CMD_READ_DMA_EXT = 0x25"
definition AHCI_CMD_WRITE_DMA_EXT :: u8 where "AHCI_CMD_WRITE_DMA_EXT = 0x35"
definition AHCI_CMD_IDENTIFY_DEVICE :: u8 where "AHCI_CMD_IDENTIFY_DEVICE = 0xEC"
definition AHCI_CMD_FLUSH_CACHE_EXT :: u8 where "AHCI_CMD_FLUSH_CACHE_EXT = 0xEA"
definition AHCI_TFD_BSY :: u32 where "AHCI_TFD_BSY = push_bit 7 1"
definition AHCI_TFD_DRQ :: u32 where "AHCI_TFD_DRQ = push_bit 3 1"
definition AHCI_PXIS_TFES :: u32 where "AHCI_PXIS_TFES = push_bit 30 1"
definition AHCI_XFER_SPINS :: nat where "AHCI_XFER_SPINS = 20000000"

record AhciDevice =
  is_present :: bool
  hba :: u64
  port :: u8
  sectors :: u64
  lba48 :: bool

definition EMPTY_DEVICE :: AhciDevice where
  "EMPTY_DEVICE = \<lparr>is_present = False, hba = 0, port = 0, sectors = 0, lba48 = False\<rparr>"

record AhciPrdtEntry =
  dba :: u32
  dbau :: u32
  dbc :: u32

record AhciFisRegH2d =
  fis_type :: u8
  fis_flags :: u8
  command :: u8
  lba0 :: u8
  lba1 :: u8
  lba2 :: u8
  fis_device :: u8
  lba3 :: u8
  lba4 :: u8
  lba5 :: u8
  countl :: u8
  counth :: u8

datatype port_reg = PxIS | PxSERR | PxCMD | PxTFD | PxCI

text \<open>The controller: register accesses of a port, the command header, the rest of the command block, and the staging window.\<close>

record 'h hba_ops =
  rd_ghc :: "u64 \<Rightarrow> 'h \<Rightarrow> u32 \<times> 'h"
  wr_ghc :: "u64 \<Rightarrow> u32 \<Rightarrow> 'h \<Rightarrow> 'h"
  rd_port :: "u64 \<Rightarrow> u8 \<Rightarrow> port_reg \<Rightarrow> 'h \<Rightarrow> u32 \<times> 'h"
  wr_port :: "u64 \<Rightarrow> u8 \<Rightarrow> port_reg \<Rightarrow> u32 \<Rightarrow> 'h \<Rightarrow> 'h"
  wr_clb_fb :: "u64 \<Rightarrow> u8 \<Rightarrow> u64 \<Rightarrow> u64 \<Rightarrow> 'h \<Rightarrow> 'h"
  reset_pages :: "u8 \<Rightarrow> 'h \<Rightarrow> 'h"
  wr_header :: "u8 \<Rightarrow> u16 \<Rightarrow> u16 \<Rightarrow> u32 \<Rightarrow> 'h \<Rightarrow> 'h"
  wr_ctba :: "u8 \<Rightarrow> u32 \<Rightarrow> u32 \<Rightarrow> 'h \<Rightarrow> 'h"
  wr_prdt :: "u8 \<Rightarrow> AhciPrdtEntry list \<Rightarrow> 'h \<Rightarrow> 'h"
  wr_fis :: "u8 \<Rightarrow> AhciFisRegH2d \<Rightarrow> 'h \<Rightarrow> 'h"
  dma_put :: "u8 list \<Rightarrow> 'h \<Rightarrow> 'h"
  dma_get :: "nat \<Rightarrow> 'h \<Rightarrow> u8 list"

record 'h ahci =
  AHCI_DEVICES :: "AhciDevice list"
  AHCI_DEVICE_COUNT :: nat
  AHCI_DMA_READY :: bool
  AHCI_DMA_PHYS :: "u64 list"
  hw :: 'h

definition ahci_start :: "'h \<Rightarrow> 'h ahci" where
  "ahci_start h = \<lparr>AHCI_DEVICES = replicate AHCI_PORT_MAX EMPTY_DEVICE, AHCI_DEVICE_COUNT = 0,
     AHCI_DMA_READY = False, AHCI_DMA_PHYS = replicate AHCI_DMA_PAGES 0, hw = h\<rparr>"

section \<open>Setting up the windows\<close>

definition map_page :: "u64 \<Rightarrow> mm \<Rightarrow> (u64 \<times> mm) option" where
  "map_page virtual_address m =
     (let (physical, p) = pmm_alloc_page (frames m); m = m\<lparr>frames := p\<rparr> in
      if physical \<noteq> PMM_NO_PAGE then map_option (Pair physical) (vmm_map_page virtual_address physical m)
      else Some (physical, m))"

fun dma_window_pages :: "nat list \<Rightarrow> mm \<times> 'h ahci \<Rightarrow> (mm \<times> 'h ahci) option" where
  "dma_window_pages [] s = Some s"
| "dma_window_pages (i # is) (m, a) = do {
     off \<leftarrow> cmul (of_nat i) (of_nat AHCI_PAGE_SIZE);
     virtual_address \<leftarrow> cadd AHCI_DMA_BASE off;
     (physical, m) \<leftarrow> map_page virtual_address m;
     if physical = PMM_NO_PAGE then None
     else dma_window_pages is (m, a\<lparr>AHCI_DMA_PHYS := (AHCI_DMA_PHYS a)[i := physical]\<rparr>)
   }"

definition dma_window_init :: "mm \<times> 'h ahci \<Rightarrow> (mm \<times> 'h ahci) option" where
  "dma_window_init s = (if AHCI_DMA_READY (snd s) then Some s else do {
     (m, a) \<leftarrow> dma_window_pages [0..<AHCI_DMA_PAGES] s;
     Some (m, a\<lparr>AHCI_DMA_READY := True\<rparr>)
   })"

section \<open>Commands\<close>

text \<open>A bounded wait for a condition on the controller.\<close>

fun spin :: "nat \<Rightarrow> ('h \<Rightarrow> bool \<times> 'h) \<Rightarrow> 'h \<Rightarrow> bool \<times> 'h" where
  "spin 0 p h = (False, h)"
| "spin (Suc n) p h = (let (b, h) = p h in if b then (True, h) else spin n p h)"

definition port_is_ready :: "'h hba_ops \<Rightarrow> AhciDevice \<Rightarrow> 'h \<Rightarrow> bool \<times> 'h" where
  "port_is_ready H dev h = (let (tfd, h) = rd_port H (hba dev) (port dev) PxTFD h in (tfd AND (AHCI_TFD_BSY OR AHCI_TFD_DRQ) = 0, h))"

definition slot_is_free :: "'h hba_ops \<Rightarrow> AhciDevice \<Rightarrow> 'h \<Rightarrow> bool \<times> 'h" where
  "slot_is_free H dev h = (let (ci, h) = rd_port H (hba dev) (port dev) PxCI h in (ci AND 1 = 0, h))"

definition prdt_entries :: "nat \<Rightarrow> nat" where
  "prdt_entries len = (len + AHCI_PAGE_SIZE - 1) div AHCI_PAGE_SIZE"

definition build_prdt :: "u64 list \<Rightarrow> nat \<Rightarrow> AhciPrdtEntry list" where
  "build_prdt phys len = map (\<lambda>i.
     (let p = phys ! i; remaining = len - i * AHCI_PAGE_SIZE;
          bytes = (if remaining > AHCI_PAGE_SIZE then AHCI_PAGE_SIZE else remaining)
      in \<lparr>dba = ucast p, dbau = ucast (drop_bit 32 p), dbc = of_nat (bytes - 1)\<rparr>)) [0..<prdt_entries len]"

definition build_fis :: "u8 \<Rightarrow> u64 \<Rightarrow> nat \<Rightarrow> AhciFisRegH2d" where
  "build_fis cmd lba n = \<lparr>fis_type = AHCI_FIS_TYPE_REG_H2D, fis_flags = push_bit 7 1, command = cmd,
     lba0 = ucast lba, lba1 = ucast (drop_bit 8 lba), lba2 = ucast (drop_bit 16 lba), fis_device = push_bit 6 1,
     lba3 = ucast (drop_bit 24 lba), lba4 = ucast (drop_bit 32 lba), lba5 = ucast (drop_bit 40 lba),
     countl = of_nat n, counth = of_nat (n div 256)\<rparr>"

text \<open>The memory a transfer reads from or writes to: the caller's buffer, or the staging window itself.\<close>

datatype xfer_buf = Buffer "u8 list" | Window

definition issue :: "'h hba_ops \<Rightarrow> u64 list \<Rightarrow> AhciDevice \<Rightarrow> u8 \<Rightarrow> u64 \<Rightarrow> nat \<Rightarrow> 'h \<Rightarrow> 'h" where
  "issue H phys dev cmd lba len h =
     (let h = wr_port H (hba dev) (port dev) PxIS 0xFFFFFFFF h;
          h = wr_port H (hba dev) (port dev) PxSERR 0xFFFFFFFF h;
          h = wr_header H (port dev) (AHCI_CL_CFL_5 OR AHCI_CL_CBR) (of_nat (prdt_entries len)) 0 h;
          h = wr_prdt H (port dev) (build_prdt phys len) h;
          h = wr_fis H (port dev) (build_fis cmd lba (len div AHCI_SECTOR_SIZE)) h
      in wr_port H (hba dev) (port dev) PxCI 1 h)"

definition xfer :: "'h hba_ops \<Rightarrow> u64 list \<Rightarrow> AhciDevice \<Rightarrow> u8 \<Rightarrow> u64 \<Rightarrow> xfer_buf \<Rightarrow> nat \<Rightarrow> bool \<Rightarrow> 'h \<Rightarrow>
    bool \<times> xfer_buf \<times> 'h" where
  "xfer H phys dev cmd lba buf len to_disk h =
     (if len = 0 \<or> len mod AHCI_SECTOR_SIZE \<noteq> 0 \<or> len > AHCI_MAX_TRANSFER then (False, buf, h)
      else if len div AHCI_SECTOR_SIZE > AHCI_SECTOR_MAX then (False, buf, h)
      else let h = dma_put H (replicate AHCI_PAGE_SIZE 0) h;
               h = (case buf of Buffer b \<Rightarrow> if to_disk then dma_put H (take len b) h else h | Window \<Rightarrow> h);
               (ready, h) = spin AHCI_XFER_SPINS (port_is_ready H dev) h
           in if \<not> ready then (False, buf, h)
      else let (free, h) = slot_is_free H dev h
           in if \<not> free then (False, buf, h)
      else let h = issue H phys dev cmd lba len h;
               (completed, h) = spin AHCI_XFER_SPINS (slot_is_free H dev) h
           in if \<not> completed then (False, buf, h)
      else let (status, h) = rd_port H (hba dev) (port dev) PxIS h;
               (tfd, h) = rd_port H (hba dev) (port dev) PxTFD h
           in if status AND AHCI_PXIS_TFES \<noteq> 0 \<or> tfd AND 1 \<noteq> 0 then (False, buf, h)
      else (True, (case buf of Buffer b \<Rightarrow> if to_disk then buf else Buffer (dma_get H len h) | Window \<Rightarrow> Window), h))"

definition ident_word :: "u8 list \<Rightarrow> nat \<Rightarrow> u16" where
  "ident_word ident i = push_bit 8 (ucast (ident ! (i * 2 + 1))) OR ucast (ident ! (i * 2))"

definition identify :: "'h hba_ops \<Rightarrow> u64 list \<Rightarrow> u64 \<Rightarrow> u8 \<Rightarrow> 'h \<Rightarrow> (u64 \<times> bool) option \<times> 'h" where
  "identify H phys hb port_num h =
     (let dev = \<lparr>is_present = True, hba = hb, port = port_num, sectors = 0, lba48 = False\<rparr>;
          (done, _, h) = xfer H phys dev AHCI_CMD_IDENTIFY_DEVICE 0 Window AHCI_SECTOR_SIZE False h
      in if \<not> done then (None, h)
      else let ident = dma_get H 512 h; word = (\<lambda>i. ucast (ident_word ident i) :: u64);
               is48 = ident_word ident 83 AND push_bit 10 1 \<noteq> 0;
               n = (if is48 then word 100 OR push_bit 16 (word 101) OR push_bit 32 (word 102) OR push_bit 48 (word 103)
                    else word 60 OR push_bit 16 (word 61))
           in (if n = 0 then None else Some (n, is48), h))"

section \<open>Ports and disks\<close>

definition set_cmd :: "'h hba_ops \<Rightarrow> u64 \<Rightarrow> u8 \<Rightarrow> (u32 \<Rightarrow> u32) \<Rightarrow> 'h \<Rightarrow> 'h" where
  "set_cmd H hb n f h = (let (v, h) = rd_port H hb n PxCMD h in wr_port H hb n PxCMD (f v) h)"

definition cmd_clear :: "'h hba_ops \<Rightarrow> u64 \<Rightarrow> u8 \<Rightarrow> u32 \<Rightarrow> 'h \<Rightarrow> bool \<times> 'h" where
  "cmd_clear H hb n b h = (let (v, h) = rd_port H hb n PxCMD h in (v AND b = 0, h))"

text \<open>Stop a port's engines; \<open>None\<close> when one never stops.\<close>

definition stop_port :: "'h hba_ops \<Rightarrow> u64 \<Rightarrow> u8 \<Rightarrow> 'h \<Rightarrow> 'h option" where
  "stop_port H hb n h =
     (let h = set_cmd H hb n (\<lambda>v. v AND NOT AHCI_PCMD_FRE) h;
          h = set_cmd H hb n (\<lambda>v. v AND NOT AHCI_PCMD_ST) h;
          h = snd (spin AHCI_CR_SPINS (cmd_clear H hb n AHCI_PCMD_CR) h);
          (idle, h) = cmd_clear H hb n AHCI_PCMD_CR h
      in if \<not> idle then None
      else let h = snd (spin AHCI_FR_SPINS (cmd_clear H hb n AHCI_PCMD_FR) h);
               (stopped, h) = cmd_clear H hb n AHCI_PCMD_FR h
           in if \<not> stopped then None else Some h)"

definition start_port :: "'h hba_ops \<Rightarrow> u64 \<Rightarrow> u8 \<Rightarrow> u64 \<Rightarrow> u64 \<Rightarrow> u64 \<Rightarrow> 'h \<Rightarrow> 'h" where
  "start_port H hb n cl_phys fb_phys ct_phys h =
     (let h = reset_pages H n h;
          h = wr_header H n (AHCI_CL_CFL_5 OR AHCI_CL_CBR) 0 0 h;
          h = wr_ctba H n (ucast (ct_phys AND 0xFFFFFFFF)) (ucast (drop_bit 32 ct_phys)) h;
          h = wr_clb_fb H hb n cl_phys fb_phys h;
          h = set_cmd H hb n (\<lambda>v. v OR AHCI_PCMD_FRE) h
      in set_cmd H hb n (\<lambda>v. v OR AHCI_PCMD_ST) h)"

definition ahci_init :: "'h hba_ops \<Rightarrow> u64 \<Rightarrow> u8 \<Rightarrow> mm \<times> 'h ahci \<Rightarrow> (mm \<times> 'h ahci) option" where
  "ahci_init H hb port_num s = (if unat port_num \<ge> AHCI_PORT_MAX then Some s else do {
     (m, a) \<leftarrow> dma_window_init s;
     off \<leftarrow> cmul (ucast port_num) AHCI_WINDOW_SIZE;
     window \<leftarrow> cadd AHCI_WINDOW_BASE off;
     let h = (let (v, h) = rd_ghc H hb (hw a) in wr_ghc H hb (v OR AHCI_GHC_AE) h);
     h \<leftarrow> stop_port H hb port_num h;
     let h = wr_port H hb port_num PxIS 0xFFFFFFFF h;
     let h = wr_port H hb port_num PxSERR 0xFFFFFFFF h;
     (cl_phys, m) \<leftarrow> map_page (window + AHCI_CL_OFF) m;
     (fb_phys, m) \<leftarrow> map_page (window + AHCI_FB_OFF) m;
     (ct_phys, m) \<leftarrow> map_page (window + AHCI_CT_OFF) m;
     if cl_phys = PMM_NO_PAGE \<or> fb_phys = PMM_NO_PAGE \<or> ct_phys = PMM_NO_PAGE then Some (m, a\<lparr>hw := h\<rparr>)
     else let h = start_port H hb port_num cl_phys fb_phys ct_phys h;
              (id, h) = identify H (AHCI_DMA_PHYS a) hb port_num h
          in case id of
               None \<Rightarrow> Some (m, a\<lparr>hw := h\<rparr>)
             | Some (n, is48) \<Rightarrow>
                 if AHCI_DEVICE_COUNT a < length (AHCI_DEVICES a)
                 then Some (m, a\<lparr>hw := h, AHCI_DEVICE_COUNT := AHCI_DEVICE_COUNT a + 1,
                        AHCI_DEVICES := (AHCI_DEVICES a)[AHCI_DEVICE_COUNT a :=
                          \<lparr>is_present = True, hba = hb, port = port_num, sectors = n, lba48 = is48\<rparr>]\<rparr>)
                 else None
   })"

definition disk_count :: "'h ahci \<Rightarrow> nat" where "disk_count a = AHCI_DEVICE_COUNT a"

definition disk_sectors :: "nat \<Rightarrow> 'h ahci \<Rightarrow> u64" where
  "disk_sectors disk a = (if disk \<ge> AHCI_DEVICE_COUNT a then 0 else sectors (AHCI_DEVICES a ! disk))"

definition device :: "nat \<Rightarrow> 'h ahci \<Rightarrow> AhciDevice option" where
  "device disk a = (if disk \<ge> AHCI_DEVICE_COUNT a \<or> \<not> is_present (AHCI_DEVICES a ! disk) then None else Some (AHCI_DEVICES a ! disk))"

text \<open>The range check of \<^verbatim>\<open>read\<close> and \<^verbatim>\<open>write\<close>; the sum is checked arithmetic.\<close>

definition lba_out_of_range :: "u64 \<Rightarrow> nat \<Rightarrow> AhciDevice \<Rightarrow> bool option" where
  "lba_out_of_range lba len dev =
     (if lba \<ge> push_bit 48 1 then Some True
      else do { e \<leftarrow> cadd lba (of_nat (len div AHCI_SECTOR_SIZE)); Some (e > sectors dev) })"

definition ahci_read :: "'h hba_ops \<Rightarrow> nat \<Rightarrow> u64 \<Rightarrow> u8 list \<Rightarrow> 'h ahci \<Rightarrow> (bool \<times> u8 list \<times> 'h ahci) option" where
  "ahci_read H disk lba buffer a = (case device disk a of
      None \<Rightarrow> Some (False, buffer, a)
    | Some dev \<Rightarrow> do {
        bad \<leftarrow> lba_out_of_range lba (length buffer) dev;
        if bad then Some (False, buffer, a)
        else let (r, b, h) = xfer H (AHCI_DMA_PHYS a) dev AHCI_CMD_READ_DMA_EXT lba (Buffer buffer) (length buffer) False (hw a)
             in Some (r, (case b of Buffer b \<Rightarrow> b | Window \<Rightarrow> buffer), a\<lparr>hw := h\<rparr>)
      })"

definition ahci_write :: "'h hba_ops \<Rightarrow> nat \<Rightarrow> u64 \<Rightarrow> u8 list \<Rightarrow> 'h ahci \<Rightarrow> (bool \<times> 'h ahci) option" where
  "ahci_write H disk lba buffer a = (case device disk a of
      None \<Rightarrow> Some (False, a)
    | Some dev \<Rightarrow> do {
        bad \<leftarrow> lba_out_of_range lba (length buffer) dev;
        if bad then Some (False, a)
        else let (r, b, h) = xfer H (AHCI_DMA_PHYS a) dev AHCI_CMD_WRITE_DMA_EXT lba (Buffer buffer) (length buffer) True (hw a)
             in Some (r, a\<lparr>hw := h\<rparr>)
      })"

definition ahci_flush :: "'h hba_ops \<Rightarrow> nat \<Rightarrow> 'h ahci \<Rightarrow> bool \<times> 'h ahci" where
  "ahci_flush H disk a = (case device disk a of
      None \<Rightarrow> (False, a)
    | Some dev \<Rightarrow>
        let (r, b, h) = xfer H (AHCI_DMA_PHYS a) dev AHCI_CMD_FLUSH_CACHE_EXT 0 Window AHCI_SECTOR_SIZE False (hw a)
        in (r, a\<lparr>hw := h\<rparr>))"

section \<open>The command block\<close>

text \<open>What a controller reads out of the block.\<close>

definition fis_lba :: "AhciFisRegH2d \<Rightarrow> u64" where
  "fis_lba f = from_le_bytes [lba0 f, lba1 f, lba2 f, lba3 f, lba4 f, lba5 f]"

definition fis_count :: "AhciFisRegH2d \<Rightarrow> nat" where
  "fis_count f = unat (countl f) + 256 * unat (counth f)"

definition prdt_total :: "AhciPrdtEntry list \<Rightarrow> nat" where
  "prdt_total es = sum_list (map (\<lambda>e. unat (dbc e) + 1) es)"

definition prdt_address :: "AhciPrdtEntry \<Rightarrow> u64" where
  "prdt_address e = push_bit 32 (ucast (dbau e)) OR ucast (dba e)"

definition legal_length :: "nat \<Rightarrow> bool" where
  "legal_length len \<longleftrightarrow> len \<noteq> 0 \<and> len mod AHCI_SECTOR_SIZE = 0 \<and> len \<le> AHCI_MAX_TRANSFER"

lemmas ahci_sizes = AHCI_PAGE_SIZE_def AHCI_SECTOR_SIZE_def AHCI_SECTOR_MAX_def AHCI_MAX_TRANSFER_def AHCI_DMA_PAGES_def

lemma prdt_page_bytes:
  assumes "legal_length len" "i < prdt_entries len"
  shows "unat (dbc (build_prdt phys len ! i)) + 1 = min AHCI_PAGE_SIZE (len - i * AHCI_PAGE_SIZE)"
    "i * AHCI_PAGE_SIZE < len"
proof -
  show lt: "i * AHCI_PAGE_SIZE < len"
    using assms by (auto simp: prdt_entries_def ahci_sizes)
  have "(if len - i * AHCI_PAGE_SIZE > AHCI_PAGE_SIZE then AHCI_PAGE_SIZE else len - i * AHCI_PAGE_SIZE) =
      min AHCI_PAGE_SIZE (len - i * AHCI_PAGE_SIZE)" by (simp add: min_def)
  then have "(of_nat (min AHCI_PAGE_SIZE (len - i * AHCI_PAGE_SIZE) - 1) :: u32) =
      dbc (build_prdt phys len ! i)"
    using assms(2) by (simp only: build_prdt_def Let_def) (simp del: of_nat_diff of_nat_mult)
  moreover have "unat (of_nat (min AHCI_PAGE_SIZE (len - i * AHCI_PAGE_SIZE) - 1) :: u32) =
      min AHCI_PAGE_SIZE (len - i * AHCI_PAGE_SIZE) - 1"
    by (rule unat_of_nat_bounded) (auto simp: ahci_sizes min_def)
  ultimately show "unat (dbc (build_prdt phys len ! i)) + 1 = min AHCI_PAGE_SIZE (len - i * AHCI_PAGE_SIZE)"
    using lt by (simp add: ahci_sizes)
qed

lemma sum_pages: "(\<Sum>i<n. min p (len - i * p)) = min (n * p) len" for p :: nat
  by (induction n) (auto simp: min_def)

lemma prdt_total_build:
  assumes "legal_length len"
  shows "prdt_total (build_prdt phys len) = len"
proof -
  have "prdt_total (build_prdt phys len) = (\<Sum>i<prdt_entries len. unat (dbc (build_prdt phys len ! i)) + 1)"
    by (simp add: prdt_total_def sum_list_sum_nth build_prdt_def atLeast0LessThan)
  also have "\<dots> = (\<Sum>i<prdt_entries len. min AHCI_PAGE_SIZE (len - i * AHCI_PAGE_SIZE))"
    by (rule sum.cong [OF refl]) (simp add: prdt_page_bytes [OF assms, simplified])
  also have "\<dots> = min (prdt_entries len * AHCI_PAGE_SIZE) len" by (rule sum_pages)
  also have "\<dots> = len" by (simp add: prdt_entries_def AHCI_PAGE_SIZE_def)
  finally show ?thesis .
qed

lemma fis_lba_build:
  assumes "lba < push_bit 48 1"
  shows "fis_lba (build_fis cmd lba n) = lba"
proof (rule bit_word_eqI)
  fix k assume k: "k < LENGTH(64)"
  have eq: "fis_lba (build_fis cmd lba n) = from_le_bytes (to_le_bytes 6 lba)"
    by (simp add: fis_lba_def build_fis_def to_le_bytes_def upt_rec)
  have "8 * (k div 8) + k mod 8 = k" by simp
  moreover have "bit lba k \<Longrightarrow> k < 48" using bit_less_exp [of lba 48 k] assms by (simp add: push_bit_eq_mult)
  moreover have "k div 8 < 6 \<longleftrightarrow> k < 48" by auto
  ultimately show "bit (fis_lba (build_fis cmd lba n)) k = bit lba k"
    using k by (auto simp: eq bit_from_le_bytes) (auto simp: to_le_bytes_def bit_simps)
qed

lemma fis_count_build: "n < 65536 \<Longrightarrow> fis_count (build_fis cmd lba n) = n"
  by (simp add: fis_count_def build_fis_def unat_of_nat take_bit_eq_mod)

section \<open>Transfers on a conforming controller\<close>

text \<open>
  What the driver relies on, over the sectors \<open>media h hb p\<close> of the drive behind port \<open>p\<close> of the controller at \<open>hb\<close>.  An idle controller is not busy, has
  slot 0 free and keeps what is put in the staging window.  A command block whose descriptors cover the window pages \<open>phys\<close> and whose byte
  count is the FIS's sector count completes without an error within the driver's polling budget, in the direction of its ATA command.
\<close>

primrec polls :: "'h hba_ops \<Rightarrow> u64 \<Rightarrow> u8 \<Rightarrow> nat \<Rightarrow> 'h \<Rightarrow> 'h" where
  "polls H hb p 0 h = h"
| "polls H hb p (Suc n) h = polls H hb p n (snd (rd_port H hb p PxCI h))"

definition completes :: "'h hba_ops \<Rightarrow> u64 \<Rightarrow> u8 \<Rightarrow> 'h \<Rightarrow> 'h \<Rightarrow> bool" where
  "completes H hb p h h' \<longleftrightarrow> (\<exists>k<AHCI_XFER_SPINS. h' = polls H hb p (Suc k) h \<and>
     (\<forall>j<k. fst (rd_port H hb p PxCI (polls H hb p j h)) AND 1 \<noteq> 0) \<and> fst (rd_port H hb p PxCI (polls H hb p k h)) AND 1 = 0)"

definition quiet :: "'h hba_ops \<Rightarrow> 'h \<Rightarrow> bool" where
  "quiet H h \<longleftrightarrow> (\<forall>hb p. fst (rd_port H hb p PxTFD h) AND (AHCI_TFD_BSY OR AHCI_TFD_DRQ OR 1) = 0 \<and>
     snd (rd_port H hb p PxTFD h) = h \<and> fst (rd_port H hb p PxCI h) AND 1 = 0 \<and> snd (rd_port H hb p PxCI h) = h)"

definition submit :: "'h hba_ops \<Rightarrow> u64 \<Rightarrow> u8 \<Rightarrow> u16 \<Rightarrow> AhciPrdtEntry list \<Rightarrow> AhciFisRegH2d \<Rightarrow> 'h \<Rightarrow> 'h" where
  "submit H hb p flags prdt fis h = wr_port H hb p PxCI 1 (wr_fis H p fis (wr_prdt H p prdt (wr_header H p flags (of_nat (length prdt)) 0
     (wr_port H hb p PxSERR 0xFFFFFFFF (wr_port H hb p PxIS 0xFFFFFFFF h)))))"

definition hba_conforms :: "'h hba_ops \<Rightarrow> u64 list \<Rightarrow> ('h \<Rightarrow> bool) \<Rightarrow> ('h \<Rightarrow> u64 \<Rightarrow> u8 \<Rightarrow> nat \<Rightarrow> u8 list) \<Rightarrow> bool" where
  "hba_conforms H phys idle media \<longleftrightarrow>
     (\<forall>h hb p i. length (media h hb p i) = 512) \<and>
     (\<forall>h. idle h \<longrightarrow> quiet H h) \<and>
     (\<forall>h bs. idle h \<longrightarrow> idle (dma_put H bs h) \<and> media (dma_put H bs h) = media h \<and> dma_get H (length bs) (dma_put H bs h) = bs) \<and>
     (\<forall>h hb p flags prdt fis. idle h \<longrightarrow> fis_count fis \<noteq> 0 \<longrightarrow> prdt_total prdt = 512 * fis_count fis \<longrightarrow>
        (\<forall>i<length prdt. prdt_address (prdt ! i) = phys ! i) \<longrightarrow>
        (\<exists>h'. completes H hb p (submit H hb p flags prdt fis h) h' \<and> idle h' \<and>
           fst (rd_port H hb p PxIS h') AND AHCI_PXIS_TFES = 0 \<and> snd (rd_port H hb p PxIS h') = h' \<and>
           (command fis = AHCI_CMD_READ_DMA_EXT \<longrightarrow> media h' = media h \<and>
              dma_get H (512 * fis_count fis) h' = load_sectors (unat (fis_lba fis)) (fis_count fis) (media h hb p)) \<and>
           (command fis = AHCI_CMD_WRITE_DMA_EXT \<longrightarrow> media h' = (media h)(hb := (media h hb)(p :=
              store_sectors (unat (fis_lba fis)) (dma_get H (512 * fis_count fis) h) (media h hb p)))) \<and>
           (command fis = AHCI_CMD_FLUSH_CACHE_EXT \<longrightarrow> media h' = media h)))"

lemma spin_polls:
  assumes "\<forall>j<k. fst (rd_port H (hba dev) (port dev) PxCI (polls H (hba dev) (port dev) j h)) AND 1 \<noteq> 0"
    "fst (rd_port H (hba dev) (port dev) PxCI (polls H (hba dev) (port dev) k h)) AND 1 = 0" "k < n"
  shows "spin n (slot_is_free H dev) h = (True, polls H (hba dev) (port dev) (Suc k) h)"
  using assms
proof (induction n arbitrary: k h)
  case (Suc n)
  show ?case
  proof (cases k)
    case 0
    then show ?thesis using Suc.prems(2) by (simp add: slot_is_free_def case_prod_beta)
  next
    case (Suc k')
    have "fst (rd_port H (hba dev) (port dev) PxCI h) AND 1 \<noteq> 0" using Suc.prems(1) Suc by force
    then show ?thesis using Suc.IH [of k' "snd (rd_port H (hba dev) (port dev) PxCI h)"] Suc.prems Suc
      by (force simp: slot_is_free_def case_prod_beta)
  qed
qed simp

lemma spin_completes:
  "completes H (hba dev) (port dev) h h' \<Longrightarrow> spin AHCI_XFER_SPINS (slot_is_free H dev) h = (True, h')"
  unfolding completes_def by (elim exE conjE) (simp only: spin_polls)

lemma quiet_ready:
  assumes "quiet H h"
  shows "spin AHCI_XFER_SPINS (port_is_ready H dev) h = (True, h)" "slot_is_free H dev h = (True, h)"
proof -
  have m: "v AND (AHCI_TFD_BSY OR AHCI_TFD_DRQ) = 0" if "v AND (AHCI_TFD_BSY OR AHCI_TFD_DRQ OR 1) = 0" for v
    using that by (metis (no_types, lifting) and.assoc and_zero_eq or.assoc bit.conj_disj_distrib or_eq_0_iff)
  obtain n where n: "AHCI_XFER_SPINS = Suc n" using gr0_implies_Suc [of AHCI_XFER_SPINS] by (auto simp: AHCI_XFER_SPINS_def)
  show "spin AHCI_XFER_SPINS (port_is_ready H dev) h = (True, h)"
    unfolding n using assms m by (simp add: port_is_ready_def case_prod_beta quiet_def)
  show "slot_is_free H dev h = (True, h)" using assms by (simp add: slot_is_free_def case_prod_beta quiet_def)
qed

text \<open>The driver's block for a legal length is one the contract covers.\<close>

lemma submit_build:
  assumes "legal_length len"
  shows "issue H phys dev cmd lba len h = submit H (hba dev) (port dev) (AHCI_CL_CFL_5 OR AHCI_CL_CBR)
      (build_prdt phys len) (build_fis cmd lba (len div AHCI_SECTOR_SIZE)) h"
    "fis_count (build_fis cmd lba (len div AHCI_SECTOR_SIZE)) = len div 512" "len div 512 \<noteq> 0" "512 * (len div 512) = len"
    "i < length (build_prdt phys len) \<Longrightarrow> prdt_address (build_prdt phys len ! i) = phys ! i"
proof -
  show "issue H phys dev cmd lba len h = submit H (hba dev) (port dev) (AHCI_CL_CFL_5 OR AHCI_CL_CBR)
      (build_prdt phys len) (build_fis cmd lba (len div AHCI_SECTOR_SIZE)) h"
    by (simp add: issue_def submit_def build_prdt_def Let_def)
  show "fis_count (build_fis cmd lba (len div AHCI_SECTOR_SIZE)) = len div 512" "len div 512 \<noteq> 0" "512 * (len div 512) = len"
    using assms fis_count_build [of "len div 512" cmd lba] by (auto simp: legal_length_def ahci_sizes)
  have "push_bit 32 (ucast (ucast (drop_bit 32 a) :: u32)) OR ucast (ucast a :: u32) = a" for a :: u64
    by (rule bit_word_eqI) (auto simp: bit_simps not_less)
  then show "prdt_address (build_prdt phys len ! i) = phys ! i" if "i < length (build_prdt phys len)"
    using that by (simp add: build_prdt_def prdt_address_def Let_def)
qed

lemma hba_conformsD:
  assumes "hba_conforms H phys idle media" "idle h"
  shows "quiet H h"
    "idle (dma_put H bs h) \<and> media (dma_put H bs h) = media h \<and> dma_get H (length bs) (dma_put H bs h) = bs"
  using assms unfolding hba_conforms_def by blast+

lemma hba_conforms_run:
  assumes "hba_conforms H phys idle media" "idle h" "fis_count fis \<noteq> 0" "prdt_total prdt = 512 * fis_count fis"
    "\<forall>i<length prdt. prdt_address (prdt ! i) = phys ! i"
  shows "\<exists>h'. completes H hb p (submit H hb p flags prdt fis h) h' \<and> idle h' \<and>
           fst (rd_port H hb p PxIS h') AND AHCI_PXIS_TFES = 0 \<and> snd (rd_port H hb p PxIS h') = h' \<and>
           (command fis = AHCI_CMD_READ_DMA_EXT \<longrightarrow> media h' = media h \<and>
              dma_get H (512 * fis_count fis) h' = load_sectors (unat (fis_lba fis)) (fis_count fis) (media h hb p)) \<and>
           (command fis = AHCI_CMD_WRITE_DMA_EXT \<longrightarrow> media h' = (media h)(hb := (media h hb)(p :=
              store_sectors (unat (fis_lba fis)) (dma_get H (512 * fis_count fis) h) (media h hb p)))) \<and>
           (command fis = AHCI_CMD_FLUSH_CACHE_EXT \<longrightarrow> media h' = media h)"
  using assms(1) [unfolded hba_conforms_def, THEN conjunct2, THEN conjunct2, THEN conjunct2, rule_format, OF assms(2-4)] assms(5)
  by blast

lemma command_conforming:
  assumes conf: "hba_conforms H phys idle media" and idle: "idle h" and len: "legal_length len" and lba: "lba < push_bit 48 1"
  shows "\<exists>h'. spin AHCI_XFER_SPINS (slot_is_free H dev) (issue H phys dev cmd lba len h) = (True, h') \<and> idle h' \<and>
      fst (rd_port H (hba dev) (port dev) PxIS h') AND AHCI_PXIS_TFES = 0 \<and> snd (rd_port H (hba dev) (port dev) PxIS h') = h' \<and>
      (cmd = AHCI_CMD_READ_DMA_EXT \<longrightarrow> media h' = media h \<and>
         dma_get H len h' = load_sectors (unat lba) (len div 512) (media h (hba dev) (port dev))) \<and>
      (cmd = AHCI_CMD_WRITE_DMA_EXT \<longrightarrow> media h' = (media h)(hba dev := (media h (hba dev))(port dev :=
         store_sectors (unat lba) (dma_get H len h) (media h (hba dev) (port dev)))))"
proof -
  let ?fis = "build_fis cmd lba (len div AHCI_SECTOR_SIZE)"
  note S = submit_build [OF len]
  have nz: "fis_count ?fis \<noteq> 0" using S(2,3) by simp
  have tot: "prdt_total (build_prdt phys len) = 512 * fis_count ?fis" using prdt_total_build [OF len] S(2,4) by simp
  have pg: "\<forall>i<length (build_prdt phys len). prdt_address (build_prdt phys len ! i) = phys ! i" using S(5) by blast
  have cf: "command ?fis = cmd" by (simp add: build_fis_def)
  show ?thesis
    using hba_conforms_run [OF conf idle nz tot pg, of "hba dev" "port dev" "AHCI_CL_CFL_5 OR AHCI_CL_CBR"]
    unfolding S(1) [symmetric] S(2) S(4) cf fis_lba_build [OF lba]
    by (elim exE conjE) (intro exI conjI; (assumption | rule spin_completes | simp))
qed

lemma quiet_no_error: "quiet H h \<Longrightarrow> fst (rd_port H hb p PxTFD h) AND 1 = 0 \<and> snd (rd_port H hb p PxTFD h) = h"
  unfolding quiet_def by (metis (no_types, lifting) bit.conj_disj_distrib or_eq_0_iff)

lemma xfer_conforming:
  assumes conf: "hba_conforms H phys idle media" and idle: "idle h" and len: "legal_length len"
    and lba: "lba < push_bit 48 1" and b: "length b = len"
  shows "\<exists>h'. xfer H phys dev AHCI_CMD_READ_DMA_EXT lba (Buffer b) len False h =
      (True, Buffer (load_sectors (unat lba) (len div 512) (media h (hba dev) (port dev))), h') \<and> idle h' \<and> media h' = media h"
    "\<exists>h'. xfer H phys dev AHCI_CMD_WRITE_DMA_EXT lba (Buffer b) len True h = (True, Buffer b, h') \<and> idle h' \<and>
      media h' = (media h)(hba dev := (media h (hba dev))(port dev := store_sectors (unat lba) b (media h (hba dev) (port dev))))"
proof -
  note C = hba_conformsD [OF conf]
  define h0 where "h0 = dma_put H (replicate AHCI_PAGE_SIZE 0) h"
  define h1 where "h1 = dma_put H b h0"
  have h0: "idle h0" "media h0 = media h" using C(2) [OF idle] by (simp_all add: h0_def)
  have h1: "idle h1" "media h1 = media h" "dma_get H len h1 = b" using C(2) [OF h0(1)] h0(2) b by (auto simp: h1_def)
  have ok: "\<not> (len = 0 \<or> len mod AHCI_SECTOR_SIZE \<noteq> 0 \<or> len > AHCI_MAX_TRANSFER)" "\<not> len div AHCI_SECTOR_SIZE > AHCI_SECTOR_MAX"
    using len div_le_mono [of len AHCI_MAX_TRANSFER AHCI_SECTOR_SIZE] by (auto simp: legal_length_def AHCI_SECTOR_MAX_def)
  note R0 = quiet_ready [OF C(1) [OF h0(1)]] and R1 = quiet_ready [OF C(1) [OF h1(1)]]
  from command_conforming [OF conf h0(1) len lba, of dev AHCI_CMD_READ_DMA_EXT]
  obtain h' where h': "spin AHCI_XFER_SPINS (slot_is_free H dev) (issue H phys dev AHCI_CMD_READ_DMA_EXT lba len h0) = (True, h')"
    "idle h'" "fst (rd_port H (hba dev) (port dev) PxIS h') AND AHCI_PXIS_TFES = 0" "snd (rd_port H (hba dev) (port dev) PxIS h') = h'"
    "media h' = media h0" "dma_get H len h' = load_sectors (unat lba) (len div 512) (media h0 (hba dev) (port dev))"
    by blast
  then show "\<exists>h'. xfer H phys dev AHCI_CMD_READ_DMA_EXT lba (Buffer b) len False h =
      (True, Buffer (load_sectors (unat lba) (len div 512) (media h (hba dev) (port dev))), h') \<and> idle h' \<and> media h' = media h"
    using ok R0 h0(2) quiet_no_error [OF C(1) [OF h'(2)]]
    by (intro exI [of _ h']) (simp add: xfer_def Let_def case_prod_beta flip: h0_def)
  from command_conforming [OF conf h1(1) len lba, of dev AHCI_CMD_WRITE_DMA_EXT]
  obtain h'' where h'': "spin AHCI_XFER_SPINS (slot_is_free H dev) (issue H phys dev AHCI_CMD_WRITE_DMA_EXT lba len h1) = (True, h'')"
    "idle h''" "fst (rd_port H (hba dev) (port dev) PxIS h'') AND AHCI_PXIS_TFES = 0" "snd (rd_port H (hba dev) (port dev) PxIS h'') = h''"
    "media h'' = (media h1)(hba dev := (media h1 (hba dev))(port dev :=
         store_sectors (unat lba) (dma_get H len h1) (media h1 (hba dev) (port dev))))"
    by blast
  then show "\<exists>h'. xfer H phys dev AHCI_CMD_WRITE_DMA_EXT lba (Buffer b) len True h = (True, Buffer b, h') \<and> idle h' \<and>
      media h' = (media h)(hba dev := (media h (hba dev))(port dev := store_sectors (unat lba) b (media h (hba dev) (port dev))))"
    using ok R1 h1 b quiet_no_error [OF C(1) [OF h''(2)]]
    by (intro exI [of _ h'']) (simp add: xfer_def Let_def case_prod_beta flip: h0_def h1_def)
qed

lemma lba_in_range:
  assumes "unat lba + len div 512 \<le> unat (sectors dev)" "lba < push_bit 48 1"
  shows "lba_out_of_range lba len dev = Some False"
proof -
  have n: "len div 512 < 2 ^ 64" "unat lba + len div 512 < 2 ^ 64" using assms(1) unat_u64 [of "sectors dev"] by linarith+
  then have u: "unat (of_nat (len div 512) :: u64) = len div 512" by (intro unat_of_nat_bounded) simp
  then have "unat (lba + of_nat (len div 512)) = unat lba + len div 512" using n by (simp add: unat_add_bounded)
  then show ?thesis using assms u n
    by (simp add: lba_out_of_range_def cadd_def AHCI_SECTOR_SIZE_def not_le word_less_nat_alt)
qed

lemma ahci_read_ok:
  assumes "hba_conforms H (AHCI_DMA_PHYS a) idle media" "idle (hw a)" "device disk a = Some dev" "legal_length (length buf)"
    "lba < push_bit 48 1" "unat lba + length buf div 512 \<le> unat (sectors dev)"
  shows "\<exists>h. ahci_read H disk lba buf a =
      Some (True, load_sectors (unat lba) (length buf div 512) (media (hw a) (hba dev) (port dev)), a\<lparr>hw := h\<rparr>) \<and>
      idle h \<and> media h = media (hw a)"
proof -
  from xfer_conforming(1) [OF assms(1,2,4,5) refl, of dev] obtain h where
    "xfer H (AHCI_DMA_PHYS a) dev AHCI_CMD_READ_DMA_EXT lba (Buffer buf) (length buf) False (hw a) =
      (True, Buffer (load_sectors (unat lba) (length buf div 512) (media (hw a) (hba dev) (port dev))), h) \<and> idle h \<and> media h = media (hw a)" ..
  then show ?thesis using assms(3) lba_in_range [OF assms(6,5)] by (intro exI [of _ h]) (simp add: ahci_read_def)
qed

lemma ahci_write_ok:
  assumes "hba_conforms H (AHCI_DMA_PHYS a) idle media" "idle (hw a)" "device disk a = Some dev" "legal_length (length buf)"
    "lba < push_bit 48 1" "unat lba + length buf div 512 \<le> unat (sectors dev)"
  shows "\<exists>h. ahci_write H disk lba buf a = Some (True, a\<lparr>hw := h\<rparr>) \<and> idle h \<and>
      media h = (media (hw a))(hba dev := (media (hw a) (hba dev))(port dev := store_sectors (unat lba) buf (media (hw a) (hba dev) (port dev))))"
proof -
  from xfer_conforming(2) [OF assms(1,2,4,5) refl, of dev] obtain h where
    "xfer H (AHCI_DMA_PHYS a) dev AHCI_CMD_WRITE_DMA_EXT lba (Buffer buf) (length buf) True (hw a) = (True, Buffer buf, h) \<and> idle h \<and>
      media h = (media (hw a))(hba dev := (media (hw a) (hba dev))(port dev := store_sectors (unat lba) buf (media (hw a) (hba dev) (port dev))))" ..
  then show ?thesis using assms(3) lba_in_range [OF assms(6,5)] by (intro exI [of _ h]) (simp add: ahci_write_def)
qed

lemma device_hw [simp]: "device disk (a\<lparr>hw := h\<rparr>) = device disk a"
  by (simp add: device_def)

text \<open>A controller that meets the contract: sectors in memory, commands executed when they are issued.\<close>

record ram_hba =
  ram_disk :: "u64 \<Rightarrow> u8 \<Rightarrow> nat \<Rightarrow> u8 list"
  ram_win :: "u8 list"
  ram_fis :: AhciFisRegH2d

definition ram_media :: "ram_hba \<Rightarrow> u64 \<Rightarrow> u8 \<Rightarrow> nat \<Rightarrow> u8 list" where
  "ram_media h hb p i = take 512 (ram_disk h hb p i @ replicate 512 0)"

definition ram_exec :: "u64 \<Rightarrow> u8 \<Rightarrow> ram_hba \<Rightarrow> ram_hba" where
  "ram_exec hb p h =
     (let lba = unat (fis_lba (ram_fis h)); n = fis_count (ram_fis h) in
      if command (ram_fis h) = AHCI_CMD_READ_DMA_EXT
      then h\<lparr>ram_win := load_sectors lba n (ram_media h hb p) @ drop (512 * n) (ram_win h)\<rparr>
      else if command (ram_fis h) = AHCI_CMD_WRITE_DMA_EXT
      then h\<lparr>ram_disk := (ram_disk h)(hb := (ram_disk h hb)(p := store_sectors lba (take (512 * n) (ram_win h)) (ram_disk h hb p)))\<rparr>
      else h)"

definition ram_ops :: "ram_hba hba_ops" where
  "ram_ops = \<lparr>rd_ghc = (\<lambda>_ h. (0, h)), wr_ghc = (\<lambda>_ _ h. h), rd_port = (\<lambda>_ _ _ h. (0, h)),
     wr_port = (\<lambda>hb p r v h. if r = PxCI then ram_exec hb p h else h), wr_clb_fb = (\<lambda>_ _ _ _ h. h), reset_pages = (\<lambda>_ h. h),
     wr_header = (\<lambda>_ _ _ _ h. h), wr_ctba = (\<lambda>_ _ _ h. h), wr_prdt = (\<lambda>_ _ h. h), wr_fis = (\<lambda>_ f h. h\<lparr>ram_fis := f\<rparr>),
     dma_put = (\<lambda>bs h. h\<lparr>ram_win := bs @ drop (length bs) (ram_win h)\<rparr>), dma_get = (\<lambda>n h. take n (ram_win h))\<rparr>"

lemma store_sectors_padded:
  "take 512 (store_sectors a bs f i @ replicate 512 0) = store_sectors a bs (\<lambda>i. take 512 (f i @ replicate 512 0)) i"
proof (cases "a \<le> i \<and> i < a + length bs div 512")
  case True
  then have "(i - a) * 512 + 512 \<le> length bs" by linarith
  then show ?thesis using True by (simp add: store_sectors_def)
qed (auto simp: store_sectors_def)

lemma ram_media_simps [simp]: "ram_media (h\<lparr>ram_fis := f\<rparr>) = ram_media h" "ram_media (h\<lparr>ram_win := b\<rparr>) = ram_media h"
  by (simp_all add: ram_media_def fun_eq_iff)

lemma ram_media_store: "ram_media (h\<lparr>ram_disk := (ram_disk h)(hb := (ram_disk h hb)(p := store_sectors a bs (ram_disk h hb p)))\<rparr>) =
    (ram_media h)(hb := (ram_media h hb)(p := store_sectors a bs (ram_media h hb p)))"
proof -
  have "ram_media h hb p = (\<lambda>i. take 512 (ram_disk h hb p i @ replicate 512 0))" by (simp add: ram_media_def fun_eq_iff)
  then show ?thesis using store_sectors_padded [of a bs "ram_disk h hb p"]
    by (intro ext) (simp add: ram_media_def fun_upd_apply del: take_append)
qed

lemma ram_conforms: "hba_conforms ram_ops phys (\<lambda>_. True) ram_media"
proof -
  have c: "completes ram_ops hb p h h" for hb p h
    unfolding completes_def by (rule exI [of _ 0]) (simp add: ram_ops_def AHCI_XFER_SPINS_def)
  have l: "\<forall>i. length (ram_media h hb p i) = 512" for h hb p by (auto simp: ram_media_def min_def)
  have s: "submit ram_ops hb p flags prdt fis h = ram_exec hb p (h\<lparr>ram_fis := fis\<rparr>)" for hb p flags prdt fis h
    by (simp add: submit_def ram_ops_def)
  have r: "ram_media (ram_exec hb p (h\<lparr>ram_fis := fis\<rparr>)) = ram_media h \<and>
      dma_get ram_ops (512 * fis_count fis) (ram_exec hb p (h\<lparr>ram_fis := fis\<rparr>)) =
        load_sectors (unat (fis_lba fis)) (fis_count fis) (ram_media h hb p)"
    if "command fis = AHCI_CMD_READ_DMA_EXT" for hb p fis h
    using that length_load_sectors [OF l] by (simp add: ram_exec_def Let_def ram_ops_def)
  have w: "ram_media (ram_exec hb p (h\<lparr>ram_fis := fis\<rparr>)) = (ram_media h)(hb := (ram_media h hb)(p :=
        store_sectors (unat (fis_lba fis)) (dma_get ram_ops (512 * fis_count fis) h) (ram_media h hb p)))"
    if "command fis = AHCI_CMD_WRITE_DMA_EXT" for hb p fis h
    using that ram_media_store [of "h\<lparr>ram_fis := fis\<rparr>" hb p] by (simp add: ram_exec_def Let_def ram_ops_def AHCI_CMD_READ_DMA_EXT_def AHCI_CMD_WRITE_DMA_EXT_def)
  have f: "ram_media (ram_exec hb p (h\<lparr>ram_fis := fis\<rparr>)) = ram_media h" if "command fis = AHCI_CMD_FLUSH_CACHE_EXT" for hb p fis h
    using that by (auto simp: ram_exec_def Let_def ram_media_def fun_eq_iff AHCI_CMD_READ_DMA_EXT_def AHCI_CMD_WRITE_DMA_EXT_def
        AHCI_CMD_FLUSH_CACHE_EXT_def)
  have q: "quiet ram_ops h" for h by (simp add: quiet_def ram_ops_def)
  have z: "rd_port ram_ops hb p r h = (0, h)" for hb p r h by (simp add: ram_ops_def)
  have d: "ram_media (dma_put ram_ops bs h) = ram_media h \<and> dma_get ram_ops (length bs) (dma_put ram_ops bs h) = bs" for bs h
    by (simp add: ram_ops_def ram_media_def fun_eq_iff)
  show ?thesis unfolding hba_conforms_def s using c l q z d r w f by (auto intro!: exI [of _ "ram_exec _ _ _"])
qed

text \<open>A request that passes the range check lies on the disk.\<close>

lemma lba_on_disk:
  assumes out: "lba_out_of_range lba (length buf) dev = Some False" and legal: "legal_length (length buf)"
  shows "lba < push_bit 48 1" "unat lba + length buf div 512 \<le> unat (sectors dev)"
proof -
  show lba: "lba < push_bit 48 1" using out by (auto simp: lba_out_of_range_def not_le split: if_splits)
  have "length buf div 512 < 2 ^ 64" using legal div_le_dividend [of "length buf" 512]
    by (simp add: legal_length_def ahci_sizes del: div_le_dividend)
  then have "unat (of_nat (length buf div 512) :: u64) = length buf div 512" by (intro unat_of_nat_bounded) simp
  then show "unat lba + length buf div 512 \<le> unat (sectors dev)"
    using out lba cadd_unat [of lba "of_nat (length buf div 512)"]
    by (auto simp: lba_out_of_range_def AHCI_SECTOR_SIZE_def word_le_nat_alt not_less not_le split: if_splits Option.bind_splits)
qed

text \<open>A read that succeeds was legal and inside the disk.\<close>

lemma ahci_read_True:
  assumes conf: "hba_conforms H (AHCI_DMA_PHYS a) idle media" and idle: "idle (hw a)"
    and r: "ahci_read H disk lba buf a = Some (True, r, a')"
  shows "\<exists>dev h. device disk a = Some dev \<and> r = load_sectors (unat lba) (length buf div 512) (media (hw a) (hba dev) (port dev)) \<and>
    a' = a\<lparr>hw := h\<rparr> \<and> idle h \<and> media h = media (hw a)"
proof -
  obtain dev where dev: "device disk a = Some dev" using r by (auto simp: ahci_read_def split: option.splits)
  have out: "lba_out_of_range lba (length buf) dev = Some False" and
    x: "fst (xfer H (AHCI_DMA_PHYS a) dev AHCI_CMD_READ_DMA_EXT lba (Buffer buf) (length buf) False (hw a))"
    using r dev by (auto simp: ahci_read_def split: Option.bind_splits if_splits prod.splits)
  have legal: "legal_length (length buf)"
    using x by (auto simp: xfer_def legal_length_def split: if_splits)
  from ahci_read_ok [OF conf idle dev legal lba_on_disk [OF out legal]] show ?thesis using r dev by auto
qed

section \<open>Properties\<close>

text \<open>
  The command block.  For every length the driver accepts, the descriptor table has at most 64 entries of at most a page each, an even
  number of bytes, that together cover the length exactly and point at the pages of the staging window in order; the FIS carries the command,
  the 48-bit block address and the sector count, all of which read back as they were given.
\<close>

lemma ahci_command_block:
  assumes "legal_length len" "lba < push_bit 48 1"
  shows "prdt_total (build_prdt phys len) = len \<and> length (build_prdt phys len) \<le> AHCI_DMA_PAGES \<and>
    (\<forall>i<length (build_prdt phys len). let e = build_prdt phys len ! i in
       prdt_address e = phys ! i \<and> unat (dbc e) + 1 \<le> AHCI_PAGE_SIZE \<and> even (unat (dbc e) + 1)) \<and>
    (let f = build_fis cmd lba (len div AHCI_SECTOR_SIZE) in
       command f = cmd \<and> fis_lba f = lba \<and> fis_count f * AHCI_SECTOR_SIZE = len)"
proof -
  have "even (unat (dbc (build_prdt phys len ! i)) + 1)" if "i < prdt_entries len" for i
  proof -
    have "even len" using assms(1) by (auto simp: legal_length_def AHCI_SECTOR_SIZE_def elim!: dvd_trans [rotated])
    then show ?thesis unfolding prdt_page_bytes(1) [OF assms(1) that] by (auto simp: min_def AHCI_PAGE_SIZE_def)
  qed
  moreover have "prdt_entries len \<le> AHCI_DMA_PAGES" using assms(1) by (auto simp: prdt_entries_def legal_length_def ahci_sizes)
  moreover have "length (build_prdt phys len) = prdt_entries len" by (simp add: build_prdt_def)
  moreover have "unat (dbc (build_prdt phys len ! i)) + 1 \<le> AHCI_PAGE_SIZE" if "i < prdt_entries len" for i
    using prdt_page_bytes(1) [OF assms(1) that, of phys] by simp
  ultimately show ?thesis
    using submit_build(2,4,5) [OF assms(1)] prdt_total_build [OF assms(1)] fis_lba_build [OF assms(2)]
    by (simp add: build_fis_def AHCI_SECTOR_SIZE_def mult.commute)
qed


definition sample_ahci :: "ram_hba ahci" where
  "sample_ahci = (ahci_start \<lparr>ram_disk = (\<lambda>_ _ _. []), ram_win = [], ram_fis = build_fis 0 0 0\<rparr>)
     \<lparr>AHCI_DEVICES := [\<lparr>is_present = True, hba = 0xFEBF1000, port = 0, sectors = 2048, lba48 = True\<rparr>], AHCI_DEVICE_COUNT := 1\<rparr>"


end
