(* ===== verification/Gpt.thy ===== *)
theory Gpt
  imports Ahci Crc
begin

text \<open>
  The GUID partition table reader of \<^verbatim>\<open>src/gpt.rs\<close>: \<^verbatim>\<open>detect\<close> on the disks of the AHCI driver, the table of parsed disks, and a
  partition as a block device.
\<close>

section \<open>Data\<close>

definition SECTOR_SIZE :: u32 where "SECTOR_SIZE = 512"

definition GPT_SIGNATURE :: "u8 list" where
  "GPT_SIGNATURE = [0x45, 0x46, 0x49, 0x20, 0x50, 0x41, 0x52, 0x54]"

record GptPartition =
  disk :: nat
  start_lba :: u64
  last_lba :: u64
  type_guid :: "u8 list"
  guid :: "u8 list"
  name :: "u8 list"

definition type_is_linux :: "GptPartition \<Rightarrow> bool" where
  "type_is_linux p \<longleftrightarrow> type_guid p = [0xAF, 0x3D, 0xC6, 0x0F, 0x83, 0x84, 0x72, 0x47,
                                    0x8E, 0x79, 0x3D, 0x69, 0xD8, 0x47, 0x7D, 0xE4]"

record GptDisk =
  parsed :: bool
  part_count :: nat
  entries_lba :: u64
  num_entries :: u32
  entry_size :: u32
  parts :: "GptPartition list"

definition MAX_PARTITIONS :: nat where "MAX_PARTITIONS = 16"

definition EMPTY_PARTITION :: "nat \<Rightarrow> GptPartition" where
  "EMPTY_PARTITION d = \<lparr>disk = d, start_lba = 0, last_lba = 0, type_guid = replicate 16 0, guid = replicate 16 0, name = replicate 72 0\<rparr>"

definition EMPTY_DISK :: GptDisk where
  "EMPTY_DISK = \<lparr>parsed = False, part_count = 0, entries_lba = 0, num_entries = 0, entry_size = 0,
     parts = replicate MAX_PARTITIONS (EMPTY_PARTITION 0)\<rparr>"

type_synonym gpt_disks = "GptDisk list"

definition GPT_DISKS :: gpt_disks where "GPT_DISKS = replicate 8 EMPTY_DISK"

section \<open>Parsing\<close>

definition gpt_crc :: "u8 list \<Rightarrow> u32" where
  "gpt_crc data = crc32 0xFFFFFFFF data XOR 0xFFFFFFFF"

definition u32le :: "u8 list \<Rightarrow> nat \<Rightarrow> u32 option" where
  "u32le b off = map_option from_le_bytes (rd b off 4)"

definition u64le :: "u8 list \<Rightarrow> nat \<Rightarrow> u64 option" where
  "u64le b off = map_option from_le_bytes (rd b off 8)"

text \<open>One entry: the partitions found so far, in their array, and how many.\<close>

definition take_entry :: "nat \<Rightarrow> u8 list \<Rightarrow> GptPartition list \<times> nat \<Rightarrow> (GptPartition list \<times> nat) option" where
  "take_entry d e = (\<lambda>(ps, n). do {
     ty \<leftarrow> rd e 0 16;
     if list_all (\<lambda>b. b = 0) ty then Some (ps, n)
     else do {
       start \<leftarrow> u64le e 32;
       last \<leftarrow> u64le e 40;
       if start = 0 \<or> last < start \<or> n \<ge> MAX_PARTITIONS then Some (ps, n)
       else do {
         g \<leftarrow> rd e 16 16;
         let name_len = min (length e - 56) 72;
         nm \<leftarrow> rd e 56 name_len;
         Some (ps[n := \<lparr>disk = d, start_lba = start, last_lba = last, type_guid = ty, guid = g,
                        name = nm @ replicate (72 - name_len) 0\<rparr>], n + 1)
       }
     }
   })"

text \<open>The slots of one sector: \<open>i\<close> is the running entry index, \<open>num\<close> the number of entries.\<close>

fun scan_slots :: "nat \<Rightarrow> nat \<Rightarrow> nat \<Rightarrow> u8 list \<Rightarrow> nat list \<Rightarrow> nat \<times> GptPartition list \<times> nat \<Rightarrow>
    (nat \<times> GptPartition list \<times> nat) option" where
  "scan_slots d num esize esec [] (i, st) = Some (i, st)"
| "scan_slots d num esize esec (slot # slots) (i, st) =
     (if i \<ge> num then Some (i, st)
      else do {
        e \<leftarrow> rd esec (slot * esize) esize;
        st \<leftarrow> take_entry d e st;
        scan_slots d num esize esec slots (i + 1, st)
      })"

text \<open>The sectors of the entry array, hashed as they are read.  The inner \<open>None\<close> is a failed read.\<close>

fun scan_sectors :: "'h hba_ops \<Rightarrow> nat \<Rightarrow> u64 \<Rightarrow> nat \<Rightarrow> nat \<Rightarrow> nat list \<Rightarrow> u32 \<times> nat \<times> GptPartition list \<times> nat \<Rightarrow> 'h ahci \<Rightarrow>
    ((u32 \<times> GptPartition list \<times> nat) option \<times> 'h ahci) option" where
  "scan_sectors H d lba num esize [] (acc, i, st) a = Some (Some (acc, st), a)"
| "scan_sectors H d lba num esize (s # ss) (acc, i, st) a = do {
     at \<leftarrow> cadd lba (of_nat s);
     (r, esec, a) \<leftarrow> ahci_read H d at (replicate 512 0) a;
     if \<not> r then Some (None, a)
     else do {
       let remaining = num * esize - s * 512;
       (i, st) \<leftarrow> scan_slots d num esize esec [0..<512 div esize] (i, st);
       scan_sectors H d lba num esize ss (crc32 acc (take (min remaining 512) esec), i, st) a
     }
   }"

definition detect :: "'h hba_ops \<Rightarrow> nat \<Rightarrow> 'h ahci \<times> gpt_disks \<Rightarrow> (bool \<times> 'h ahci \<times> gpt_disks) option" where
  "detect H d = (\<lambda>(a, g).
     if d \<ge> 8 then Some (False, a, g)
     else do {
       (r, sector, a) \<leftarrow> ahci_read H d 1 (replicate 512 0) a;
       if \<not> r \<or> take 8 sector \<noteq> GPT_SIGNATURE then Some (False, a, g)
       else do {
         header_size \<leftarrow> map_option unat (u32le sector 12);
         header_crc \<leftarrow> u32le sector 16;
         elba \<leftarrow> u64le sector 72;
         num \<leftarrow> u32le sector 80;
         esize \<leftarrow> u32le sector 84;
         if header_size < 92 \<or> num = 0 \<or> esize < 128 then Some (False, a, g)
         else do {
           crc_buf \<leftarrow> wr sector 16 [0, 0, 0, 0];
           hdr \<leftarrow> rd crc_buf 0 header_size;
           let es = unat esize;
           if gpt_crc hdr \<noteq> header_crc \<or> es = 0 \<or> es > 512 \<or> 512 mod es \<noteq> 0 then Some (False, a, g)
           else do {
             entry_crc \<leftarrow> u32le sector 88;
             (res, a) \<leftarrow> scan_sectors H d elba (unat num) es [0..<(unat num * es + 511) div 512]
               (0xFFFFFFFF, 0, replicate MAX_PARTITIONS (EMPTY_PARTITION d), 0) a;
             case res of
               None \<Rightarrow> Some (False, a, g)
             | Some (acc, ps, n) \<Rightarrow>
                 if acc XOR 0xFFFFFFFF \<noteq> entry_crc then Some (False, a, g)
                 else Some (True, a, g[d := \<lparr>parsed = True, part_count = n, entries_lba = elba, num_entries = num,
                                             entry_size = esize, parts = ps\<rparr>])
           }
         }
       }
     })"

definition partition_count :: "nat \<Rightarrow> gpt_disks \<Rightarrow> nat" where
  "partition_count d g = (if d \<ge> 8 \<or> \<not> parsed (g ! d) then 0 else part_count (g ! d))"

definition partition :: "nat \<Rightarrow> nat \<Rightarrow> gpt_disks \<Rightarrow> GptPartition option" where
  "partition d i g = (if d \<ge> 8 \<or> \<not> parsed (g ! d) \<or> i \<ge> part_count (g ! d) then None else Some (parts (g ! d) ! i))"

section \<open>A partition as a block device\<close>

definition gpt_block_count :: "GptPartition \<Rightarrow> u64 option" where
  "gpt_block_count p = do { d \<leftarrow> csub (last_lba p) (start_lba p); cadd d 1 }"

definition gpt_read_blocks :: "'h hba_ops \<Rightarrow> GptPartition \<Rightarrow> u64 \<Rightarrow> u8 list \<Rightarrow> 'h ahci \<Rightarrow> ((BlockError + u8 list) \<times> 'h ahci) option" where
  "gpt_read_blocks H p lba buf a =
     (if length buf mod 512 \<noteq> 0 then Some (Inl BlockIo, a)
      else do {
        e \<leftarrow> cadd lba (of_nat (length buf div 512));
        n \<leftarrow> gpt_block_count p;
        if e > n then Some (Inl BlockIo, a)
        else do {
          at \<leftarrow> cadd (start_lba p) lba;
          (r, b, a) \<leftarrow> ahci_read H (disk p) at buf a;
          Some (if r then Inr b else Inl BlockIo, a)
        }
      })"

definition gpt_write_blocks :: "'h hba_ops \<Rightarrow> GptPartition \<Rightarrow> u64 \<Rightarrow> u8 list \<Rightarrow> 'h ahci \<Rightarrow> ((BlockError + unit) \<times> 'h ahci) option" where
  "gpt_write_blocks H p lba buf a =
     (if length buf mod 512 \<noteq> 0 then Some (Inl BlockIo, a)
      else do {
        e \<leftarrow> cadd lba (of_nat (length buf div 512));
        n \<leftarrow> gpt_block_count p;
        if e > n then Some (Inl BlockIo, a)
        else do {
          at \<leftarrow> cadd (start_lba p) lba;
          (r, a) \<leftarrow> ahci_write H (disk p) at buf a;
          Some (if r then Inr () else Inl BlockIo, a)
        }
      })"

definition gpt_flush :: "'h hba_ops \<Rightarrow> GptPartition \<Rightarrow> 'h ahci \<Rightarrow> (BlockError + unit) \<times> 'h ahci" where
  "gpt_flush H p a = (let (r, a) = ahci_flush H (disk p) a in (if r then Inr () else Inl BlockIo, a))"

definition gpt_device :: "'h hba_ops \<Rightarrow> GptPartition \<Rightarrow> 'h ahci BlockDevice" where
  "gpt_device H p = \<lparr>block_count = (\<lambda>_. gpt_block_count p), block_size = (\<lambda>_. SECTOR_SIZE),
     read_blocks = gpt_read_blocks H p, write_blocks = gpt_write_blocks H p, flush = gpt_flush H p\<rparr>"

section \<open>The table as a list\<close>

text \<open>What a table's entry array says: the first sixteen entries with a type and a sensible range, in order.\<close>

definition entry_start :: "u8 list \<Rightarrow> u64" where "entry_start e = from_le_bytes (take 8 (drop 32 e))"
definition entry_last :: "u8 list \<Rightarrow> u64" where "entry_last e = from_le_bytes (take 8 (drop 40 e))"

definition valid_entry :: "u8 list \<Rightarrow> bool" where
  "valid_entry e \<longleftrightarrow> \<not> list_all (\<lambda>b. b = 0) (take 16 e) \<and> entry_start e \<noteq> 0 \<and> entry_start e \<le> entry_last e"

definition parse_entry :: "nat \<Rightarrow> u8 list \<Rightarrow> GptPartition" where
  "parse_entry d e = \<lparr>disk = d, start_lba = entry_start e, last_lba = entry_last e, type_guid = take 16 e,
     guid = take 16 (drop 16 e), name = take 72 (drop 56 e)\<rparr>"

definition entry_at :: "nat \<Rightarrow> u8 list \<Rightarrow> nat \<Rightarrow> u8 list" where
  "entry_at esize bytes k = take esize (drop (k * esize) bytes)"

definition gpt_list :: "nat \<Rightarrow> u8 list list \<Rightarrow> GptPartition list" where
  "gpt_list d es = take MAX_PARTITIONS (map (parse_entry d) (filter valid_entry es))"

text \<open>The partition array and its count represent a list.\<close>

definition parts_rep :: "GptPartition list \<times> nat \<Rightarrow> GptPartition list \<Rightarrow> bool" where
  "parts_rep st l \<longleftrightarrow> length (fst st) = MAX_PARTITIONS \<and> snd st = length l \<and> length l \<le> MAX_PARTITIONS \<and> take (snd st) (fst st) = l"

lemma gpt_list_snoc:
  "gpt_list d (es @ [e]) = (if valid_entry e \<and> length (gpt_list d es) < MAX_PARTITIONS then gpt_list d es @ [parse_entry d e] else gpt_list d es)"
  by (auto simp: gpt_list_def)

lemma take_entry_rep:
  assumes "128 \<le> length e" "parts_rep st (gpt_list d es)"
  shows "\<exists>st'. take_entry d e st = Some st' \<and> parts_rep st' (gpt_list d (es @ [e]))"
proof -
  obtain ps n where st: "st = (ps, n)" by (cases st)
  have nm: "min (length e - 56) 72 = 72" using assms(1) by simp
  have n: "length ps = MAX_PARTITIONS" "n = length (gpt_list d es)" "n \<le> MAX_PARTITIONS" "take n ps = gpt_list d es"
    using assms(2) by (auto simp: parts_rep_def st)
  have "take_entry d e st = Some (if valid_entry e \<and> n < MAX_PARTITIONS then (ps[n := parse_entry d e], n + 1) else (ps, n))"
    using assms(1) nm by (auto simp: st take_entry_def rd_def u64le_def valid_entry_def entry_start_def entry_last_def parse_entry_def Let_def not_le)
  moreover have "take (Suc n) (ps[n := x]) = gpt_list d es @ [x]" if "n < MAX_PARTITIONS" for x
    using that n by (simp add: take_Suc_conv_app_nth)
  ultimately show ?thesis using n by (auto simp: parts_rep_def gpt_list_snoc)
qed

lemma scan_slots_rep:
  assumes "length esec = 512" "\<forall>s\<in>set slots. s * esize + esize \<le> 512" "128 \<le> esize" "parts_rep st (gpt_list d es)"
  shows "\<exists>st'. scan_slots d num esize esec slots (i, st) = Some (i + min (length slots) (num - i), st') \<and>
    parts_rep st' (gpt_list d (es @ map (entry_at esize esec) (take (num - i) slots)))"
  using assms
proof (induction slots arbitrary: i st es)
  case (Cons s slots)
  show ?case
  proof (cases "i \<ge> num")
    case True
    then show ?thesis using Cons.prems(4) by simp
  next
    case False
    let ?e = "entry_at esize esec s"
    have r: "rd esec (s * esize) esize = Some ?e" and l: "128 \<le> length ?e"
      using Cons.prems(1-3) by (auto simp: rd_def entry_at_def)
    from take_entry_rep [OF l Cons.prems(4)] obtain st1 where st1: "take_entry d ?e st = Some st1" "parts_rep st1 (gpt_list d (es @ [?e]))"
      by blast
    have m: "num - i = Suc (num - Suc i)" using False by simp
    from Cons.IH [OF Cons.prems(1) _ Cons.prems(3) st1(2), of "Suc i"] show ?thesis
      using False Cons.prems(2) r st1(1) by (auto simp: m)
  qed
qed simp

lemma crc32_append: "crc32 (crc32 c xs) ys = crc32 c (xs @ ys)"
  by (simp add: crc32_serial crc_serial_append)

lemma sector_of_load:
  assumes f: "\<forall>i. length (f i) = 512" and k: "k < n"
  shows "take 512 (drop (k * 512) (load_sectors a n f)) = f (a + k)"
proof -
  obtain m where n: "n = k + Suc m" using k by (metis less_iff_Suc_add add_Suc_right)
  have "[a..<a + n] = [a..<a + k] @ (a + k) # [Suc (a + k)..<Suc (a + k) + m]"
    unfolding n using upt_add_eq_append [of a "a + k" "Suc m"] by (simp add: upt_conv_Cons add.assoc del: upt_Suc)
  then have "load_sectors a n f = load_sectors a k f @ f (a + k) @ load_sectors (Suc (a + k)) m f"
    by (simp add: load_sectors_def)
  then show ?thesis using f length_load_sectors [OF f, of a k] by (simp add: mult.commute)
qed

lemma entry_at_sector:
  assumes "esize * eps = 512" "j < eps"
  shows "entry_at esize (take 512 (drop (s * 512) bytes)) j = entry_at esize bytes (s * eps + j)"
proof -
  have "j * esize + esize \<le> 512" using assms by (metis Suc_leI add.commute mult.commute mult_Suc mult_le_mono2)
  moreover have "(s * eps + j) * esize = s * 512 + j * esize" using assms(1) by (simp add: algebra_simps flip: assms(1))
  ultimately show ?thesis by (simp add: entry_at_def drop_take min_def add.commute)
qed

lemma take_entries: "i \<le> n \<Longrightarrow> map f [0..<i] @ map (\<lambda>j. f (i + j)) (take (n - i) [0..<m]) = map f [0..<min n (i + m)]"
proof -
  assume i: "i \<le> n"
  have "map (\<lambda>j. f (i + j)) [0..<c] = map f [i..<i + c]" for c by (rule nth_equalityI) auto
  moreover have "take (n - i) [0..<m] = [0..<min (n - i) m]" by (rule nth_equalityI) auto
  ultimately have "map (\<lambda>j. f (i + j)) (take (n - i) [0..<m]) = map f [i..<i + min (n - i) m]" by (simp only:)
  then have "map f [0..<i] @ map (\<lambda>j. f (i + j)) (take (n - i) [0..<m]) = map f [0..<i + min (n - i) m]"
    by (simp only: map_append [symmetric] upt_add_eq_append [OF le0, of i, symmetric])
  moreover have "i + min (n - i) m = min n (i + m)" using i by linarith
  ultimately show ?thesis by simp
qed

lemma scan_sectors_rep:
  assumes conf: "hba_conforms H (AHCI_DMA_PHYS a) idle media" and idle: "idle (hw a)" and dev: "device d a = Some dev"
    and es: "128 \<le> esize" "esize * eps = 512" and S: "S = (num * esize + 511) div 512" "S < 2 ^ 64" "s \<le> S"
    and i: "i = min num (s * eps)" and bytes: "bytes = load_sectors (unat lba) S (media (hw a) (hba dev) (port dev))"
    and st: "parts_rep st (gpt_list d (map (entry_at esize bytes) [0..<i]))"
    and acc: "acc = crc32 c (take (min (num * esize) (s * 512)) bytes)"
    and r: "scan_sectors H d lba num esize [s..<S] (acc, i, st) a = Some (Some (acc', st'), a')"
  shows "acc' = crc32 c (take (num * esize) bytes) \<and> parts_rep st' (gpt_list d (map (entry_at esize bytes) [0..<num])) \<and>
    (\<exists>h. a' = a\<lparr>hw := h\<rparr> \<and> idle h \<and> media h = media (hw a))"
  using S(3) conf idle dev i bytes st acc r
proof (induction "S - s" arbitrary: s a i st acc)
  case 0
  then have "s = S" by simp
  moreover have "num * esize \<le> S * 512" unfolding S(1) by simp
  moreover have "num \<le> S * eps"
  proof -
    have "S * 512 = S * eps * esize" using es(2) by (simp only: es(2) [symmetric] mult_ac)
    with calculation(2) have "num * esize \<le> S * eps * esize" by (simp only:)
    then show ?thesis using es(1) by simp
  qed
  ultimately show ?case using 0 by (auto simp: min_def intro!: exI [of _ "hw a'"])
next
  case (Suc n)
  have lt: "s < S" using Suc by simp
  then have u: "[s..<S] = s # [Suc s..<S]" by (rule upt_conv_Cons)
  have sN: "s * 512 < num * esize" using lt S(1) by linarith
  moreover have "s * 512 = s * eps * esize" using es(2) by (simp only: es(2) [symmetric] mult_ac)
  ultimately have "s * eps * esize < num * esize" by (simp only:)
  then have ix: "i = s * eps" "s * eps < num" using Suc.prems(5) by simp_all
  obtain at esec a1 i1 st1 where at: "cadd lba (of_nat s) = Some at" and rd: "ahci_read H d at (replicate 512 0) a = Some (True, esec, a1)"
    and sl: "scan_slots d num esize esec [0..<512 div esize] (i, st) = Some (i1, st1)"
    and rest: "scan_sectors H d lba num esize [Suc s..<S] (crc32 acc (take (min (num * esize - s * 512) 512) esec), i1, st1) a1 = Some (Some (acc', st'), a')"
    using Suc.prems(9) unfolding u by (auto simp: Let_def split: if_splits prod.splits)
  from ahci_read_True [OF Suc.prems(2,3) rd] obtain h where h: "a1 = a\<lparr>hw := h\<rparr>" "idle h" "media h = media (hw a)"
    and e: "esec = load_sectors (unat at) 1 (media (hw a) (hba dev) (port dev))" using Suc.prems(4) by auto
  have f: "\<forall>i. length (media (hw a) (hba dev) (port dev) i) = 512" using Suc.prems(2) by (simp add: hba_conforms_def)
  have "unat (of_nat s :: u64) = s" using lt S(2) by (intro unat_of_nat_bounded) simp
  then have "unat at = unat lba + s" using cadd_unat [OF at] by simp
  then have esec: "esec = take 512 (drop (s * 512) bytes)" "length esec = 512"
    using e f sector_of_load [OF f lt] Suc.prems(6) by (simp_all add: load_sectors_def)
  have eps: "512 div esize = eps" using es by (metis div_mult_self1_is_m less_le_trans zero_less_numeral)
  have fit: "\<forall>j\<in>set [0..<512 div esize]. j * esize + esize \<le> 512"
  proof
    fix j assume "j \<in> set [0..<512 div esize]"
    then have "Suc j * esize \<le> eps * esize" unfolding eps by (intro mult_le_mono1) simp
    then show "j * esize + esize \<le> 512" using es(2) by (simp add: mult.commute)
  qed
  from scan_slots_rep [OF esec(2) fit es(1) Suc.prems(7), of num i] sl
  have i1: "i1 = i + min eps (num - i)" and
    st1: "parts_rep st1 (gpt_list d (map (entry_at esize bytes) [0..<i] @ map (entry_at esize esec) (take (num - i) [0..<eps])))"
    by (auto simp: eps)
  have "map (entry_at esize esec) (take (num - i) [0..<eps]) = map (\<lambda>j. entry_at esize bytes (i + j)) (take (num - i) [0..<eps])"
    unfolding esec(1) ix(1) by (rule map_cong [OF refl], rule entry_at_sector [OF es(2)]) (auto dest: in_set_takeD)
  moreover have "min num (i + eps) = i1" "i \<le> num" using i1 ix by linarith+
  ultimately have st1': "parts_rep st1 (gpt_list d (map (entry_at esize bytes) [0..<i1]))"
    using st1 take_entries [of i num "entry_at esize bytes" eps] by (simp only:)
  have i1': "i1 = min num (Suc s * eps)" using i1 ix mult_Suc [of s eps] by linarith
  have acc1: "crc32 acc (take (min (num * esize - s * 512) 512) esec) = crc32 c (take (min (num * esize) (Suc s * 512)) bytes)"
  proof -
    let ?m = "min (num * esize - s * 512) 512"
    have "take (s * 512) bytes @ take ?m esec = take (s * 512 + ?m) bytes" by (simp add: esec(1) take_add)
    moreover have "s * 512 + ?m = min (num * esize) (Suc s * 512)" "min (num * esize) (s * 512) = s * 512"
      using sN by (auto simp: min_def)
    ultimately show ?thesis using Suc.prems(8) by (simp only: crc32_append)
  qed
  have conf1: "hba_conforms H (AHCI_DMA_PHYS a1) idle media" "idle (hw a1)" "device d a1 = Some dev"
    "bytes = load_sectors (unat lba) S (media (hw a1) (hba dev) (port dev))"
    using Suc.prems h by simp_all
  from Suc.hyps(1) [OF _ _ conf1(1-3) i1' conf1(4) st1' acc1 rest] lt Suc.hyps(2) h show ?case by auto
qed

lemma detect_header:
  assumes "detect H d (a, g) = Some (True, a', g')"
  obtains sector a1 hs num es elba ps n where "d < 8" "ahci_read H d 1 (replicate 512 0) a = Some (True, sector, a1)"
    "take 8 sector = GPT_SIGNATURE" "u32le sector 12 = Some hs" "u32le sector 80 = Some num" "u32le sector 84 = Some es"
    "u64le sector 72 = Some elba" "128 \<le> unat es" "512 mod unat es = 0"
    "\<exists>z hdr. wr sector 16 [0, 0, 0, 0] = Some z \<and> rd z 0 (unat hs) = Some hdr \<and> u32le sector 16 = Some (gpt_crc hdr)"
    "\<exists>acc. scan_sectors H d elba (unat num) (unat es) [0..<(unat num * unat es + 511) div 512]
               (0xFFFFFFFF, 0, replicate MAX_PARTITIONS (EMPTY_PARTITION d), 0) a1 = Some (Some (acc, ps, n), a') \<and>
           u32le sector 88 = Some (acc XOR 0xFFFFFFFF)"
    "g' = g[d := \<lparr>parsed = True, part_count = n, entries_lba = elba, num_entries = num, entry_size = es, parts = ps\<rparr>]"
proof -
  from assms obtain sector a1 hs hcrc elba num es z hdr ecrc res a2 where
    "d < 8" "ahci_read H d 1 (replicate 512 0) a = Some (True, sector, a1)" "take 8 sector = GPT_SIGNATURE"
    "u32le sector 12 = Some hs" "u32le sector 16 = Some hcrc" "u64le sector 72 = Some elba" "u32le sector 80 = Some num"
    "u32le sector 84 = Some es" "\<not> es < 128" "wr sector 16 [0, 0, 0, 0] = Some z" "rd z 0 (unat hs) = Some hdr"
    "gpt_crc hdr = hcrc" "512 mod unat es = 0" "u32le sector 88 = Some ecrc"
    and res: "scan_sectors H d elba (unat num) (unat es) [0..<(unat num * unat es + 511) div 512]
               (0xFFFFFFFF, 0, replicate MAX_PARTITIONS (EMPTY_PARTITION d), 0) a1 = Some (res, a2)"
      "(case res of None \<Rightarrow> Some (False, a2, g)
        | Some (acc, ps, n) \<Rightarrow> if acc XOR 0xFFFFFFFF \<noteq> ecrc then Some (False, a2, g)
            else Some (True, a2, g[d := \<lparr>parsed = True, part_count = n, entries_lba = elba, num_entries = num,
                                         entry_size = es, parts = ps\<rparr>])) = Some (True, a', g')"
    by (auto simp: detect_def Let_def split: if_splits)
  moreover from res(2) obtain acc ps n where "res = Some (acc, ps, n)" by (cases res) auto
  ultimately show thesis by (intro that [of sector a1 hs num es elba ps n]) (auto simp: not_less word_le_nat_alt split: if_splits)
qed

lemma entry_at_take: "k < num \<Longrightarrow> entry_at es (take (num * es) bytes) k = entry_at es bytes k"
proof -
  assume "k < num"
  then have "k * es + es \<le> num * es" by (metis Suc_leI add.commute mult_Suc mult_le_mono1)
  then show ?thesis by (simp add: entry_at_def drop_take min_def)
qed

lemma array_sectors_bound:
  fixes num es :: u32
  assumes "512 mod unat es = 0"
  shows "(unat num * unat es + 511) div 512 < 2 ^ 64"
proof -
  have "unat num < 2 ^ LENGTH(32)" by (rule unsigned_less)
  moreover have "unat es \<le> 512" using assms by (auto dest: dvd_imp_le simp: mod_eq_0_iff_dvd)
  ultimately have "unat num * unat es \<le> 2 ^ 32 * 512" by (intro mult_le_mono) simp_all
  then show ?thesis by simp
qed

lemma gpt_list_sane: "p \<in> set (gpt_list d es) \<Longrightarrow> disk p = d \<and> start_lba p \<noteq> 0 \<and> start_lba p \<le> last_lba p"
  by (auto simp: gpt_list_def parse_entry_def valid_entry_def dest!: in_set_takeD)

lemma partition_listing:
  assumes "d < 8" "length g = 8" "parts_rep (ps, n) l"
    and "g' = g[d := \<lparr>parsed = True, part_count = n, entries_lba = x, num_entries = y, entry_size = z, parts = ps\<rparr>]"
  shows "map (\<lambda>i. the (partition d i g')) [0..<partition_count d g'] = l" "partition d i g' = Some p \<Longrightarrow> p \<in> set l"
proof -
  have parts: "parsed (g' ! d)" "part_count (g' ! d) = n" "parts (g' ! d) = ps" using assms by simp_all
  have n: "n \<le> length ps" "take n ps = l" using assms(3) by (auto simp: parts_rep_def)
  show "map (\<lambda>i. the (partition d i g')) [0..<partition_count d g'] = l"
    using assms(1) parts n by (intro nth_equalityI) (auto simp: partition_count_def partition_def)
  show "p \<in> set l" if "partition d i g' = Some p"
  proof -
    have "i < n" "p = ps ! i" using that parts by (auto simp: partition_def split: if_splits)
    then show ?thesis using n by (auto simp: in_set_conv_nth intro!: exI [of _ i])
  qed
qed

section \<open>A partition meets the device contract\<close>

definition gpt_ok :: "'h hba_ops \<Rightarrow> ('h \<Rightarrow> bool) \<Rightarrow> ('h \<Rightarrow> u64 \<Rightarrow> u8 \<Rightarrow> nat \<Rightarrow> u8 list) \<Rightarrow> GptPartition \<Rightarrow> 'h ahci \<Rightarrow> bool" where
  "gpt_ok H idle media p a \<longleftrightarrow> hba_conforms H (AHCI_DMA_PHYS a) idle media \<and> idle (hw a) \<and> start_lba p \<le> last_lba p \<and>
     last_lba p < push_bit 48 1 \<and> (\<exists>dev. device (disk p) a = Some dev \<and> last_lba p < sectors dev)"

definition gpt_store :: "('h \<Rightarrow> u64 \<Rightarrow> u8 \<Rightarrow> nat \<Rightarrow> u8 list) \<Rightarrow> GptPartition \<Rightarrow> 'h ahci \<Rightarrow> nat \<Rightarrow> u8 list" where
  "gpt_store media p a i = (let dev = the (device (disk p) a) in media (hw a) (hba dev) (port dev) (unat (start_lba p) + i))"

definition gpt_sectors :: "GptPartition \<Rightarrow> nat" where
  "gpt_sectors p = (if start_lba p \<le> last_lba p \<and> last_lba p < push_bit 48 1 then unat (last_lba p) - unat (start_lba p) + 1 else 0)"

lemma load_sectors_shift: "load_sectors a n (\<lambda>i. f (s + i)) = load_sectors (s + a) n f"
proof -
  have "[s + a..<s + a + n] = map ((+) s) [a..<a + n]" by (rule nth_equalityI) (simp_all add: add.assoc)
  then show ?thesis by (simp add: load_sectors_def comp_def)
qed

lemma store_sectors_shift: "store_sectors a bs (\<lambda>i. f (s + i)) = (\<lambda>i. store_sectors (s + a) bs f (s + i))"
  by (auto simp: store_sectors_def fun_eq_iff)

lemma gpt_range:
  assumes "start_lba p \<le> last_lba p" "last_lba p < push_bit 48 1" "length buf = 512 * n" "lba + n \<le> gpt_sectors p" "0 < n"
    "last_lba p < sectors dev"
  shows "gpt_block_count p = Some (of_nat (gpt_sectors p))" "cadd (of_nat lba) (of_nat n) = Some (of_nat (lba + n) :: u64)"
    "\<not> (of_nat (lba + n) :: u64) > of_nat (gpt_sectors p)" "cadd (start_lba p) (of_nat lba) = Some (start_lba p + of_nat lba)"
    "unat (start_lba p + of_nat lba) = unat (start_lba p) + lba" "start_lba p + of_nat lba < push_bit 48 1"
    "unat (start_lba p) + lba + n \<le> unat (sectors dev)"
proof -
  let ?c = "gpt_sectors p" and ?s = "unat (start_lba p)" and ?l = "unat (last_lba p)"
  have c: "?c = ?l - ?s + 1" using assms(1,2) by (simp add: gpt_sectors_def)
  have sl: "?s \<le> ?l" "?l < 2 ^ 48" "?l < unat (sectors dev)" using assms(1,2,6) by (simp_all add: word_le_nat_alt word_less_nat_alt)
  have small: "k \<le> 2 ^ 48 \<Longrightarrow> unat (of_nat k :: u64) = k" for k by (rule unat_of_nat_bounded) simp
  have b: "?c \<le> 2 ^ 48" "lba + n \<le> 2 ^ 48" "lba \<le> 2 ^ 48" "n \<le> 2 ^ 48" using c sl assms(4) by linarith+
  have "unat (last_lba p - start_lba p) = ?l - ?s" using assms(1) by (simp add: unat_sub)
  then have "csub (last_lba p) (start_lba p) = Some (of_nat (?l - ?s))"
    using assms(1) sl small [of "?l - ?s"] by (simp add: csub_def word_unat_eq_iff del: of_nat_diff)
  moreover have "cadd (of_nat (?l - ?s) :: u64) 1 = Some (of_nat ?c)"
    using sl small [of "?l - ?s"] c by (simp add: cadd_def del: of_nat_diff)
  ultimately show "gpt_block_count p = Some (of_nat ?c)" by (simp add: gpt_block_count_def)
  show "cadd (of_nat lba) (of_nat n) = Some (of_nat (lba + n) :: u64)" using b small by (simp add: cadd_def)
  show "\<not> (of_nat (lba + n) :: u64) > of_nat ?c" using b assms(4) small by (simp add: word_less_nat_alt del: of_nat_add)
  have sb: "?s + lba < 2 ^ 48" "?s + lba + n \<le> unat (sectors dev)" using c sl assms(4,5) by linarith+
  then show "cadd (start_lba p) (of_nat lba) = Some (start_lba p + of_nat lba)" using b small by (simp add: cadd_def)
  show u: "unat (start_lba p + of_nat lba) = ?s + lba" using sb b small by (simp add: unat_add_bounded)
  show "start_lba p + of_nat lba < push_bit 48 1" using sb u by (simp add: word_less_nat_alt)
  show "?s + lba + n \<le> unat (sectors dev)" by (rule sb)
qed

interpretation gp: block_device "gpt_device H p" "gpt_ok H idle media p" "gpt_store media p" "gpt_sectors p" for H idle media p
proof
  show "gpt_sectors p < 2 ^ 55" by (auto simp: gpt_sectors_def word_less_nat_alt)
  show "length (gpt_store media p a i) = 512" if "gpt_ok H idle media p a" for a i
    using that by (auto simp: gpt_ok_def gpt_store_def hba_conforms_def Let_def)
  show "block_size (gpt_device H p) a = 512" for a by (simp add: gpt_device_def SECTOR_SIZE_def)
next
  fix a :: "'a ahci" and buf :: "u8 list" and n lba :: nat
  assume ok: "gpt_ok H idle media p a" and len: "length buf = 512 * n" "0 < n" "n \<le> 512" "lba + n \<le> gpt_sectors p"
  then obtain dev where dev: "device (disk p) a = Some dev" "last_lba p < sectors dev" and conf: "hba_conforms H (AHCI_DMA_PHYS a) idle media"
    and i: "idle (hw a)" and se: "start_lba p \<le> last_lba p" "last_lba p < push_bit 48 1" by (auto simp: gpt_ok_def)
  note R = gpt_range [OF se len(1,4,2) dev(2)]
  have legal: "legal_length (length buf)" using len by (simp add: legal_length_def ahci_sizes)
  have n: "length buf div 512 = n" using len(1) by simp
  have rg: "unat (start_lba p + of_nat lba) + length buf div 512 \<le> unat (sectors dev)" using R(5,7) n by simp
  have st: "gpt_store media p a' = (\<lambda>i. media (hw a') (hba dev) (port dev) (unat (start_lba p) + i))" if "device (disk p) a' = Some dev" for a'
    using that by (simp add: gpt_store_def fun_eq_iff)
  show "\<exists>d'. read_blocks (gpt_device H p) (of_nat lba) buf a = Some (Inr (load_sectors lba n (gpt_store media p a)), d') \<and>
      gpt_ok H idle media p d' \<and> gpt_store media p d' = gpt_store media p a"
    using ahci_read_ok [OF conf i dev(1) legal R(6) rg] R(1-5) n len(1) ok dev st load_sectors_shift [of lba n _ "unat (start_lba p)"]
    by (auto simp: gpt_device_def gpt_read_blocks_def gpt_ok_def)
  show "\<exists>d'. write_blocks (gpt_device H p) (of_nat lba) buf a = Some (Inr (), d') \<and>
      gpt_ok H idle media p d' \<and> gpt_store media p d' = store_sectors lba buf (gpt_store media p a)"
    using ahci_write_ok [OF conf i dev(1) legal R(6) rg] R(1-5) n len(1) ok dev st store_sectors_shift [of lba buf _ "unat (start_lba p)"]
    by (auto simp: gpt_device_def gpt_write_blocks_def gpt_ok_def)
qed

lemma gpt_request:
  assumes ok: "gpt_ok H idle media p a" and len: "legal_length (length buf)"
    and e: "cadd lba (of_nat (length buf div 512)) = Some e" "gpt_block_count p = Some m" "\<not> e > m"
  shows "length buf = 512 * (length buf div 512)" "0 < length buf div 512" "length buf div 512 \<le> 512"
    "unat lba + length buf div 512 \<le> gpt_sectors p"
proof -
  let ?n = "length buf div 512"
  show "length buf = 512 * ?n" "0 < ?n" and n: "?n \<le> 512" using len by (auto simp: legal_length_def ahci_sizes intro: Nat.gr0I elim!: dvdE)
  have "unat (of_nat ?n :: u64) = ?n" using n by (intro unat_of_nat_bounded) simp
  moreover have "unat m = gpt_sectors p" using e(2) ok
    by (auto simp: gpt_block_count_def gpt_ok_def gpt_sectors_def dest!: cadd_unat csub_unat)
  ultimately show "unat lba + ?n \<le> gpt_sectors p" using e(3) cadd_unat [OF e(1)] by (simp add: word_less_nat_alt)
qed

lemma ahci_read_illegal:
  assumes "\<not> legal_length (length buf)" "ahci_read H d lba buf a = Some (b, x, a')"
  shows "\<not> b \<and> a' = a"
  using assms by (auto simp: ahci_read_def xfer_def legal_length_def split: Option.bind_splits if_splits option.splits)

lemma ahci_write_illegal:
  assumes "\<not> legal_length (length buf)" "ahci_write H d lba buf a = Some (b, a')"
  shows "\<not> b \<and> a' = a"
  using assms by (auto simp: ahci_write_def xfer_def legal_length_def split: Option.bind_splits if_splits option.splits)

interpretation gpc: checked_device "gpt_device H p" "gpt_ok H idle media p" "gpt_store media p" "gpt_sectors p" for H idle media p
proof
  fix a a' :: "'a ahci" and lba and buf :: "u8 list" and r
  let ?n = "length buf div 512"
  assume ok: "gpt_ok H idle media p a" and r: "read_blocks (gpt_device H p) lba buf a = Some (r, a')"
  show "gpt_ok H idle media p a' \<and> gpt_store media p a' = gpt_store media p a \<and>
      (\<forall>data. r = Inr data \<longrightarrow> data = load_sectors (unat lba) ?n (gpt_store media p a))"
  proof (cases "legal_length (length buf) \<and> (\<exists>e m. cadd lba (of_nat ?n) = Some e \<and> gpt_block_count p = Some m \<and> \<not> e > m)")
    case True
    then have "\<exists>d'. read_blocks (gpt_device H p) (of_nat (unat lba)) buf a = Some (Inr (load_sectors (unat lba) ?n (gpt_store media p a)), d') \<and>
        gpt_ok H idle media p d' \<and> gpt_store media p d' = gpt_store media p a"
      using gpt_request [OF ok] by (intro gp.read_ok [OF ok]) blast+
    then show ?thesis using r by auto
  next
    case False
    then have "\<exists>e. r = Inl e" "a' = a" using r
      by (auto simp: gpt_device_def gpt_read_blocks_def split: if_splits dest: ahci_read_illegal)
    then show ?thesis using ok by auto
  qed
next
  fix a a' :: "'a ahci" and lba and buf :: "u8 list" and r
  let ?n = "length buf div 512"
  assume ok: "gpt_ok H idle media p a" and r: "write_blocks (gpt_device H p) lba buf a = Some (r, a')"
  show "gpt_ok H idle media p a' \<and> gpt_store media p a' = (if r = Inr () then store_sectors (unat lba) buf (gpt_store media p a) else gpt_store media p a)"
  proof (cases "legal_length (length buf) \<and> (\<exists>e m. cadd lba (of_nat ?n) = Some e \<and> gpt_block_count p = Some m \<and> \<not> e > m)")
    case True
    then have "\<exists>d'. write_blocks (gpt_device H p) (of_nat (unat lba)) buf a = Some (Inr (), d') \<and>
        gpt_ok H idle media p d' \<and> gpt_store media p d' = store_sectors (unat lba) buf (gpt_store media p a)"
      using gpt_request [OF ok] by (intro gp.write_ok [OF ok]) blast+
    then show ?thesis using r by auto
  next
    case False
    then have "\<exists>e. r = Inl e" "a' = a" using r
      by (auto simp: gpt_device_def gpt_write_blocks_def split: if_splits dest: ahci_write_illegal)
    then show ?thesis using ok by auto
  qed
qed

section \<open>Properties\<close>

text \<open>
  C28: Reading a partition table.  When \<^verbatim>\<open>detect\<close> accepts disk \<open>d\<close> on a conforming controller, sector 1 carries the signature and its own checksum, the
  checksum of the whole entry array is the one the header promises, and the partitions the kernel then lists are exactly the first sixteen
  entries of that array that have a type and a nonempty range of sectors, in order.  No sector and no other disk's table changes.
\<close>

theorem detect_reads_table:
  assumes conf: "hba_conforms H (AHCI_DMA_PHYS a) idle media" and idle: "idle (hw a)" and g: "length g = 8"
    and det: "detect H d (a, g) = Some (True, a', g')"
  shows "\<exists>dev. device d a = Some dev \<and>
    (let f = media (hw a) (hba dev) (port dev); h = f 1; num = unat (the (u32le h 80)); es = unat (the (u32le h 84));
         bytes = take (num * es) (load_sectors (unat (the (u64le h 72))) ((num * es + 511) div 512) f)
     in take 8 h = GPT_SIGNATURE \<and> gpt_crc (take (unat (the (u32le h 12))) (the (wr h 16 [0, 0, 0, 0]))) = the (u32le h 16) \<and>
        gpt_crc bytes = the (u32le h 88) \<and>
        map (\<lambda>i. the (partition d i g')) [0..<partition_count d g'] = gpt_list d (map (entry_at es bytes) [0..<num])) \<and>
    (\<forall>i p. partition d i g' = Some p \<longrightarrow> disk p = d \<and> start_lba p \<noteq> 0 \<and> start_lba p \<le> last_lba p) \<and>
    (\<forall>e<8. e \<noteq> d \<longrightarrow> g' ! e = g ! e) \<and> media (hw a') = media (hw a)"
proof -
  obtain sector a1 hs num es elba ps n where d: "d < 8" and r: "ahci_read H d 1 (replicate 512 0) a = Some (True, sector, a1)"
    and f: "take 8 sector = GPT_SIGNATURE" "u32le sector 12 = Some hs" "u32le sector 80 = Some num" "u32le sector 84 = Some es"
      "u64le sector 72 = Some elba" and es: "128 \<le> unat es" "512 mod unat es = 0"
    and hc: "\<exists>z hdr. wr sector 16 [0, 0, 0, 0] = Some z \<and> rd z 0 (unat hs) = Some hdr \<and> u32le sector 16 = Some (gpt_crc hdr)"
    and sc: "\<exists>acc. scan_sectors H d elba (unat num) (unat es) [0..<(unat num * unat es + 511) div 512]
               (0xFFFFFFFF, 0, replicate MAX_PARTITIONS (EMPTY_PARTITION d), 0) a1 = Some (Some (acc, ps, n), a') \<and>
           u32le sector 88 = Some (acc XOR 0xFFFFFFFF)"
    and g': "g' = g[d := \<lparr>parsed = True, part_count = n, entries_lba = elba, num_entries = num, entry_size = es, parts = ps\<rparr>]"
    using detect_header [OF det] by blast
  from ahci_read_True [OF conf idle r] obtain dev h where dev: "device d a = Some dev" and
    h: "a1 = a\<lparr>hw := h\<rparr>" "idle h" "media h = media (hw a)" and "sector = load_sectors 1 1 (media (hw a) (hba dev) (port dev))" by auto
  then have sector: "sector = media (hw a) (hba dev) (port dev) 1" by (simp add: load_sectors_def)
  let ?N = "unat num * unat es" let ?S = "(?N + 511) div 512"
  define full where "full = load_sectors (unat elba) ?S (media (hw a) (hba dev) (port dev))"
  have eps: "unat es * (512 div unat es) = 512" using es(2) by (metis mod_0_imp_dvd dvd_mult_div_cancel)
  have S: "?S < 2 ^ 64" by (rule array_sectors_bound [OF es(2)])
  from sc obtain acc where scan: "scan_sectors H d elba (unat num) (unat es) [0..<?S]
      (0xFFFFFFFF, 0, replicate MAX_PARTITIONS (EMPTY_PARTITION d), 0) a1 = Some (Some (acc, ps, n), a')"
    and ec: "u32le sector 88 = Some (acc XOR 0xFFFFFFFF)" by blast
  have res: "acc = crc32 0xFFFFFFFF (take ?N full) \<and> parts_rep (ps, n) (gpt_list d (map (entry_at (unat es) full) [0..<unat num])) \<and>
    (\<exists>h'. a' = a1\<lparr>hw := h'\<rparr> \<and> idle h' \<and> media h' = media (hw a1))"
    by (rule scan_sectors_rep [where s = 0 and i = 0 and media = media, OF _ _ _ es(1) eps refl S le0 _ _ _ _ scan])
      (use conf dev h in \<open>simp_all add: full_def parts_rep_def gpt_list_def crc32_serial\<close>)
  have ents: "map (entry_at (unat es) (take ?N full)) [0..<unat num] = map (entry_at (unat es) full) [0..<unat num]"
    by (simp add: entry_at_take)
  note listing = partition_listing [OF d g _ g', of "gpt_list d (map (entry_at (unat es) (take ?N full)) [0..<unat num])", unfolded ents]
  have lst: "map (\<lambda>i. the (partition d i g')) [0..<partition_count d g'] = gpt_list d (map (entry_at (unat es) (take ?N full)) [0..<unat num])"
    using listing(1) res by (simp only: ents)
  have sane: "disk p = d \<and> start_lba p \<noteq> 0 \<and> start_lba p \<le> last_lba p" if "partition d i g' = Some p" for i p
    using listing(2) res gpt_list_sane that by blast
  have "gpt_crc (take (unat hs) (the (wr sector 16 [0, 0, 0, 0]))) = the (u32le sector 16)"
    using hc by (auto simp: rd_def split: if_splits)
  moreover have "gpt_crc (take ?N full) = the (u32le sector 88)" using ec res by (simp add: gpt_crc_def)
  moreover have "\<forall>e<8. e \<noteq> d \<longrightarrow> g' ! e = g ! e" "media (hw a') = media (hw a)" using g' res h by auto
  ultimately show ?thesis using dev f(1) lst sane
    by (intro exI [of _ dev], unfold Let_def sector [symmetric] f option.sel full_def [symmetric]) blast
qed

text \<open>A small disk: the header in sector 1, one entry in sector 2, and any other sectors.\<close>

definition sample_entry :: "u8 list" where
  "sample_entry = [0xAF, 0x3D, 0xC6, 0x0F, 0x83, 0x84, 0x72, 0x47, 0x8E, 0x79, 0x3D, 0x69, 0xD8, 0x47, 0x7D, 0xE4] @ replicate 16 1 @
     to_le_bytes 8 (64 :: u64) @ to_le_bytes 8 (127 :: u64) @ replicate 80 0"

definition sample_header :: "u8 list \<Rightarrow> u8 list" where
  "sample_header c = GPT_SIGNATURE @ [0, 0, 1, 0] @ to_le_bytes 4 (92 :: u32) @ c @ replicate 52 0 @ to_le_bytes 8 (2 :: u64) @
     to_le_bytes 4 (1 :: u32) @ to_le_bytes 4 (128 :: u32) @ to_le_bytes 4 (gpt_crc sample_entry) @ replicate 420 0"

definition sample_gpt_disk :: "(nat \<Rightarrow> u8 list) \<Rightarrow> ram_hba ahci" where
  "sample_gpt_disk rest = sample_ahci\<lparr>hw := (hw sample_ahci)\<lparr>ram_disk := (\<lambda>_ _ i.
     if i = 1 then sample_header (to_le_bytes 4 (gpt_crc (take 92 (sample_header [0, 0, 0, 0]))))
     else if i = 2 then sample_entry @ replicate 384 0 else rest i)\<rparr>\<rparr>"

lemma sample_header_fields:
  assumes "length c = 4"
  shows "length (sample_header c) = 512" "take 8 (sample_header c) = GPT_SIGNATURE" "u32le (sample_header c) 12 = Some 92"
    "rd (sample_header c) 16 4 = Some c" "u64le (sample_header c) 72 = Some 2" "u32le (sample_header c) 80 = Some 1"
    "u32le (sample_header c) 84 = Some 128" "u32le (sample_header c) 88 = Some (gpt_crc sample_entry)"
    "wr (sample_header c) 16 [0, 0, 0, 0] = Some (sample_header [0, 0, 0, 0])"
  using assms by (simp_all add: sample_header_def GPT_SIGNATURE_def u32le_def u64le_def rd_def wr_def)

lemma sample_gpt_read:
  assumes "ram_media h = ram_media (hw (sample_gpt_disk f))" "lba \<in> {1, 2}"
  shows "\<exists>h'. ahci_read ram_ops 0 lba (replicate 512 0) ((sample_gpt_disk f)\<lparr>hw := h\<rparr>) = Some (True,
      (if lba = 1 then sample_header (to_le_bytes 4 (gpt_crc (take 92 (sample_header [0, 0, 0, 0])))) else sample_entry @ replicate 384 0),
      (sample_gpt_disk f)\<lparr>hw := h'\<rparr>) \<and> ram_media h' = ram_media (hw (sample_gpt_disk f))"
proof -
  let ?dev = "\<lparr>is_present = True, hba = 0xFEBF1000, port = 0, sectors = 2048, lba48 = True\<rparr>"
  have d: "device 0 ((sample_gpt_disk f)\<lparr>hw := h\<rparr>) = Some ?dev"
    by (simp add: device_def sample_gpt_disk_def sample_ahci_def ahci_start_def)
  have l: "legal_length (length (replicate 512 (0 :: u8)))" by (simp add: legal_length_def ahci_sizes)
  have "load_sectors (unat lba) 1 (ram_media (hw (sample_gpt_disk f)) (hba ?dev) (port ?dev)) =
      (if lba = 1 then sample_header (to_le_bytes 4 (gpt_crc (take 92 (sample_header [0, 0, 0, 0])))) else sample_entry @ replicate 384 0)"
    using assms(2) by (auto simp: load_sectors_def ram_media_def sample_gpt_disk_def sample_header_fields(1) sample_entry_def)
  then show ?thesis using ahci_read_ok [OF ram_conforms _ d l, of lba] assms by auto
qed

lemma sample_detect:
  "\<exists>h g. detect ram_ops 0 (sample_gpt_disk f, GPT_DISKS) = Some (True, (sample_gpt_disk f)\<lparr>hw := h\<rparr>, g) \<and> partition_count 0 g = 1 \<and>
     (\<forall>i. partition 0 i g = (if i = 0 then Some (parse_entry 0 sample_entry) else None))"
proof -
  let ?c = "to_le_bytes 4 (gpt_crc (take 92 (sample_header [0, 0, 0, 0])))"
  have self: "(sample_gpt_disk f)\<lparr>hw := hw (sample_gpt_disk f)\<rparr> = sample_gpt_disk f" by simp
  from sample_gpt_read [OF refl, of 1] obtain h1 where
    h1: "ahci_read ram_ops 0 1 (replicate 512 0) (sample_gpt_disk f) = Some (True, sample_header ?c, (sample_gpt_disk f)\<lparr>hw := h1\<rparr>)"
      "ram_media h1 = ram_media (hw (sample_gpt_disk f))" unfolding self by auto
  from sample_gpt_read [OF h1(2), of 2] obtain h2 where
    h2: "ahci_read ram_ops 0 2 (replicate 512 0) ((sample_gpt_disk f)\<lparr>hw := h1\<rparr>) = Some (True, sample_entry @ replicate 384 0, (sample_gpt_disk f)\<lparr>hw := h2\<rparr>)"
    by auto
  let ?st = "(replicate MAX_PARTITIONS (EMPTY_PARTITION 0), 0)"
  have len: "length sample_entry = 128" by (simp add: sample_entry_def)
  have "\<exists>st'. scan_slots 0 1 128 (sample_entry @ replicate 384 0) [0..<4] (0, ?st) = Some (0 + min (length [0..<4 :: nat]) (1 - 0), st') \<and>
      parts_rep st' (gpt_list 0 ([] @ map (entry_at 128 (sample_entry @ replicate 384 0)) (take (1 - 0) [0..<4])))"
    by (rule scan_slots_rep) (auto simp: len parts_rep_def gpt_list_def)
  then obtain ps n where sl: "scan_slots 0 1 128 (sample_entry @ replicate 384 0) [0..<4] (0, ?st) = Some (1, ps, n)"
    and rep: "parts_rep (ps, n) (gpt_list 0 [sample_entry])" by (auto simp: upt_rec entry_at_def len)
  have c2: "cadd (2 :: u64) 0 = Some 2" by (simp add: cadd_def)
  have fc: "u32le (sample_header ?c) 16 = Some (gpt_crc (take 92 (sample_header [0, 0, 0, 0])))"
    using sample_header_fields(4) [of ?c] by (simp add: u32le_def)
  have hdr: "rd (sample_header [0, 0, 0, 0]) 0 92 = Some (take 92 (sample_header [0, 0, 0, 0]))"
    by (simp add: rd_def sample_header_fields(1))
  have crc: "crc32 0xFFFFFFFF (take 128 (sample_entry @ replicate 384 0)) XOR 0xFFFFFFFF = gpt_crc sample_entry"
    by (simp add: len gpt_crc_def)
  let ?g = "GPT_DISKS[0 := \<lparr>parsed = True, part_count = n, entries_lba = 2, num_entries = 1, entry_size = 128, parts = ps\<rparr>]"
  have det: "detect ram_ops 0 (sample_gpt_disk f, GPT_DISKS) = Some (True, (sample_gpt_disk f)\<lparr>hw := h2\<rparr>, ?g)"
    using h1(1) h2 sl c2 fc hdr crc by (auto simp: detect_def sample_header_fields Let_def)
  have e: "gpt_list 0 [sample_entry] = [parse_entry 0 sample_entry]"
    by (simp add: gpt_list_def valid_entry_def entry_start_def entry_last_def sample_entry_def u64le_def rd_def MAX_PARTITIONS_def)
  have "n = 1" "ps \<noteq> []" "ps ! 0 = parse_entry 0 sample_entry" using rep unfolding e by (auto simp: parts_rep_def, cases ps, auto)
  then show ?thesis using det by (intro exI [of _ h2] exI [of _ ?g]) (auto simp: partition_def partition_count_def GPT_DISKS_def)
qed

theorem detect_reads_table_witness:
  "\<exists>a' g'. detect ram_ops 0 (sample_gpt_disk (\<lambda>_. []), GPT_DISKS) = Some (True, a', g') \<and>
     ram_media (hw a') = ram_media (hw (sample_gpt_disk (\<lambda>_. []))) \<and> (\<forall>i p. partition 0 i g' = Some p \<longrightarrow> start_lba p \<noteq> 0)"
proof -
  obtain a' g' where det: "detect ram_ops 0 (sample_gpt_disk (\<lambda>_. []), GPT_DISKS) = Some (True, a', g')" using sample_detect by blast
  have "length GPT_DISKS = 8" by (simp add: GPT_DISKS_def)
  from detect_reads_table [OF ram_conforms _ this det] det show ?thesis by fastforce
qed


definition sample_partition :: GptPartition where
  "sample_partition = (EMPTY_PARTITION 0)\<lparr>start_lba := 64, last_lba := 127\<rparr>"

lemma sample_partition_ok: "gpt_ok ram_ops (\<lambda>_. True) ram_media sample_partition sample_ahci"
  using ram_conforms by (auto simp: gpt_ok_def sample_partition_def EMPTY_PARTITION_def sample_ahci_def ahci_start_def device_def)


end
