(* ===== verification/Ext4_Layout.thy ===== *)
theory Ext4_Layout
  imports Block Crc
begin

text \<open>
  The on-disk layout of the ext4 driver, \<^verbatim>\<open>src/ext4.rs\<close>: the offsets, the little-endian accessors, and the readers and writers of extent
  headers, extents, extent indices and directory entries.
\<close>

section \<open>Constants\<close>

definition EXT4_MAGIC :: u16 where "EXT4_MAGIC = 0xEF53"
definition MAX_BLOCK_SIZE :: nat where "MAX_BLOCK_SIZE = 4096"
definition MAX_INODE_SIZE :: nat where "MAX_INODE_SIZE = 256"
definition EXT4_NAME_LEN :: nat where "EXT4_NAME_LEN = 255"
definition EXT4_EXT_MAGIC :: u16 where "EXT4_EXT_MAGIC = 0xF30A"
definition ROOT_INO :: u32 where "ROOT_INO = 2"
definition GOOD_OLD_INODE_SIZE :: nat where "GOOD_OLD_INODE_SIZE = 128"
definition INCOMPAT_FILETYPE :: u32 where "INCOMPAT_FILETYPE = 0x0002"
definition INCOMPAT_EXTENTS :: u32 where "INCOMPAT_EXTENTS = 0x0040"
definition INCOMPAT_64BIT :: u32 where "INCOMPAT_64BIT = 0x0080"
definition INCOMPAT_FLEX_BG :: u32 where "INCOMPAT_FLEX_BG = 0x0200"
definition INCOMPAT_CSUM_SEED :: u32 where "INCOMPAT_CSUM_SEED = 0x2000"
definition RO_COMPAT_METADATA_CSUM :: u32 where "RO_COMPAT_METADATA_CSUM = 0x0400"
definition RO_COMPAT_REJECT :: u32 where "RO_COMPAT_REJECT = 0x00001000"
definition SB_INODES_COUNT :: nat where "SB_INODES_COUNT = 0x00"
definition SB_BLOCKS_COUNT_LO :: nat where "SB_BLOCKS_COUNT_LO = 0x04"
definition SB_FREE_BLOCKS_LO :: nat where "SB_FREE_BLOCKS_LO = 0x0C"
definition SB_FREE_INODES :: nat where "SB_FREE_INODES = 0x10"
definition SB_FIRST_DATA_BLOCK :: nat where "SB_FIRST_DATA_BLOCK = 0x14"
definition SB_LOG_BLOCK_SIZE :: nat where "SB_LOG_BLOCK_SIZE = 0x18"
definition SB_LOG_CLUSTER_SIZE :: nat where "SB_LOG_CLUSTER_SIZE = 0x1C"
definition SB_BLOCKS_PER_GROUP :: nat where "SB_BLOCKS_PER_GROUP = 0x20"
definition SB_INODES_PER_GROUP :: nat where "SB_INODES_PER_GROUP = 0x28"
definition SB_MAGIC :: nat where "SB_MAGIC = 0x38"
definition SB_REV_LEVEL :: nat where "SB_REV_LEVEL = 0x4C"
definition SB_INODE_SIZE :: nat where "SB_INODE_SIZE = 0x58"
definition SB_FEATURE_INCOMPAT :: nat where "SB_FEATURE_INCOMPAT = 0x60"
definition SB_FEATURE_RO_COMPAT :: nat where "SB_FEATURE_RO_COMPAT = 0x64"
definition SB_UUID :: nat where "SB_UUID = 0x68"
definition SB_VOLUME_NAME :: nat where "SB_VOLUME_NAME = 0x78"
definition SB_RESERVED_GDT_BLOCKS :: nat where "SB_RESERVED_GDT_BLOCKS = 0xCE"
definition SB_BLOCKS_COUNT_HI :: nat where "SB_BLOCKS_COUNT_HI = 0x150"
definition SB_FREE_BLOCKS_HI :: nat where "SB_FREE_BLOCKS_HI = 0x158"
definition SB_DESC_SIZE :: nat where "SB_DESC_SIZE = 0xFE"
definition SB_CHECKSUM_SEED :: nat where "SB_CHECKSUM_SEED = 0x270"
definition SB_CHECKSUM :: nat where "SB_CHECKSUM = 0x3FC"
definition GD_BLOCK_BITMAP_LO :: nat where "GD_BLOCK_BITMAP_LO = 0x00"
definition GD_INODE_BITMAP_LO :: nat where "GD_INODE_BITMAP_LO = 0x04"
definition GD_INODE_TABLE_LO :: nat where "GD_INODE_TABLE_LO = 0x08"
definition GD_FREE_BLOCKS_LO :: nat where "GD_FREE_BLOCKS_LO = 0x0C"
definition GD_FREE_INODES_LO :: nat where "GD_FREE_INODES_LO = 0x0E"
definition GD_USED_DIRS_LO :: nat where "GD_USED_DIRS_LO = 0x10"
definition GD_BLOCK_BITMAP_CSUM_LO :: nat where "GD_BLOCK_BITMAP_CSUM_LO = 0x18"
definition GD_INODE_BITMAP_CSUM_LO :: nat where "GD_INODE_BITMAP_CSUM_LO = 0x1A"
definition GD_ITABLE_UNUSED_LO :: nat where "GD_ITABLE_UNUSED_LO = 0x1C"
definition GD_CHECKSUM :: nat where "GD_CHECKSUM = 0x1E"
definition GD_BLOCK_BITMAP_HI :: nat where "GD_BLOCK_BITMAP_HI = 0x20"
definition GD_INODE_BITMAP_HI :: nat where "GD_INODE_BITMAP_HI = 0x24"
definition GD_INODE_TABLE_HI :: nat where "GD_INODE_TABLE_HI = 0x28"
definition GD_FREE_BLOCKS_HI :: nat where "GD_FREE_BLOCKS_HI = 0x2C"
definition GD_FREE_INODES_HI :: nat where "GD_FREE_INODES_HI = 0x2E"
definition GD_USED_DIRS_HI :: nat where "GD_USED_DIRS_HI = 0x30"
definition GD_ITABLE_UNUSED_HI :: nat where "GD_ITABLE_UNUSED_HI = 0x32"
definition GD_BLOCK_BITMAP_CSUM_HI :: nat where "GD_BLOCK_BITMAP_CSUM_HI = 0x38"
definition GD_INODE_BITMAP_CSUM_HI :: nat where "GD_INODE_BITMAP_CSUM_HI = 0x3A"
definition INO_MODE :: nat where "INO_MODE = 0x00"
definition INO_SIZE_LO :: nat where "INO_SIZE_LO = 0x04"
definition INO_LINKS_COUNT :: nat where "INO_LINKS_COUNT = 0x1A"
definition INO_BLOCKS_LO :: nat where "INO_BLOCKS_LO = 0x1C"
definition INO_FLAGS :: nat where "INO_FLAGS = 0x20"
definition INO_IBLOCK :: nat where "INO_IBLOCK = 0x28"
definition INO_GENERATION :: nat where "INO_GENERATION = 0x64"
definition INO_SIZE_HIGH :: nat where "INO_SIZE_HIGH = 0x6C"
definition INO_BLOCKS_HIGH :: nat where "INO_BLOCKS_HIGH = 0x74"
definition INO_CHECKSUM_LO :: nat where "INO_CHECKSUM_LO = 0x7C"
definition INO_EXTRA_ISIZE :: nat where "INO_EXTRA_ISIZE = 0x80"
definition INO_CHECKSUM_HI :: nat where "INO_CHECKSUM_HI = 0x82"
definition INO_FLAG_EXTENTS :: u32 where "INO_FLAG_EXTENTS = 0x00080000"
definition INO_FLAG_INDEX :: u32 where "INO_FLAG_INDEX = 0x00001000"
definition S_IFDIR :: u16 where "S_IFDIR = 0x4000"
definition S_IFREG :: u16 where "S_IFREG = 0x8000"
definition S_IFMT :: u16 where "S_IFMT = 0xF000"
definition FT_DIR :: u8 where "FT_DIR = 2"

datatype FsError = FsIo | FsNoSpace | FsNotFound | FsAlreadyExists | FsCorrupt | FsReadOnly | FsUnsupported | FsInvalid

primrec map_block_err :: "BlockError \<Rightarrow> FsError" where
  "map_block_err BlockIo = FsIo"
| "map_block_err BlockNoSpace = FsNoSpace"
| "map_block_err BlockNotFound = FsNotFound"
| "map_block_err BlockCorrupt = FsCorrupt"
| "map_block_err BlockUnsupported = FsUnsupported"

section \<open>Little-endian fields\<close>

definition le16 :: "u8 list \<Rightarrow> nat \<Rightarrow> u16 option" where "le16 b off = map_option from_le_bytes (rd b off 2)"
definition le32 :: "u8 list \<Rightarrow> nat \<Rightarrow> u32 option" where "le32 b off = map_option from_le_bytes (rd b off 4)"
definition put_le16 :: "u8 list \<Rightarrow> nat \<Rightarrow> u16 \<Rightarrow> u8 list option" where "put_le16 b off v = wr b off (to_le_bytes 2 v)"
definition put_le32 :: "u8 list \<Rightarrow> nat \<Rightarrow> u32 \<Rightarrow> u8 list option" where "put_le32 b off v = wr b off (to_le_bytes 4 v)"

definition round_dir_size :: "nat \<Rightarrow> nat" where
  "round_dir_size name_len = 8 + (name_len + 3) div 4 * 4"

section \<open>Extent nodes\<close>

text \<open>The readers check the length of the buffer first, so their accesses stay inside it; \<open>None\<close> is the source's \<^verbatim>\<open>None\<close>.\<close>

definition rd_hdr :: "u8 list \<Rightarrow> nat \<Rightarrow> (u16 \<times> u16 \<times> u16) option" where
  "rd_hdr b base = (if length b < base + 12 then None else do {
     magic \<leftarrow> le16 b base;
     if magic \<noteq> EXT4_EXT_MAGIC then None
     else do {
       entries \<leftarrow> le16 b (base + 2);
       mx \<leftarrow> le16 b (base + 4);
       depth \<leftarrow> le16 b (base + 6);
       Some (entries, mx, depth)
     }
   })"

definition wr_hdr :: "u8 list \<Rightarrow> nat \<Rightarrow> u16 \<Rightarrow> u16 \<Rightarrow> u16 \<Rightarrow> u8 list option" where
  "wr_hdr b base entries mx depth = do {
     b \<leftarrow> put_le16 b base EXT4_EXT_MAGIC;
     b \<leftarrow> put_le16 b (base + 2) entries;
     b \<leftarrow> put_le16 b (base + 4) mx;
     b \<leftarrow> put_le16 b (base + 6) depth;
     put_le32 b (base + 8) 0
   }"

definition rd_extent :: "u8 list \<Rightarrow> nat \<Rightarrow> nat \<Rightarrow> (u32 \<times> u16 \<times> u64) option" where
  "rd_extent b base i = (let at = base + 12 + 12 * i in
     if length b < at + 12 then None else do {
       eb \<leftarrow> le32 b at;
       elen \<leftarrow> le16 b (at + 4);
       let elen = (if elen AND 0x8000 \<noteq> 0 then 0 else elen);
       if elen = 0 then None
       else do {
         hi \<leftarrow> le16 b (at + 6);
         lo \<leftarrow> le32 b (at + 8);
         Some (eb, elen, push_bit 32 (ucast hi) OR ucast lo)
       }
     })"

definition wr_extent :: "u8 list \<Rightarrow> nat \<Rightarrow> nat \<Rightarrow> u32 \<Rightarrow> u16 \<Rightarrow> u64 \<Rightarrow> u8 list option" where
  "wr_extent b base i eb elen pblock = (let at = base + 12 + 12 * i in do {
     b \<leftarrow> put_le32 b at eb;
     b \<leftarrow> put_le16 b (at + 4) elen;
     b \<leftarrow> put_le16 b (at + 6) (ucast (drop_bit 32 pblock));
     put_le32 b (at + 8) (ucast pblock)
   })"

definition rd_index :: "u8 list \<Rightarrow> nat \<Rightarrow> nat \<Rightarrow> (u32 \<times> u64) option" where
  "rd_index b base i = (let at = base + 12 + 12 * i in
     if length b < at + 12 then None else do {
       eb \<leftarrow> le32 b at;
       hi \<leftarrow> le16 b (at + 8);
       lo \<leftarrow> le32 b (at + 4);
       Some (eb, push_bit 32 (ucast hi) OR ucast lo)
     })"

definition wr_index :: "u8 list \<Rightarrow> nat \<Rightarrow> nat \<Rightarrow> u32 \<Rightarrow> u64 \<Rightarrow> u8 list option" where
  "wr_index b base i eb child = (let at = base + 12 + 12 * i in do {
     b \<leftarrow> put_le32 b at eb;
     b \<leftarrow> put_le32 b (at + 4) (ucast child);
     b \<leftarrow> put_le16 b (at + 8) (ucast (drop_bit 32 child));
     put_le16 b (at + 10) 0
   })"

section \<open>Directory entries\<close>

definition fill_entry :: "u8 list \<Rightarrow> nat \<Rightarrow> u16 \<Rightarrow> u32 \<Rightarrow> u8 \<Rightarrow> u8 list \<Rightarrow> u8 list option" where
  "fill_entry b pos rec ino ft name = do {
     b \<leftarrow> put_le32 b pos ino;
     b \<leftarrow> put_le16 b (pos + 4) rec;
     b \<leftarrow> wr b (pos + 6) [of_nat (length name)];
     b \<leftarrow> wr b (pos + 7) [ft];
     wr b (pos + 8) name
   }"

text \<open>The fields a scan reads at \<open>pos\<close>: inode, record length, name length, file type.\<close>

definition dirent_at :: "u8 list \<Rightarrow> nat \<Rightarrow> (u32 \<times> nat \<times> nat \<times> u8) option" where
  "dirent_at b pos = do {
     ino \<leftarrow> le32 b pos;
     rec \<leftarrow> le16 b (pos + 4);
     nl \<leftarrow> rd b (pos + 6) 1;
     ft \<leftarrow> rd b (pos + 7) 1;
     Some (ino, unat rec, unat (hd nl), hd ft)
   }"

text \<open>An entry handed to a caller; \<open>d_name\<close> is the used part of its name buffer.\<close>

record DirEnt =
  d_ino :: u32
  d_file_type :: u8
  d_name :: "u8 list"

record Inode =
  i_ino :: u32
  i_mode :: u16
  i_size :: u64
  i_blocks :: u64
  i_flags :: u32
  i_raw :: "u8 list"

definition is_dir :: "Inode \<Rightarrow> bool" where "is_dir n \<longleftrightarrow> i_mode n AND S_IFMT = S_IFDIR"
definition is_file :: "Inode \<Rightarrow> bool" where "is_file n \<longleftrightarrow> i_mode n AND S_IFMT = S_IFREG"

section \<open>Fields and records as slices\<close>

lemma wr_wr_adjacent: "n = off + length xs \<Longrightarrow> Option.bind (wr b off xs) (\<lambda>b. wr b n ys) = wr b off (xs @ ys)"
  by (auto simp: wr_def ac_simps)

lemma bind_wr_assoc: "n = off + length xs \<Longrightarrow> Option.bind (wr b off xs) (\<lambda>b. Option.bind (wr b n ys) f) = Option.bind (wr b off (xs @ ys)) f"
  by (simp add: wr_wr_adjacent [symmetric] Option.bind_assoc)

lemma rd_rd: "rd b off n = Some x \<Longrightarrow> k + m \<le> n \<Longrightarrow> rd b (off + k) m = rd x k m"
  by (auto simp: rd_def take_drop min_def add.commute add.left_commute split: if_splits)

definition extent_bytes :: "u32 \<Rightarrow> u16 \<Rightarrow> u64 \<Rightarrow> u8 list" where
  "extent_bytes eb elen pb = to_le_bytes 4 eb @ to_le_bytes 2 elen @ to_le_bytes 2 (ucast (drop_bit 32 pb) :: u16) @ to_le_bytes 4 (ucast pb :: u32)"

definition index_bytes :: "u32 \<Rightarrow> u64 \<Rightarrow> u8 list" where
  "index_bytes eb child = to_le_bytes 4 eb @ to_le_bytes 4 (ucast child :: u32) @ to_le_bytes 2 (ucast (drop_bit 32 child) :: u16) @ to_le_bytes 2 (0 :: u16)"

definition hdr_bytes :: "u16 \<Rightarrow> u16 \<Rightarrow> u16 \<Rightarrow> u8 list" where
  "hdr_bytes entries mx depth = to_le_bytes 2 EXT4_EXT_MAGIC @ to_le_bytes 2 entries @ to_le_bytes 2 mx @ to_le_bytes 2 depth @ to_le_bytes 4 (0 :: u32)"

lemma wr_records:
  "wr_extent b base i eb elen pb = wr b (base + 12 + 12 * i) (extent_bytes eb elen pb)"
  "wr_index b base i eb child = wr b (base + 12 + 12 * i) (index_bytes eb child)"
  "wr_hdr b base entries mx depth = wr b base (hdr_bytes entries mx depth)"
  by (simp_all add: wr_extent_def wr_index_def wr_hdr_def extent_bytes_def index_bytes_def hdr_bytes_def put_le16_def put_le32_def Let_def
      bind_wr_assoc wr_wr_adjacent)

lemma length_records [simp]: "length (extent_bytes eb elen pb) = 12" "length (index_bytes eb child) = 12" "length (hdr_bytes e m d) = 12"
  by (simp_all add: extent_bytes_def index_bytes_def hdr_bytes_def)

text \<open>A reader of a record depends on the twelve bytes of the record only.\<close>

lemma fields_cong:
  assumes "rd b p 12 = Some x" "rd b' q 12 = Some x"
  shows "k + 2 \<le> 12 \<Longrightarrow> le16 b (p + k) = le16 b' (q + k)" "k + 4 \<le> 12 \<Longrightarrow> le32 b (p + k) = le32 b' (q + k)"
    "le32 b p = le32 b' q"
  using rd_rd [OF assms(1)] rd_rd [OF assms(2)] rd_rd [OF assms(1), of 0 4] rd_rd [OF assms(2), of 0 4] by (simp_all add: le16_def le32_def)

lemma record_cong:
  assumes "rd b (base + 12 + 12 * i) 12 = rd b' (base' + 12 + 12 * j) 12"
  shows "rd_extent b base i = rd_extent b' base' j" "rd_index b base i = rd_index b' base' j"
proof -
  let ?p = "base + 12 + 12 * i" and ?q = "base' + 12 + 12 * j"
  have "rd_extent b base i = rd_extent b' base' j \<and> rd_index b base i = rd_index b' base' j"
  proof (cases "rd b ?p 12")
    case None
    then have "length b < ?p + 12" "length b' < ?q + 12" using assms by (simp_all add: rd_def split: if_splits)
    then show ?thesis by (simp add: rd_extent_def rd_index_def Let_def)
  next
    case (Some x)
    then have l: "\<not> length b < ?p + 12" "\<not> length b' < ?q + 12" using assms by (simp_all add: rd_def split: if_splits)
    have F: "le16 b (?p + 4) = le16 b' (?q + 4)" "le16 b (?p + 6) = le16 b' (?q + 6)" "le16 b (?p + 8) = le16 b' (?q + 8)"
      "le32 b (?p + 4) = le32 b' (?q + 4)" "le32 b (?p + 8) = le32 b' (?q + 8)"
      by (rule fields_cong [OF Some Some [unfolded assms]], simp)+
    note F = F fields_cong(3) [OF Some Some [unfolded assms]]
    show ?thesis unfolding rd_extent_def rd_index_def Let_def F using l by simp
  qed
  then show "rd_extent b base i = rd_extent b' base' j" "rd_index b base i = rd_index b' base' j" by simp_all
qed

lemma rd_hdr_cong: "rd b p 12 = rd b' q 12 \<Longrightarrow> rd_hdr b p = rd_hdr b' q"
proof (cases "rd b p 12")
  case None
  moreover assume "rd b p 12 = rd b' q 12"
  ultimately show ?thesis by (simp add: rd_def rd_hdr_def split: if_splits)
next
  case (Some x)
  assume eq: "rd b p 12 = rd b' q 12"
  then have l: "\<not> length b < p + 12" "\<not> length b' < q + 12" using Some by (simp_all add: rd_def split: if_splits)
  have F: "le16 b (p + 2) = le16 b' (q + 2)" "le16 b (p + 4) = le16 b' (q + 4)" "le16 b (p + 6) = le16 b' (q + 6)"
    by (rule fields_cong [OF Some Some [unfolded eq]], simp)+
  have "le16 b p = le16 b' q" using fields_cong(1) [OF Some Some [unfolded eq], of 0] by simp
  then show ?thesis unfolding rd_hdr_def F using l by simp
qed

lemma le_split: "push_bit 32 (ucast (ucast (drop_bit 32 w) :: u16)) OR ucast (ucast w :: u32) = w" if "w < push_bit 48 1" for w :: u64
proof (rule bit_word_eqI)
  fix k assume "k < LENGTH(64)"
  have "bit w k \<Longrightarrow> k < 48" using bit_less_exp [of w 48] that by auto
  then show "bit (push_bit 32 (ucast (ucast (drop_bit 32 w) :: u16)) OR ucast (ucast w :: u32) :: u64) k = bit w k"
    by (auto simp: bit_simps)
qed

lemma rd_records:
  "elen \<noteq> 0 \<Longrightarrow> elen < 0x8000 \<Longrightarrow> pb < push_bit 48 1 \<Longrightarrow> rd b (base + 12 + 12 * i) 12 = Some (extent_bytes eb elen pb) \<Longrightarrow>
     rd_extent b base i = Some (eb, elen, pb)"
  "child < push_bit 48 1 \<Longrightarrow> rd b (base + 12 + 12 * i) 12 = Some (index_bytes eb child) \<Longrightarrow> rd_index b base i = Some (eb, child)"
  "rd b base 12 = Some (hdr_bytes entries mx depth) \<Longrightarrow> rd_hdr b base = Some (entries, mx, depth)"
proof -
  have m: "elen AND 0x8000 = 0" if "elen < 0x8000" for elen :: u16
    using that bit_less_exp [of elen 15 15] and_exp_eq_0_iff_not_bit [of elen 15] by auto
  have z: "rd (replicate 12 0 @ bs) (0 + 12 + 12 * 0) 12 = Some bs" if "length bs = 12" for bs :: "u8 list"
    using that by (simp add: rd_def)
  show "rd_extent b base i = Some (eb, elen, pb)" if "elen \<noteq> 0" "elen < 0x8000" "pb < push_bit 48 1"
      "rd b (base + 12 + 12 * i) 12 = Some (extent_bytes eb elen pb)"
  proof -
    have "rd_extent b base i = rd_extent (replicate 12 0 @ extent_bytes eb elen pb) 0 0"
      by (rule record_cong(1)) (simp only: that(4) z length_records)
    then show ?thesis using that(1) m [OF that(2)] le_split [OF that(3)]
      by (simp add: rd_extent_def le32_def le16_def rd_def extent_bytes_def)
  qed
  show "rd_index b base i = Some (eb, child)" if "child < push_bit 48 1" "rd b (base + 12 + 12 * i) 12 = Some (index_bytes eb child)"
  proof -
    have "rd_index b base i = rd_index (replicate 12 0 @ index_bytes eb child) 0 0"
      by (rule record_cong(2)) (simp only: that(2) z length_records)
    then show ?thesis using le_split [OF that(1)] by (simp add: rd_index_def le32_def le16_def rd_def index_bytes_def)
  qed
  show "rd_hdr b base = Some (entries, mx, depth)" if "rd b base 12 = Some (hdr_bytes entries mx depth)"
  proof -
    have "rd (hdr_bytes entries mx depth) 0 12 = Some (hdr_bytes entries mx depth)" by (simp add: rd_def)
    then have "rd_hdr b base = rd_hdr (hdr_bytes entries mx depth) 0" using that by (intro rd_hdr_cong) simp
    then show ?thesis by (simp add: rd_hdr_def le16_def rd_def hdr_bytes_def)
  qed
qed

lemma unat_bound: "unat w < 2 ^ LENGTH('a)" for w :: "'a::len word"
  by (rule unsigned_less)

lemma unat_ucast_up [simp]: "LENGTH('a) \<le> LENGTH('b) \<Longrightarrow> unat (ucast e :: 'b::len word) = unat e" for e :: "'a::len word"
  by (simp add: unsigned_ucast_eq take_bit_nat_eq_self_iff less_le_trans [OF unsigned_less])

lemma rd_extent_bounds:
  assumes "rd_extent b base i = Some (eb, elen, pb)"
  shows "elen \<noteq> 0" "elen < 0x8000" "pb < push_bit 48 1"
proof -
  obtain hi :: u16 and lo :: u32 where e: "elen \<noteq> 0" "elen AND 0x8000 = 0" "pb = push_bit 32 (ucast hi) OR ucast lo"
    using assms by (auto simp: rd_extent_def Let_def split: if_splits)
  have "k < 15" if "k < 16" "bit elen k" for k
    using that e(2) and_exp_eq_0_iff_not_bit [of elen 15] by (cases "k = 15") auto
  then have "take_bit 15 elen = elen" by (intro bit_word_eqI) (auto simp: bit_simps)
  moreover have "take_bit 48 pb = pb" unfolding e(3) by (rule bit_word_eqI) (auto simp: bit_simps dest: bit_imp_le_length)
  ultimately have "unat elen < 2 ^ 15" "unat pb < 2 ^ 48" by (metis unsigned_take_bit_eq take_bit_nat_less_exp)+
  then show "elen \<noteq> 0" "elen < 0x8000" "pb < push_bit 48 1" using e(1) by (simp_all add: word_less_nat_alt)
qed

end
