(* ===== verification/Ext4.thy ===== *)
theory Ext4
  imports Ext4_Layout
begin

text \<open>
  The mounted file system of \<^verbatim>\<open>src/ext4.rs\<close>: mounting, the block primitives, group descriptors, inodes and allocation.

  An operation of \<^verbatim>\<open>impl Ext4\<close> is a function of the mounted state to an error or a result and the new state, or \<open>None\<close> when it does not
  return.  \<open>then_fs\<close> is the source's \<^verbatim>\<open>?\<close>: an error ends the operation and keeps what was written so far.  Block-sized
  buffers keep the driver's fixed size of 4096 bytes; reading a block replaces the first \<open>bs\<close> of them.
\<close>

section \<open>State and control\<close>

record 'd Ext4 =
  fs_ops :: "'d BlockDevice"
  fs_dev :: 'd
  fs_bs :: u32
  fs_bpg :: u32
  fs_ipg :: u32
  fs_inode_size :: u16
  fs_desc_size :: u16
  fs_num_groups :: u32
  fs_first_data_block :: u32
  fs_gdt_fsb :: u64
  fs_reserved_gdt_blocks :: u16
  fs_uuid :: "u8 list"
  fs_volume_name :: "u8 list"
  fs_csum_seed :: u32
  fs_meta_csum :: bool
  fs_has_64bit :: bool
  fs_blocks_total :: u64
  fs_inodes_total :: u32
  fs_free_blocks :: u64
  fs_free_inodes :: u64

type_synonym ('d, 'a) fs = "'d Ext4 \<Rightarrow> ((FsError + 'a) \<times> 'd Ext4) option"

definition ok_fs :: "'a \<Rightarrow> ('d, 'a) fs" where "ok_fs x s = Some (Inr x, s)"
definition err_fs :: "FsError \<Rightarrow> ('d, 'a) fs" where "err_fs e s = Some (Inl e, s)"

definition then_fs :: "('d, 'a) fs \<Rightarrow> ('a \<Rightarrow> ('d, 'b) fs) \<Rightarrow> ('d, 'b) fs" where
  "then_fs m f s = (case m s of None \<Rightarrow> None | Some (Inl e, s') \<Rightarrow> Some (Inl e, s') | Some (Inr x, s') \<Rightarrow> f x s')"

text \<open>A computation that may panic, and reading or replacing the mounted state.\<close>

definition need :: "'a option \<Rightarrow> ('d, 'a) fs" where "need m s = map_option (\<lambda>x. (Inr x, s)) m"
definition with_fs :: "('d Ext4 \<Rightarrow> ('d, 'a) fs) \<Rightarrow> ('d, 'a) fs" where "with_fs f s = f s s"
definition set_fs :: "('d Ext4 \<Rightarrow> 'd Ext4) \<Rightarrow> ('d, unit) fs" where "set_fs f s = Some (Inr (), f s)"

lemma fs_simps [simp]:
  "ok_fs x s = Some (Inr x, s)" "err_fs e s = Some (Inl e, s)" "with_fs f s = f s s" "set_fs g s = Some (Inr (), g s)"
  "then_fs (ok_fs x) k s = k x s" "then_fs (err_fs e) k s = Some (Inl e, s)" "need None s = None" "need (Some x) s = Some (Inr x, s)"
  by (simp_all add: ok_fs_def err_fs_def then_fs_def with_fs_def set_fs_def need_def)

lemma then_fs_Inr:
  "then_fs m f s = Some (Inr y, s') \<longleftrightarrow> (\<exists>x s1. m s = Some (Inr x, s1) \<and> f x s1 = Some (Inr y, s'))"
  by (auto simp: then_fs_def split: option.splits sum.splits prod.splits)

lemma then_fs_step: "m s = Some (Inr x, s1) \<Longrightarrow> then_fs m f s = f x s1"
  by (simp add: then_fs_def)

lemma then_fs_err: "m s = Some (Inl e, s1) \<Longrightarrow> then_fs m f s = Some (Inl e, s1)"
  by (simp add: then_fs_def)

lemma then_fs_halt: "m s = None \<Longrightarrow> then_fs m f s = None"
  by (simp add: then_fs_def)

lemma then_fs_cong [fundef_cong]:
  "m s = m' s' \<Longrightarrow> (\<And>x s1. m' s' = Some (Inr x, s1) \<Longrightarrow> f x s1 = f' x s1) \<Longrightarrow> then_fs m f s = then_fs m' f' s'"
  by (auto simp: then_fs_def split: option.splits sum.splits prod.splits)

section \<open>Mounting\<close>

definition zero_block :: "u8 list" where "zero_block = replicate MAX_BLOCK_SIZE 0"

text \<open>The superblock fields, once the block that holds it is in \<open>buf\<close>.\<close>

definition mount_super :: "'d BlockDevice \<Rightarrow> 'd \<Rightarrow> u32 \<Rightarrow> u8 list \<Rightarrow> (FsError + 'd Ext4) option" where
  "mount_super D d bsz buf = do {
     inodes_total \<leftarrow> le32 buf SB_INODES_COUNT;
     bpg \<leftarrow> le32 buf SB_BLOCKS_PER_GROUP;
     ipg \<leftarrow> le32 buf SB_INODES_PER_GROUP;
     rev \<leftarrow> le32 buf SB_REV_LEVEL;
     isz \<leftarrow> le16 buf SB_INODE_SIZE;
     incompat \<leftarrow> le32 buf SB_FEATURE_INCOMPAT;
     ro_compat \<leftarrow> le32 buf SB_FEATURE_RO_COMPAT;
     dsz \<leftarrow> le16 buf SB_DESC_SIZE;
     let isz = (if isz < of_nat GOOD_OLD_INODE_SIZE then of_nat GOOD_OLD_INODE_SIZE else isz);
     let has_64bit = incompat AND INCOMPAT_64BIT \<noteq> 0;
     let meta_csum = ro_compat AND RO_COMPAT_METADATA_CSUM \<noteq> 0 \<and> incompat AND INCOMPAT_CSUM_SEED \<noteq> 0;
     let dsz = (if dsz = 0 then 32 else dsz);
     if inodes_total = 0 \<or> bpg = 0 \<or> ipg = 0 then Some (Inl FsCorrupt)
     else if rev \<noteq> 1 then Some (Inl FsUnsupported)
     else if isz > of_nat MAX_INODE_SIZE then Some (Inl FsUnsupported)
     else if incompat AND NOT (INCOMPAT_FILETYPE OR INCOMPAT_EXTENTS OR INCOMPAT_64BIT OR INCOMPAT_FLEX_BG OR INCOMPAT_CSUM_SEED) \<noteq> 0
     then Some (Inl FsUnsupported)
     else if incompat AND INCOMPAT_EXTENTS = 0 \<or> incompat AND INCOMPAT_FILETYPE = 0 then Some (Inl FsUnsupported)
     else if ro_compat AND RO_COMPAT_REJECT \<noteq> 0 then Some (Inl FsUnsupported)
     else if dsz < 32 \<or> (has_64bit \<and> dsz < 64) then Some (Inl FsCorrupt)
     else do {
       total_lo \<leftarrow> le32 buf SB_BLOCKS_COUNT_LO;
       total_hi \<leftarrow> le32 buf SB_BLOCKS_COUNT_HI;
       free_lo \<leftarrow> le32 buf SB_FREE_BLOCKS_LO;
       free_hi \<leftarrow> le32 buf SB_FREE_BLOCKS_HI;
       let total = (if has_64bit then push_bit 32 (ucast total_hi) OR ucast total_lo else ucast total_lo);
       let free = (if has_64bit then push_bit 32 (ucast free_hi) OR ucast free_lo else ucast free_lo);
       free_inodes \<leftarrow> le32 buf SB_FREE_INODES;
       up \<leftarrow> cadd total (ucast bpg);
       up \<leftarrow> csub up 1;
       first \<leftarrow> le32 buf SB_FIRST_DATA_BLOCK;
       reserved \<leftarrow> le16 buf SB_RESERVED_GDT_BLOCKS;
       uuid \<leftarrow> rd buf SB_UUID 16;
       vname \<leftarrow> rd buf SB_VOLUME_NAME 16;
       seed_field \<leftarrow> le32 buf SB_CHECKSUM_SEED;
       let seed = (if incompat AND INCOMPAT_CSUM_SEED \<noteq> 0 then seed_field else crc32c 0xFFFFFFFF uuid);
       csum \<leftarrow> le32 buf SB_CHECKSUM;
       covered \<leftarrow> rd buf 0 0x3FC;
       if meta_csum \<and> csum \<noteq> crc32c 0xFFFFFFFF covered then Some (Inl FsCorrupt)
       else Some (Inr \<lparr>fs_ops = D, fs_dev = d, fs_bs = bsz, fs_bpg = bpg, fs_ipg = ipg, fs_inode_size = isz, fs_desc_size = dsz,
         fs_num_groups = ucast (up div ucast bpg), fs_first_data_block = first, fs_gdt_fsb = ucast first + 1,
         fs_reserved_gdt_blocks = reserved, fs_uuid = uuid, fs_volume_name = vname, fs_csum_seed = seed, fs_meta_csum = meta_csum,
         fs_has_64bit = has_64bit, fs_blocks_total = total, fs_inodes_total = inodes_total, fs_free_blocks = free,
         fs_free_inodes = ucast free_inodes\<rparr>)
     }
   }"

definition mount :: "'d BlockDevice \<Rightarrow> 'd \<Rightarrow> ((FsError + 'd Ext4) \<times> 'd) option" where
  "mount D d =
     (if block_size D d \<noteq> 512 then Some (Inl FsUnsupported, d)
      else do {
        (r, d) \<leftarrow> read_blocks D 2 (replicate 1024 0) d;
        case r of
          Inl e \<Rightarrow> Some (Inl (map_block_err e), d)
        | Inr data \<Rightarrow> do {
            let buf = data @ drop 1024 zero_block;
            magic \<leftarrow> le16 buf SB_MAGIC;
            log \<leftarrow> le32 buf SB_LOG_BLOCK_SIZE;
            cluster \<leftarrow> le32 buf SB_LOG_CLUSTER_SIZE;
            let bsz = push_bit (unat log) 1024;
            if magic \<noteq> EXT4_MAGIC then Some (Inl FsCorrupt, d)
            else if log > 2 \<or> cluster \<noteq> log then Some (Inl FsUnsupported, d)
            else if bsz = 1024 then do { r \<leftarrow> mount_super D d bsz buf; Some (r, d) }
            else do {
              (r, d) \<leftarrow> read_blocks D 0 (take (unat bsz) buf) d;
              case r of
                Inl e \<Rightarrow> Some (Inl (map_block_err e), d)
              | Inr data \<Rightarrow> do {
                  let buf = data @ drop (unat bsz) buf;
                  magic \<leftarrow> le16 buf SB_MAGIC;
                  if magic \<noteq> EXT4_MAGIC then Some (Inl FsCorrupt, d)
                  else do { r \<leftarrow> mount_super D d bsz buf; Some (r, d) }
                }
            }
          }
      })"

section \<open>Blocks\<close>

definition sync :: "('d, unit) fs" where
  "sync s = (let (r, d) = flush (fs_ops s) (fs_dev s) in Some (map_sum map_block_err (\<lambda>u. u) r, s\<lparr>fs_dev := d\<rparr>))"

definition fsb_lba :: "'d Ext4 \<Rightarrow> u64 \<Rightarrow> u64 option" where
  "fsb_lba s fsb = map_option (\<lambda>x. x div 512) (cmul fsb (ucast (fs_bs s)))"

definition sblock_fsb :: "'d Ext4 \<Rightarrow> u64" where
  "sblock_fsb s = (if fs_bs s = 1024 then 1 else 0)"

definition read_fsb :: "u64 \<Rightarrow> u8 list \<Rightarrow> ('d, u8 list) fs" where
  "read_fsb fsb buf s = do {
     lba \<leftarrow> fsb_lba s fsb;
     part \<leftarrow> rd buf 0 (unat (fs_bs s));
     (r, d) \<leftarrow> read_blocks (fs_ops s) lba part (fs_dev s);
     Some (map_sum map_block_err (\<lambda>data. data @ drop (unat (fs_bs s)) buf) r, s\<lparr>fs_dev := d\<rparr>)
   }"

definition write_fsb :: "u64 \<Rightarrow> u8 list \<Rightarrow> ('d, unit) fs" where
  "write_fsb fsb buf s = do {
     lba \<leftarrow> fsb_lba s fsb;
     part \<leftarrow> rd buf 0 (unat (fs_bs s));
     (r, d) \<leftarrow> write_blocks (fs_ops s) lba part (fs_dev s);
     Some (map_sum map_block_err (\<lambda>u. u) r, s\<lparr>fs_dev := d\<rparr>)
   }"

definition read_sblock :: "u8 list \<Rightarrow> ('d, u8 list) fs" where
  "read_sblock buf s = read_fsb (sblock_fsb s) buf s"

definition write_sblock :: "u8 list \<Rightarrow> ('d, unit) fs" where
  "write_sblock buf s = write_fsb (sblock_fsb s) buf s"

section \<open>Group descriptors\<close>

text \<open>The block and the offset of a group's descriptor.\<close>

definition group_place :: "'d Ext4 \<Rightarrow> u32 \<Rightarrow> (u64 \<times> nat) option" where
  "group_place s grp = do {
     a \<leftarrow> cmul (fs_gdt_fsb s) (ucast (fs_bs s));
     b \<leftarrow> cmul (ucast grp) (ucast (fs_desc_size s));
     byte \<leftarrow> cadd a b;
     if fs_bs s = 0 then None else Some (byte div ucast (fs_bs s), unat (byte mod ucast (fs_bs s)))
   }"

definition group_descriptor :: "u32 \<Rightarrow> u8 list \<Rightarrow> ('d, nat \<times> u8 list) fs" where
  "group_descriptor grp buf = with_fs (\<lambda>s.
     if grp \<ge> fs_num_groups s then err_fs FsCorrupt
     else then_fs (need (group_place s grp)) (\<lambda>(block, off).
       then_fs (read_fsb block buf) (\<lambda>buf. ok_fs (off, buf))))"

text \<open>The descriptor itself, as most callers slice it out.\<close>

definition group_slice :: "u32 \<Rightarrow> ('d, u8 list) fs" where
  "group_slice grp = then_fs (group_descriptor grp zero_block) (\<lambda>(off, buf).
     with_fs (\<lambda>s. need (rd buf off (unat (fs_desc_size s)))))"

definition push_group :: "u32 \<Rightarrow> u8 list \<Rightarrow> ('d, unit) fs" where
  "push_group grp gd = with_fs (\<lambda>s.
     then_fs (need (group_place s grp)) (\<lambda>(block, off).
     then_fs (read_fsb block zero_block) (\<lambda>buf.
     then_fs (need (wr buf off gd)) (\<lambda>buf. write_fsb block buf))))"

definition group_csum :: "u32 \<Rightarrow> u32 \<Rightarrow> u8 list \<Rightarrow> u32" where
  "group_csum seed grp d =
     (let crc = crc32c seed (to_le_bytes 4 grp);
          crc = crc32c crc (take 0x1E d);
          crc = crc32c crc [0, 0]
      in if 0x20 < length d then crc32c crc (drop 0x20 d) else crc)"

definition with_group :: "u32 \<Rightarrow> (u8 list \<Rightarrow> u8 list option) \<Rightarrow> ('d, unit) fs" where
  "with_group grp f = then_fs (group_slice grp) (\<lambda>gd.
     then_fs (need (f gd)) (\<lambda>gd. with_fs (\<lambda>s.
     then_fs (if fs_meta_csum s then need (put_le16 gd GD_CHECKSUM (ucast (group_csum (fs_csum_seed s) grp gd))) else ok_fs gd)
       (push_group grp))))"

definition gd_u32 :: "'d Ext4 \<Rightarrow> u8 list \<Rightarrow> nat \<Rightarrow> nat \<Rightarrow> u64 option" where
  "gd_u32 s gd lo hi = do {
     v \<leftarrow> le32 gd lo;
     if fs_has_64bit s \<and> hi < unat (fs_desc_size s)
     then do { h \<leftarrow> le32 gd hi; Some (ucast v OR push_bit 32 (ucast h)) }
     else Some (ucast v)
   }"

definition gd_u16 :: "'d Ext4 \<Rightarrow> u8 list \<Rightarrow> nat \<Rightarrow> nat \<Rightarrow> u64 option" where
  "gd_u16 s gd lo hi = do {
     v \<leftarrow> le16 gd lo;
     if fs_has_64bit s \<and> hi < unat (fs_desc_size s)
     then do { h \<leftarrow> le16 gd hi; Some (ucast v OR push_bit 16 (ucast h)) }
     else Some (ucast v)
   }"

text \<open>\<^verbatim>\<open>(v as i64 + d).max(0) as u64\<close>, where the sum must fit in 64 bits.\<close>

definition bump :: "u64 \<Rightarrow> int \<Rightarrow> u64 option" where
  "bump v d = (let x = sint v + d in if x < - (2 ^ 63) \<or> x \<ge> 2 ^ 63 then None else Some (word_of_int (max x 0)))"

definition persist_super_counts :: "int \<Rightarrow> int \<Rightarrow> ('d, unit) fs" where
  "persist_super_counts dblk dino = with_fs (\<lambda>s.
     then_fs (need (bump (fs_free_blocks s) dblk)) (\<lambda>fb.
     then_fs (set_fs (\<lambda>s. s\<lparr>fs_free_blocks := fb\<rparr>)) (\<lambda>_.
     then_fs (need (bump (fs_free_inodes s) dino)) (\<lambda>fi.
     then_fs (set_fs (\<lambda>s. s\<lparr>fs_free_inodes := fi\<rparr>)) (\<lambda>_.
     then_fs (read_sblock zero_block) (\<lambda>sb.
     then_fs (need (do {
       sb \<leftarrow> put_le32 sb SB_FREE_BLOCKS_LO (ucast fb);
       sb \<leftarrow> put_le32 sb SB_FREE_INODES (ucast fi);
       sb \<leftarrow> (if fs_has_64bit s then put_le32 sb SB_FREE_BLOCKS_HI (ucast (drop_bit 32 fb)) else Some sb);
       if fs_meta_csum s then put_le32 sb SB_CHECKSUM (crc32c 0xFFFFFFFF (take 0x3FC sb)) else Some sb
     })) write_sblock))))))"

section \<open>Inodes\<close>

definition inode_location :: "u32 \<Rightarrow> ('d, u64 \<times> nat \<times> u32) fs" where
  "inode_location ino = with_fs (\<lambda>s.
     then_fs (need (csub ino 1)) (\<lambda>n.
     then_fs (need (if fs_ipg s = 0 then None else Some (n div fs_ipg s, n mod fs_ipg s))) (\<lambda>(grp, index).
     then_fs (group_slice grp) (\<lambda>gd.
     need (do {
       table \<leftarrow> gd_u32 s gd GD_INODE_TABLE_LO GD_INODE_TABLE_HI;
       a \<leftarrow> cmul table (ucast (fs_bs s));
       b \<leftarrow> cmul (ucast index) (ucast (fs_inode_size s));
       byte \<leftarrow> cadd a b;
       Some (byte div ucast (fs_bs s), unat (byte mod ucast (fs_bs s)), grp)
     })))))"

text \<open>The fields of an inode's record.\<close>

definition parse_inode :: "'d Ext4 \<Rightarrow> u32 \<Rightarrow> u8 list \<Rightarrow> Inode option" where
  "parse_inode s ino raw = do {
     mode \<leftarrow> le16 raw INO_MODE;
     size_lo \<leftarrow> le32 raw INO_SIZE_LO;
     size_high \<leftarrow> le32 raw INO_SIZE_HIGH;
     blocks_lo \<leftarrow> le32 raw INO_BLOCKS_LO;
     blocks_high \<leftarrow> le32 raw INO_BLOCKS_HIGH;
     flags \<leftarrow> le32 raw INO_FLAGS;
     Some \<lparr>i_ino = ino, i_mode = mode,
       i_size = ucast size_lo OR (if fs_has_64bit s then push_bit 32 (ucast size_high) else 0),
       i_blocks = ucast blocks_lo OR (if fs_has_64bit s then push_bit 32 (ucast blocks_high) else 0),
       i_flags = flags, i_raw = raw @ replicate (MAX_INODE_SIZE - length raw) 0\<rparr>
   }"

definition read_inode :: "u32 \<Rightarrow> ('d, Inode) fs" where
  "read_inode ino = then_fs (inode_location ino) (\<lambda>(block, off, grp).
     then_fs (read_fsb block zero_block) (\<lambda>buf. with_fs (\<lambda>s.
     then_fs (need (rd buf off (unat (fs_inode_size s)))) (\<lambda>raw. need (parse_inode s ino raw)))))"

definition inode_csum :: "'d Ext4 \<Rightarrow> u32 \<Rightarrow> u8 list \<Rightarrow> u8 list option" where
  "inode_csum s ino raw = do {
     gen \<leftarrow> le32 raw INO_GENERATION;
     extra \<leftarrow> le16 raw INO_EXTRA_ISIZE;
     let seed = crc32c (crc32c (fs_csum_seed s) (to_le_bytes 4 ino)) (to_le_bytes 4 gen);
     let isz = unat (fs_inode_size s);
     let fits_hi = isz > GOOD_OLD_INODE_SIZE \<and> unat extra \<ge> 4;
     let csum = crc32c seed (take INO_CHECKSUM_LO raw);
     let csum = crc32c csum [0, 0];
     mid \<leftarrow> rd raw (INO_CHECKSUM_LO + 2) (GOOD_OLD_INODE_SIZE - (INO_CHECKSUM_LO + 2));
     let csum = crc32c csum mid;
     csum \<leftarrow> (if isz > GOOD_OLD_INODE_SIZE then do {
         m \<leftarrow> rd raw GOOD_OLD_INODE_SIZE (INO_CHECKSUM_HI - GOOD_OLD_INODE_SIZE);
         let csum = crc32c csum m;
         let csum = (if fits_hi then crc32c csum [0, 0] else csum);
         let tail = (if fits_hi then INO_CHECKSUM_HI + 2 else INO_CHECKSUM_HI);
         if isz < tail then None else do { t \<leftarrow> rd raw tail (isz - tail); Some (crc32c csum t) }
       } else Some csum);
     raw \<leftarrow> put_le16 raw INO_CHECKSUM_LO (ucast csum);
     if fits_hi then put_le16 raw INO_CHECKSUM_HI (ucast (drop_bit 16 csum)) else Some raw
   }"

definition stamp_inode :: "'d Ext4 \<Rightarrow> Inode \<Rightarrow> u8 list option" where
  "stamp_inode s n = do {
     raw \<leftarrow> put_le16 (i_raw n) INO_MODE (i_mode n);
     raw \<leftarrow> put_le32 raw INO_SIZE_LO (ucast (i_size n));
     raw \<leftarrow> put_le32 raw INO_BLOCKS_LO (ucast (i_blocks n));
     raw \<leftarrow> put_le32 raw INO_FLAGS (i_flags n);
     raw \<leftarrow> (if fs_has_64bit s then do {
         raw \<leftarrow> put_le32 raw INO_SIZE_HIGH (ucast (drop_bit 32 (i_size n)));
         put_le32 raw INO_BLOCKS_HIGH (ucast (drop_bit 32 (i_blocks n)))
       } else Some raw);
     if fs_meta_csum s then inode_csum s (i_ino n) raw else Some raw
   }"

definition write_inode :: "Inode \<Rightarrow> ('d, unit) fs" where
  "write_inode n = then_fs (inode_location (i_ino n)) (\<lambda>(block, off, grp).
     then_fs (read_fsb block zero_block) (\<lambda>buf. with_fs (\<lambda>s.
     then_fs (need (stamp_inode s n)) (\<lambda>raw.
     then_fs (need (rd raw 0 (unat (fs_inode_size s)))) (\<lambda>raw.
     then_fs (need (wr buf off raw)) (\<lambda>buf. write_fsb block buf))))))"

section \<open>Allocation\<close>

definition read_bitmap :: "u32 \<Rightarrow> bool \<Rightarrow> ('d, u64) fs" where
  "read_bitmap grp want_inode = then_fs (group_slice grp) (\<lambda>gd. with_fs (\<lambda>s.
     need (if want_inode then gd_u32 s gd GD_INODE_BITMAP_LO GD_INODE_BITMAP_HI
           else gd_u32 s gd GD_BLOCK_BITMAP_LO GD_BLOCK_BITMAP_HI)))"

text \<open>Blocks that hold metadata; a descriptor that cannot be read counts as reserved.\<close>

definition reserved_end :: "'d Ext4 \<Rightarrow> u64" where
  "reserved_end s = fs_gdt_fsb s + (ucast (fs_num_groups s) * ucast (fs_desc_size s) + ucast (fs_bs s) - 1) div ucast (fs_bs s)
     + ucast (fs_reserved_gdt_blocks s)"

definition inode_table_blocks :: "'d Ext4 \<Rightarrow> u64" where
  "inode_table_blocks s = (ucast (fs_inodes_total s) div ucast (fs_num_groups s) * ucast (fs_inode_size s) + ucast (fs_bs s) - 1)
     div ucast (fs_bs s)"

definition block_reserved :: "u32 \<Rightarrow> u64 \<Rightarrow> ('d, bool) fs" where
  "block_reserved grp fsb s =
     (if grp = 0 \<and> fsb < reserved_end s then Some (Inr True, s)
      else case group_slice grp s of
        None \<Rightarrow> None
      | Some (Inl e, s) \<Rightarrow> Some (Inr True, s)
      | Some (Inr gd, s) \<Rightarrow> do {
          bb \<leftarrow> gd_u32 s gd GD_BLOCK_BITMAP_LO GD_BLOCK_BITMAP_HI;
          ib \<leftarrow> gd_u32 s gd GD_INODE_BITMAP_LO GD_INODE_BITMAP_HI;
          it \<leftarrow> gd_u32 s gd GD_INODE_TABLE_LO GD_INODE_TABLE_HI;
          if fsb = bb \<or> fsb = ib then Some (Inr True, s)
          else if fsb \<ge> it then do { e \<leftarrow> cadd it (inode_table_blocks s); Some (Inr (fsb < e), s) }
          else Some (Inr False, s)
        })"

text \<open>The scan for a clear bit: the bits of a byte, the bytes of a bitmap, the groups.  \<open>None\<close> as a result means go on.\<close>

definition mark_bit :: "u64 \<Rightarrow> u8 list \<Rightarrow> nat \<Rightarrow> nat \<Rightarrow> 'a \<Rightarrow> ('d, 'a option) fs" where
  "mark_bit bitmap_fsb bm by b x =
     then_fs (write_fsb bitmap_fsb (bm[by := bm ! by OR push_bit b 1])) (\<lambda>_. ok_fs (Some x))"

fun alloc_bits :: "bool \<Rightarrow> u32 \<Rightarrow> u64 \<Rightarrow> u8 list \<Rightarrow> nat \<Rightarrow> nat list \<Rightarrow> ('d, u64 option) fs" where
  "alloc_bits want_inode grp bitmap_fsb bm by [] s = ok_fs None s"
| "alloc_bits want_inode grp bitmap_fsb bm by (b # bits) s =
     (let units = (if want_inode then fs_ipg s else fs_bpg s); idx = by * 8 + b;
          fsb = ucast (fs_first_data_block s) + ucast grp * ucast (fs_bpg s) + of_nat idx in
      if bm ! by AND push_bit b 1 \<noteq> 0 \<or> of_nat idx \<ge> units then alloc_bits want_inode grp bitmap_fsb bm by bits s
      else if want_inode then mark_bit bitmap_fsb bm by b (ucast grp * ucast (fs_ipg s) + of_nat idx + 1) s
      else if fsb \<ge> fs_blocks_total s then alloc_bits want_inode grp bitmap_fsb bm by bits s
      else then_fs (block_reserved grp fsb) (\<lambda>r.
             if r then alloc_bits want_inode grp bitmap_fsb bm by bits else mark_bit bitmap_fsb bm by b fsb) s)"

fun alloc_bytes :: "bool \<Rightarrow> u32 \<Rightarrow> u64 \<Rightarrow> u8 list \<Rightarrow> nat list \<Rightarrow> ('d, u64 option) fs" where
  "alloc_bytes want_inode grp bitmap_fsb bm [] s = ok_fs None s"
| "alloc_bytes want_inode grp bitmap_fsb bm (by # bys) s =
     (if by \<ge> length bm then None
      else if bm ! by = 0xFF then alloc_bytes want_inode grp bitmap_fsb bm bys s
      else then_fs (alloc_bits want_inode grp bitmap_fsb bm by [0..<8]) (\<lambda>r. case r of
             Some x \<Rightarrow> ok_fs (Some x) | None \<Rightarrow> alloc_bytes want_inode grp bitmap_fsb bm bys) s)"

fun alloc_groups :: "bool \<Rightarrow> nat list \<Rightarrow> ('d, u64) fs" where
  "alloc_groups want_inode [] s = err_fs FsNoSpace s"
| "alloc_groups want_inode (g # gs) s =
     (let grp = of_nat g; units = (if want_inode then fs_ipg s else fs_bpg s) in
      then_fs (read_bitmap grp want_inode) (\<lambda>bitmap_fsb.
      then_fs (read_fsb bitmap_fsb zero_block) (\<lambda>bm.
      then_fs (alloc_bytes want_inode grp bitmap_fsb bm [0..<unat (units div 8)]) (\<lambda>r. case r of
        Some x \<Rightarrow> ok_fs x | None \<Rightarrow> alloc_groups want_inode gs))) s)"

definition alloc_bit :: "bool \<Rightarrow> ('d, u64) fs" where
  "alloc_bit want_inode = with_fs (\<lambda>s. alloc_groups want_inode [0..<unat (fs_num_groups s)])"

text \<open>A counter of a descriptor, 32 bits in two halves when the descriptor is large, and a checksum stored the same way.\<close>

definition add_counter :: "bool \<Rightarrow> nat \<Rightarrow> nat \<Rightarrow> int \<Rightarrow> u8 list \<Rightarrow> u8 list option" where
  "add_counter desc64 lo hi d gd = do {
     l \<leftarrow> le16 gd lo;
     h \<leftarrow> (if desc64 then le16 gd hi else Some 0);
     let v = uint l + 65536 * uint h + d;
     gd \<leftarrow> put_le16 gd lo (word_of_int v);
     if desc64 then put_le16 gd hi (word_of_int (v div 65536)) else Some gd
   }"

definition put_halves :: "bool \<Rightarrow> nat \<Rightarrow> nat \<Rightarrow> u32 option \<Rightarrow> u8 list \<Rightarrow> u8 list option" where
  "put_halves desc64 lo hi v gd = (case v of
      None \<Rightarrow> Some gd
    | Some c \<Rightarrow> do {
        gd \<leftarrow> put_le16 gd lo (ucast c);
        if desc64 then put_le16 gd hi (ucast (drop_bit 16 c)) else Some gd
      })"

definition commit_alloc :: "u32 \<Rightarrow> int \<Rightarrow> int \<Rightarrow> int \<Rightarrow> u32 option \<Rightarrow> u32 option \<Rightarrow> u16 option \<Rightarrow> ('d, unit) fs" where
  "commit_alloc grp dblk dino ddir bb ib itu = with_fs (\<lambda>s. let desc64 = fs_has_64bit s in
     then_fs (with_group grp (\<lambda>gd. do {
       gd \<leftarrow> add_counter desc64 GD_FREE_BLOCKS_LO GD_FREE_BLOCKS_HI dblk gd;
       gd \<leftarrow> add_counter desc64 GD_FREE_INODES_LO GD_FREE_INODES_HI dino gd;
       gd \<leftarrow> (if ddir \<noteq> 0 then add_counter desc64 GD_USED_DIRS_LO GD_USED_DIRS_HI ddir gd else Some gd);
       gd \<leftarrow> put_halves desc64 GD_BLOCK_BITMAP_CSUM_LO GD_BLOCK_BITMAP_CSUM_HI bb gd;
       gd \<leftarrow> put_halves desc64 GD_INODE_BITMAP_CSUM_LO GD_INODE_BITMAP_CSUM_HI ib gd;
       case itu of
         None \<Rightarrow> Some gd
       | Some u \<Rightarrow> do {
           gd \<leftarrow> put_le16 gd GD_ITABLE_UNUSED_LO u;
           if desc64 then put_le16 gd GD_ITABLE_UNUSED_HI 0 else Some gd
         }
     })) (\<lambda>_. persist_super_counts dblk dino))"

definition bitmap_csum :: "'d Ext4 \<Rightarrow> u8 list \<Rightarrow> u32 \<Rightarrow> u32 option" where
  "bitmap_csum s bm units =
     (if fs_meta_csum s then map_option (crc32c (fs_csum_seed s)) (rd bm 0 (unat (units div 8))) else Some 0)"

definition alloc_block :: "('d, u64) fs" where
  "alloc_block = then_fs (alloc_bit False) (\<lambda>fsb. with_fs (\<lambda>s.
     then_fs (need (csub fsb (ucast (fs_first_data_block s)))) (\<lambda>n.
     then_fs (need (if fs_bpg s = 0 then None else Some (ucast (n div ucast (fs_bpg s)) :: u32))) (\<lambda>grp.
     then_fs (read_bitmap grp False) (\<lambda>bm_fsb.
     then_fs (read_fsb bm_fsb zero_block) (\<lambda>bm.
     then_fs (need (bitmap_csum s bm (fs_bpg s))) (\<lambda>bb.
     then_fs (commit_alloc grp (-1) 0 0 (Some bb) None None) (\<lambda>_. ok_fs fsb))))))))"

definition alloc_inode :: "bool \<Rightarrow> ('d, u32) fs" where
  "alloc_inode dir = then_fs (alloc_bit True) (\<lambda>x. let ino = ucast x :: u32 in with_fs (\<lambda>s.
     then_fs (need (csub ino 1)) (\<lambda>n.
     then_fs (need (if fs_ipg s = 0 then None else Some (n div fs_ipg s, n mod fs_ipg s))) (\<lambda>(grp, index).
     then_fs (read_bitmap grp True) (\<lambda>bm_fsb.
     then_fs (read_fsb bm_fsb zero_block) (\<lambda>bm.
     then_fs (need (bitmap_csum s bm (fs_ipg s))) (\<lambda>ib.
     then_fs (group_slice grp) (\<lambda>gd.
     then_fs (need (gd_u16 s gd GD_ITABLE_UNUSED_LO GD_ITABLE_UNUSED_HI)) (\<lambda>current.
     then_fs (commit_alloc grp 0 (-1) (if dir then 1 else 0) None (Some ib)
                (Some (ucast (min current (ucast (fs_ipg s) - ucast index - 1))))) (\<lambda>_. ok_fs ino))))))))))"

end
