(* ===== verification/Ext4_Disk.thy ===== *)
theory Ext4_Disk
  imports Ext4
begin

text \<open>
  What the operations of \<open>Ext4\<close> do to the disk.  The lemmas are proved for any device that keeps the contract of \<open>volume\<close>: the
  blocks of the file system are the device's sectors, an operation of the driver reads them and replaces some of them.
\<close>

section \<open>The disk under a mounted file system\<close>

text \<open>
  What \<^verbatim>\<open>mount\<close> establishes of the geometry, the block \<open>b\<close> of the file system as the device stores it, and the effect of an operation on the
  blocks: none (\<open>fs_same\<close>) or the replacement of one of them (\<open>fs_wrote\<close>).
\<close>

definition fs_wf :: "'d Ext4 \<Rightarrow> bool" where
  "fs_wf s \<longleftrightarrow> fs_bs s \<in> {1024, 2048, 4096} \<and> fs_bpg s \<noteq> 0 \<and> fs_ipg s \<noteq> 0 \<and> 128 \<le> fs_inode_size s \<and> fs_inode_size s \<le> 256 \<and>
     32 \<le> fs_desc_size s \<and> (fs_has_64bit s \<longrightarrow> 64 \<le> fs_desc_size s) \<and> fs_gdt_fsb s = ucast (fs_first_data_block s) + 1"

definition spb :: "'d Ext4 \<Rightarrow> nat" where "spb s = unat (fs_bs s) div 512"

definition fs_block :: "('d \<Rightarrow> nat \<Rightarrow> u8 list) \<Rightarrow> 'd Ext4 \<Rightarrow> u64 \<Rightarrow> u8 list" where
  "fs_block store s b = load_sectors (unat b * spb s) (spb s) (store (fs_dev s))"

definition fs_ok :: "'d BlockDevice \<Rightarrow> ('d \<Rightarrow> bool) \<Rightarrow> 'd Ext4 \<Rightarrow> bool" where
  "fs_ok D ok s \<longleftrightarrow> fs_ops s = D \<and> ok (fs_dev s) \<and> fs_wf s"

definition fs_same :: "('d \<Rightarrow> nat \<Rightarrow> u8 list) \<Rightarrow> 'd Ext4 \<Rightarrow> 'd Ext4 \<Rightarrow> bool" where
  "fs_same store s s' \<longleftrightarrow> (\<exists>d. s' = s\<lparr>fs_dev := d\<rparr> \<and> store d = store (fs_dev s))"

definition fs_wrote :: "('d \<Rightarrow> nat \<Rightarrow> u8 list) \<Rightarrow> 'd Ext4 \<Rightarrow> u64 \<Rightarrow> u8 list \<Rightarrow> 'd Ext4 \<Rightarrow> bool" where
  "fs_wrote store s b buf s' \<longleftrightarrow> (\<exists>d. s' = s\<lparr>fs_dev := d\<rparr>) \<and>
     (\<forall>b'. fs_block store s' b' = (if b' = b then buf else fs_block store s b'))"

lemma fs_wf_dev [simp]: "fs_wf (s\<lparr>fs_dev := d\<rparr>) = fs_wf s" by (simp add: fs_wf_def)
lemma spb_dev [simp]: "spb (s\<lparr>fs_dev := d\<rparr>) = spb s" by (simp add: spb_def)

lemma fs_same_refl [simp]: "fs_same store s s" by (auto simp: fs_same_def intro: exI [of _ "fs_dev s"])

lemma fs_same_trans: "fs_same store s s1 \<Longrightarrow> fs_same store s1 s2 \<Longrightarrow> fs_same store s s2" by (auto simp: fs_same_def)

lemma fs_same_block: "fs_same store s s' \<Longrightarrow> fs_block store s' b = fs_block store s b"
  by (auto simp: fs_same_def fs_block_def)

lemma fs_same_wrote: "fs_same store s s1 \<Longrightarrow> fs_wrote store s1 b buf s2 \<Longrightarrow> fs_wrote store s b buf s2"
  by (auto simp: fs_wrote_def fs_same_block) (auto simp: fs_same_def)

lemma fs_same_fields:
  assumes "fs_same store s s'"
  shows "fs_bpg s' = fs_bpg s" "fs_ipg s' = fs_ipg s" "fs_bs s' = fs_bs s" "fs_num_groups s' = fs_num_groups s"
    "fs_first_data_block s' = fs_first_data_block s" "fs_blocks_total s' = fs_blocks_total s"
  using assms by (auto simp: fs_same_def)

lemma bs_spb: "fs_wf s \<Longrightarrow> unat (fs_bs s) = 512 * spb s \<and> 0 < spb s \<and> spb s \<le> 8"
  by (auto simp: fs_wf_def spb_def)

lemma fsb_lba_sector: "fs_wf s \<Longrightarrow> fsb_lba s b = Some lba \<Longrightarrow> unat lba = unat b * spb s"
  using bs_spb [of s] by (auto simp: fsb_lba_def cmul_Some unat_div unat_mult_bounded)

lemma fs_wrote_store:
  assumes len: "length part = 512 * spb s" and st: "store d = store_sectors (unat b * spb s) part (store (fs_dev s))"
  shows "fs_wrote store s b part (s\<lparr>fs_dev := d\<rparr>)"
proof -
  have "load_sectors (unat b' * spb s) (spb s) (store d) = load_sectors (unat b' * spb s) (spb s) (store (fs_dev s))" if "b' \<noteq> b" for b'
  proof -
    have "unat b' < unat b \<or> unat b < unat b'" using that by (meson linorder_neqE_nat word_unat_eq_iff)
    then have "unat b' * spb s + spb s \<le> unat b * spb s \<or> unat b * spb s + spb s \<le> unat b' * spb s"
      by (metis Suc_leI add.commute mult_Suc mult_le_mono1)
    then show ?thesis unfolding st using len by (intro load_store_other) simp
  qed
  then show ?thesis using load_store_sectors [OF len] by (auto simp: fs_wrote_def fs_block_def st)
qed

text \<open>A device that carries a file system.\<close>

locale volume = checked_device D ok store count
  for D :: "'d BlockDevice" and ok :: "'d \<Rightarrow> bool" and store :: "'d \<Rightarrow> nat \<Rightarrow> u8 list" and count :: nat

context volume
begin

lemma read_fsb_inv:
  assumes "fs_ok D ok s" "read_fsb b buf s = Some (r, s')"
  shows "fs_ok D ok s'" "fs_same store s s'" "r = Inr x \<Longrightarrow> x = fs_block store s b @ drop (unat (fs_bs s)) buf"
proof -
  obtain lba part r0 d where e: "fsb_lba s b = Some lba" "rd buf 0 (unat (fs_bs s)) = Some part" "read_blocks D lba part (fs_dev s) = Some (r0, d)"
    "r = map_sum map_block_err (\<lambda>data. data @ drop (unat (fs_bs s)) buf) r0" "s' = s\<lparr>fs_dev := d\<rparr>" "ok (fs_dev s)" "fs_wf s"
    using assms by (auto simp: read_fsb_def fs_ok_def)
  have n: "length part div 512 = spb s" using rd_length [OF e(2)] by (simp add: spb_def)
  note i = read_inv [OF e(6,3)]
  show "fs_ok D ok s'" "fs_same store s s'" using assms(1) i e(5) by (auto simp: fs_ok_def fs_same_def)
  show "x = fs_block store s b @ drop (unat (fs_bs s)) buf" if "r = Inr x"
    using that i e(4) fsb_lba_sector [OF e(7,1)] n by (cases r0) (auto simp: fs_block_def)
qed

lemma write_fsb_inv:
  assumes "fs_ok D ok s" "write_fsb b buf s = Some (r, s')"
  shows "fs_ok D ok s'" "r = Inr u \<Longrightarrow> fs_wrote store s b (take (unat (fs_bs s)) buf) s'" "r = Inl e \<Longrightarrow> fs_same store s s'"
proof -
  obtain lba part r0 d where e: "fsb_lba s b = Some lba" "rd buf 0 (unat (fs_bs s)) = Some part" "write_blocks D lba part (fs_dev s) = Some (r0, d)"
    "r = map_sum map_block_err (\<lambda>u. u) r0" "s' = s\<lparr>fs_dev := d\<rparr>" "ok (fs_dev s)" "fs_wf s"
    using assms by (auto simp: write_fsb_def fs_ok_def)
  have part: "part = take (unat (fs_bs s)) buf" "length part = 512 * spb s" using e(2) rd_length [OF e(2)] bs_spb [OF e(7)] by (auto simp: rd_Some)
  note i = write_inv [OF e(6,3)] and l = fsb_lba_sector [OF e(7,1)]
  show "fs_ok D ok s'" using assms(1) i e(5) by (auto simp: fs_ok_def)
  show "fs_same store s s'" if "r = Inl e" using that i e(4,5) by (cases r0) (auto simp: fs_same_def)
  show "fs_wrote store s b (take (unat (fs_bs s)) buf) s'" if "r = Inr u"
  proof -
    have "store d = store_sectors (unat b * spb s) part (store (fs_dev s))" using that i e(4) l by (cases r0) auto
    from fs_wrote_store [OF part(2) this] show ?thesis by (simp add: part(1) e(5))
  qed
qed

end

text \<open>What the blocks say: a group's descriptor, its bitmaps, and whether a block holds metadata.\<close>

definition gdesc :: "('d \<Rightarrow> nat \<Rightarrow> u8 list) \<Rightarrow> 'd Ext4 \<Rightarrow> u32 \<Rightarrow> u8 list option" where
  "gdesc store s grp = do {
     (block, off) \<leftarrow> group_place s grp;
     rd (fs_block store s block @ drop (unat (fs_bs s)) zero_block) off (unat (fs_desc_size s))
   }"

definition bitmap_at :: "('d \<Rightarrow> nat \<Rightarrow> u8 list) \<Rightarrow> 'd Ext4 \<Rightarrow> bool \<Rightarrow> u32 \<Rightarrow> u64 option" where
  "bitmap_at store s want_inode grp = do {
     gd \<leftarrow> gdesc store s grp;
     if want_inode then gd_u32 s gd GD_INODE_BITMAP_LO GD_INODE_BITMAP_HI else gd_u32 s gd GD_BLOCK_BITMAP_LO GD_BLOCK_BITMAP_HI
   }"

definition itable_at :: "('d \<Rightarrow> nat \<Rightarrow> u8 list) \<Rightarrow> 'd Ext4 \<Rightarrow> u32 \<Rightarrow> u64 option" where
  "itable_at store s grp = do { gd \<leftarrow> gdesc store s grp; gd_u32 s gd GD_INODE_TABLE_LO GD_INODE_TABLE_HI }"

definition holds_metadata :: "('d \<Rightarrow> nat \<Rightarrow> u8 list) \<Rightarrow> 'd Ext4 \<Rightarrow> u32 \<Rightarrow> u64 \<Rightarrow> bool" where
  "holds_metadata store s grp fsb \<longleftrightarrow> grp = 0 \<and> fsb < reserved_end s \<or>
     bitmap_at store s False grp = Some fsb \<or> bitmap_at store s True grp = Some fsb \<or>
     (\<exists>it. itable_at store s grp = Some it \<and> unat it \<le> unat fsb \<and> unat fsb < unat it + unat (inode_table_blocks s))"

lemma group_place_dev [simp]: "group_place (s\<lparr>fs_dev := d\<rparr>) grp = group_place s grp"
  by (simp add: group_place_def cong: if_cong)

lemma gdesc_same:
  assumes "fs_same store s s'"
  shows "gdesc store s' grp = gdesc store s grp" "bitmap_at store s' w grp = bitmap_at store s w grp"
    "itable_at store s' grp = itable_at store s grp" "holds_metadata store s' grp fsb = holds_metadata store s grp fsb"
proof -
  have b: "fs_block store s' = fs_block store s" using fs_same_block [OF assms] by (intro ext) auto
  have g: "gdesc store s' grp = gdesc store s grp" for grp using assms unfolding gdesc_def b by (auto simp: fs_same_def)
  then show "gdesc store s' grp = gdesc store s grp" .
  have u: "gd_u32 s' gd lo hi = gd_u32 s gd lo hi" for gd lo hi using assms by (auto simp: fs_same_def gd_u32_def)
  have bm: "bitmap_at store s' w grp = bitmap_at store s w grp" for w by (simp only: bitmap_at_def g u)
  then show "bitmap_at store s' w grp = bitmap_at store s w grp" .
  show it: "itable_at store s' grp = itable_at store s grp" by (simp add: itable_at_def g u)
  show "holds_metadata store s' grp fsb = holds_metadata store s grp fsb"
    using assms unfolding holds_metadata_def bm it by (auto simp: fs_same_def reserved_end_def inode_table_blocks_def)
qed

lemma need_Some [simp]: "need m s = Some (r, s') \<longleftrightarrow> (\<exists>x. m = Some x \<and> r = Inr x \<and> s' = s)"
  by (cases m) (auto simp: need_def)

lemma then_fs_Some:
  "then_fs m f s = Some (r, s') \<longleftrightarrow>
     (\<exists>e. m s = Some (Inl e, s') \<and> r = Inl e) \<or> (\<exists>x s1. m s = Some (Inr x, s1) \<and> f x s1 = Some (r, s'))"
  by (auto simp: then_fs_def split: option.splits sum.splits prod.splits)

lemma then_fs_case_Some:
  "then_fs m (\<lambda>x. case x of None \<Rightarrow> g | Some y \<Rightarrow> f y) s = Some (r, s') \<longleftrightarrow>
     (\<exists>e. m s = Some (Inl e, s') \<and> r = Inl e) \<or> (\<exists>y s1. m s = Some (Inr (Some y), s1) \<and> f y s1 = Some (r, s')) \<or>
     (\<exists>s1. m s = Some (Inr None, s1) \<and> g s1 = Some (r, s'))"
  by (auto simp: then_fs_def split: option.splits sum.splits prod.splits)

context volume
begin

lemma group_slice_inv:
  assumes "fs_ok D ok s" "group_slice grp s = Some (r, s')"
  shows "fs_ok D ok s'" "fs_same store s s'" "r = Inr gd \<Longrightarrow> grp < fs_num_groups s \<and> gdesc store s grp = Some gd"
proof -
  have "fs_ok D ok s' \<and> fs_same store s s' \<and> (\<forall>gd. r = Inr gd \<longrightarrow> grp < fs_num_groups s \<and> gdesc store s grp = Some gd)"
    using assms(2) read_fsb_inv [OF assms(1)] assms(1)
    by (auto simp: group_slice_def group_descriptor_def then_fs_Some gdesc_def not_le fs_same_fields split: if_splits)
      (fastforce simp: fs_same_def)+
  then show "fs_ok D ok s'" "fs_same store s s'" "r = Inr gd \<Longrightarrow> grp < fs_num_groups s \<and> gdesc store s grp = Some gd" by auto
qed

lemma read_bitmap_inv:
  assumes "fs_ok D ok s" "read_bitmap grp want s = Some (r, s')"
  shows "fs_ok D ok s'" "fs_same store s s'" "r = Inr b \<Longrightarrow> grp < fs_num_groups s \<and> bitmap_at store s want grp = Some b"
proof -
  consider e where "group_slice grp s = Some (Inl e, s')" "r = Inl e"
    | gd b where "group_slice grp s = Some (Inr gd, s')" "r = Inr b"
      "(if want then gd_u32 s' gd GD_INODE_BITMAP_LO GD_INODE_BITMAP_HI else gd_u32 s' gd GD_BLOCK_BITMAP_LO GD_BLOCK_BITMAP_HI) = Some b"
    using assms(2) by (auto simp: read_bitmap_def then_fs_Some split: if_splits)
  then have "fs_ok D ok s' \<and> fs_same store s s' \<and> (\<forall>b. r = Inr b \<longrightarrow> grp < fs_num_groups s \<and> bitmap_at store s want grp = Some b)"
  proof cases
    case (2 gd b)
    note g = group_slice_inv [OF assms(1) 2(1)]
    have "gd_u32 s' = gd_u32 s" using g(2) by (auto simp: fs_same_def gd_u32_def fun_eq_iff)
    then show ?thesis using g 2 by (auto simp: bitmap_at_def)
  qed (use group_slice_inv [OF assms(1)] in auto)
  then show "fs_ok D ok s'" "fs_same store s s'" "r = Inr b \<Longrightarrow> grp < fs_num_groups s \<and> bitmap_at store s want grp = Some b" by auto
qed

lemma block_reserved_inv:
  assumes "fs_ok D ok s" "block_reserved grp fsb s = Some (r, s')"
  shows "fs_ok D ok s'" "fs_same store s s'" "r = Inr False \<Longrightarrow> \<not> holds_metadata store s grp fsb" "\<exists>b. r = Inr b"
proof -
  consider "s' = s" "r = Inr True" | e where "group_slice grp s = Some (Inl e, s')" "r = Inr True"
    | gd where "group_slice grp s = Some (Inr gd, s')" "\<not> (grp = 0 \<and> fsb < reserved_end s)"
      "do { bb \<leftarrow> gd_u32 s' gd GD_BLOCK_BITMAP_LO GD_BLOCK_BITMAP_HI;
          ib \<leftarrow> gd_u32 s' gd GD_INODE_BITMAP_LO GD_INODE_BITMAP_HI;
          it \<leftarrow> gd_u32 s' gd GD_INODE_TABLE_LO GD_INODE_TABLE_HI;
          if fsb = bb \<or> fsb = ib then Some (Inr True, s')
          else if fsb \<ge> it then do { e \<leftarrow> cadd it (inode_table_blocks s'); Some (Inr (fsb < e), s') }
          else Some (Inr False, s') } = Some (r, s')"
    using assms(2) by (auto simp: block_reserved_def split: if_splits option.splits sum.splits)
  then have "fs_ok D ok s' \<and> fs_same store s s' \<and> (r = Inr False \<longrightarrow> \<not> holds_metadata store s grp fsb) \<and> (\<exists>b. r = Inr b)"
  proof cases
    case (3 gd)
    note g = group_slice_inv [OF assms(1) 3(1)]
    have "gd_u32 s' = gd_u32 s" "inode_table_blocks s' = inode_table_blocks s"
      using g(2) by (auto simp: fs_same_def gd_u32_def fun_eq_iff inode_table_blocks_def)
    then show ?thesis using g 3 by (auto simp: holds_metadata_def bitmap_at_def itable_at_def word_le_nat_alt word_less_nat_alt split: if_splits dest!: cadd_unat)
  qed (use group_slice_inv [OF assms(1)] assms(1) in auto)
  then show "fs_ok D ok s'" "fs_same store s s'" "r = Inr False \<Longrightarrow> \<not> holds_metadata store s grp fsb" "\<exists>b. r = Inr b" by auto
qed
end

text \<open>The unit a bit stands for, and what it means to take a bit: it was clear and in range, the unit is usable, and only this bit changes.\<close>

definition units :: "'d Ext4 \<Rightarrow> bool \<Rightarrow> u32" where "units s want = (if want then fs_ipg s else fs_bpg s)"

definition unit_number :: "'d Ext4 \<Rightarrow> bool \<Rightarrow> u32 \<Rightarrow> nat \<Rightarrow> u64" where
  "unit_number s want grp idx = (if want then ucast grp * ucast (fs_ipg s) + of_nat idx + 1
     else ucast (fs_first_data_block s) + ucast grp * ucast (fs_bpg s) + of_nat idx)"

lemma units_dev [simp]: "units (s\<lparr>fs_dev := d\<rparr>) w = units s w" "unit_number (s\<lparr>fs_dev := d\<rparr>) w g i = unit_number s w g i"
    "gd_u32 (s\<lparr>fs_dev := d\<rparr>) = gd_u32 s"
  by (simp_all add: units_def unit_number_def gd_u32_def fun_eq_iff)

definition bit_at :: "u8 list \<Rightarrow> nat \<Rightarrow> bool" where "bit_at bm idx = bit (bm ! (idx div 8)) (idx mod 8)"

definition set_bit_at :: "u8 list \<Rightarrow> nat \<Rightarrow> u8 list" where
  "set_bit_at bm idx = bm[idx div 8 := bm ! (idx div 8) OR push_bit (idx mod 8) 1]"

definition took_bit :: "('d \<Rightarrow> nat \<Rightarrow> u8 list) \<Rightarrow> 'd Ext4 \<Rightarrow> bool \<Rightarrow> u32 \<Rightarrow> u64 \<Rightarrow> nat \<Rightarrow> u64 \<Rightarrow> 'd Ext4 \<Rightarrow> bool" where
  "took_bit store s want grp b idx x s' \<longleftrightarrow> idx < unat (units s want) \<and> x = unit_number s want grp idx \<and>
     (want \<or> x < fs_blocks_total s \<and> \<not> holds_metadata store s grp x) \<and>
     \<not> bit_at (fs_block store s b) idx \<and> fs_wrote store s b (set_bit_at (fs_block store s b) idx) s'"

lemma took_bit_same: "fs_same store s s1 \<Longrightarrow> took_bit store s1 want grp b idx x s' \<Longrightarrow> took_bit store s want grp b idx x s'"
proof -
  assume a: "fs_same store s s1" "took_bit store s1 want grp b idx x s'"
  then have "units s1 want = units s want" "unit_number s1 want grp idx = unit_number s want grp idx" "fs_blocks_total s1 = fs_blocks_total s"
    by (auto simp: units_def unit_number_def fs_same_fields)
  then show ?thesis using a fs_same_wrote [OF a(1)] by (auto simp: took_bit_def gdesc_same [OF a(1)] fs_same_block [OF a(1)])
qed

definition scan_result :: "('d \<Rightarrow> nat \<Rightarrow> u8 list) \<Rightarrow> 'd Ext4 \<Rightarrow> bool \<Rightarrow> u32 \<Rightarrow> u64 \<Rightarrow> FsError + u64 option \<Rightarrow> 'd Ext4 \<Rightarrow> bool" where
  "scan_result store s want grp b r s' = (case r of
     Inr (Some x) \<Rightarrow> \<exists>idx. took_bit store s want grp b idx x s' | _ \<Rightarrow> fs_same store s s')"

lemma scan_result_simps [simp]:
  "scan_result store s want grp b (Inl e) s' = fs_same store s s'" "scan_result store s want grp b (Inr None) s' = fs_same store s s'"
  "scan_result store s want grp b (Inr (Some x)) s' = (\<exists>idx. took_bit store s want grp b idx x s')"
  by (simp_all add: scan_result_def)

lemma scan_result_same: "fs_same store s s1 \<Longrightarrow> scan_result store s1 want grp b r s' \<Longrightarrow> scan_result store s want grp b r s'"
  by (auto simp: scan_result_def intro: fs_same_trans took_bit_same split: sum.splits option.splits)

lemma set_bit_at_bits:
  assumes "idx div 8 < length bm"
  shows "length (set_bit_at bm idx) = length bm" "bit_at (set_bit_at bm idx) idx"
    "j \<noteq> idx \<Longrightarrow> bit_at (set_bit_at bm idx) j = bit_at bm j"
proof -
  show "length (set_bit_at bm idx) = length bm" by (simp add: set_bit_at_def)
  show "bit_at (set_bit_at bm idx) idx" using assms by (simp add: set_bit_at_def bit_at_def bit_simps)
  have "j div 8 \<noteq> idx div 8 \<or> j mod 8 \<noteq> idx mod 8" if "j \<noteq> idx" using that by (metis mult_div_mod_eq)
  then show "bit_at (set_bit_at bm idx) j = bit_at bm j" if "j \<noteq> idx"
    using that assms by (cases "j div 8 = idx div 8") (auto simp: set_bit_at_def bit_at_def bit_simps)
qed

lemma unit_number_inj:
  assumes "unit_number s want g i = unit_number s want h j" "i < unat (units s want)" "j < unat (units s want)"
  shows "g = h" "i = j"
proof -
  let ?u = "unat (units s want)" and ?U = "ucast (units s want) :: u64"
  have big: "unat (ucast k * ?U + of_nat m) = unat k * ?u + m" if "m < ?u" for k :: u32 and m
  proof -
    have "unat k * ?u + m \<le> (2 ^ 32 - 1) * ?u + ?u" using that unat_bound [of k] by (intro add_mono mult_le_mono1) auto
    also have "\<dots> < 2 ^ 64" using unat_bound [of "units s want"] by simp
    finally have l: "unat k * ?u + m < 2 ^ 64" .
    then show ?thesis using that by (simp add: unat_add_bounded unat_mult_bounded unat_of_nat_bounded)
  qed
  have "ucast g * ?U + of_nat i = ucast h * ?U + (of_nat j :: u64)" using assms(1)
    by (auto simp: unit_number_def units_def add.assoc split: if_splits)
  then have e: "unat g * ?u + i = unat h * ?u + j" using big assms(2,3) by metis
  have "(unat g * ?u + i) mod ?u = i" "(unat h * ?u + j) mod ?u = j" "(unat g * ?u + i) div ?u = unat g" "(unat h * ?u + j) div ?u = unat h"
    using assms(2,3) by simp_all
  then show "g = h" "i = j" using e by (metis word_unat_eq_iff)+
qed

context volume
begin

lemma length_fs_block: "fs_ok D ok s \<Longrightarrow> length (fs_block store s b) = unat (fs_bs s)"
  using bs_spb [of s] length_load_sectors [of "store (fs_dev s)"] sector_length [of "fs_dev s"] by (simp add: fs_ok_def fs_block_def)

lemma mark_bit_inv:
  assumes ok: "fs_ok D ok s" and m: "mark_bit b (fs_block store s b @ pad) by k x s = Some (r, s')" and "by < unat (fs_bs s)" "k < 8"
  shows "fs_ok D ok s' \<and> ((\<exists>e. r = Inl e) \<and> fs_same store s s' \<or>
    r = Inr (Some x) \<and> fs_wrote store s b (set_bit_at (fs_block store s b) (by * 8 + k)) s')"
proof -
  let ?B = "fs_block store s b"
  let ?bm = "(?B @ pad)[by := (?B @ pad) ! by OR push_bit k 1]"
  have l: "length ?B = unat (fs_bs s)" by (rule length_fs_block [OF ok])
  have t: "take (unat (fs_bs s)) ?bm = set_bit_at ?B (by * 8 + k)"
    using assms(3,4) l by (simp add: set_bit_at_def list_update_append nth_append)
  obtain r0 where w: "write_fsb b ?bm s = Some (r0, s')" "r = map_sum (\<lambda>e. e) (\<lambda>_. Some x) r0"
    using m by (auto simp: mark_bit_def then_fs_Some)
  note i = write_fsb_inv [OF ok w(1), unfolded t]
  show ?thesis using i w(2) by (cases r0) auto
qed

lemma alloc_bits_inv:
  assumes "fs_ok D ok s" "alloc_bits want grp b (fs_block store s b @ pad) by bits s = Some (r, s')" "set bits \<subseteq> {..<8}"
    "by < unat (fs_bs s)" "by * 8 + 8 \<le> unat (units s want)"
  shows "fs_ok D ok s' \<and> scan_result store s want grp b r s'"
  using assms
proof (induction bits arbitrary: s)
  case Nil
  then show ?case by auto
next
  case (Cons k bits)
  let ?B = "fs_block store s b" and ?idx = "by * 8 + k"
  have k: "k < 8" using Cons.prems(3) by simp
  have lb: "length ?B = unat (fs_bs s)" by (rule length_fs_block [OF Cons.prems(1)])
  have test: "(?B @ pad) ! by AND push_bit k 1 \<noteq> 0 \<longleftrightarrow> bit_at ?B ?idx"
    using Cons.prems(4) lb k and_exp_eq_0_iff_not_bit [of "?B ! by" k] by (simp add: bit_at_def nth_append push_bit_eq_mult)
  have iu: "?idx < unat (units s want)" using Cons.prems(5) k by linarith
  then have io: "\<not> (of_nat ?idx :: u32) \<ge> units s want"
    using unat_bound [of "units s want"] unat_of_nat_bounded [of ?idx, where ?'a = 32] by (simp add: word_le_nat_alt del: of_nat_add of_nat_mult)
  have u: "(if want then fs_ipg s else fs_bpg s) = units s want" by (simp add: units_def)
  have n: "ucast grp * ucast (fs_ipg s) + of_nat ?idx + 1 = unit_number s True grp ?idx"
    "ucast (fs_first_data_block s) + ucast grp * ucast (fs_bpg s) + of_nat ?idx = unit_number s False grp ?idx" by (simp_all add: unit_number_def)
  note body = Cons.prems(2) [unfolded alloc_bits.simps Let_def u n test]
  note IH = Cons.IH [OF Cons.prems(1) _ _ Cons.prems(4,5)]
  have took: "took_bit store s want grp b ?idx x s'" if "\<not> bit_at ?B ?idx" "x = unit_number s want grp ?idx" "fs_wrote store s b (set_bit_at ?B ?idx) s'"
      "want \<or> x < fs_blocks_total s \<and> \<not> holds_metadata store s grp x" for x s'
    using that iu by (auto simp: took_bit_def)
  consider (skip) "alloc_bits want grp b (?B @ pad) by bits s = Some (r, s')"
    | (inode) "want" "\<not> bit_at ?B ?idx" "mark_bit b (?B @ pad) by k (unit_number s True grp ?idx) s = Some (r, s')"
    | (data) "\<not> want" "\<not> bit_at ?B ?idx" "unit_number s False grp ?idx < fs_blocks_total s"
      "then_fs (block_reserved grp (unit_number s False grp ?idx)) (\<lambda>r. if r then alloc_bits want grp b (?B @ pad) by bits
         else mark_bit b (?B @ pad) by k (unit_number s False grp ?idx)) s = Some (r, s')"
    using body io by (auto simp: not_le split: if_splits)
  then show ?case
  proof cases
    case skip
    then show ?thesis using IH Cons.prems(3) by simp
  next
    case inode
    then show ?thesis using mark_bit_inv [OF Cons.prems(1) inode(3) Cons.prems(4) k] took [of _ s'] by auto
  next
    case data
    then obtain res s1 where res: "block_reserved grp (unit_number s False grp ?idx) s = Some (Inr res, s1)"
      "(if res then alloc_bits want grp b (?B @ pad) by bits else mark_bit b (?B @ pad) by k (unit_number s False grp ?idx)) s1 = Some (r, s')"
      using block_reserved_inv(4) [OF Cons.prems(1)] by (fastforce simp: then_fs_Some)
    note i = block_reserved_inv [OF Cons.prems(1) res(1)]
    have eq: "?B = fs_block store s1 b" "fs_bs s1 = fs_bs s" "units s1 want = units s want"
      using fs_same_block [OF i(2)] fs_same_fields [OF i(2)] by (simp_all add: units_def)
    show ?thesis
    proof (cases res)
      case True
      then have "alloc_bits want grp b (fs_block store s1 b @ pad) by bits s1 = Some (r, s')" using res(2) eq(1) by simp
      from Cons.IH [OF i(1) this] Cons.prems(3-5) eq(2,3) show ?thesis using scan_result_same [OF i(2)] by auto
    next
      case False
      then have m: "mark_bit b (fs_block store s1 b @ pad) by k (unit_number s False grp ?idx) s1 = Some (r, s')" using res(2) eq(1) by simp
      have "by < unat (fs_bs s1)" using Cons.prems(4) eq(2) by simp
      from mark_bit_inv [OF i(1) m this k] show ?thesis
        using fs_same_trans [OF i(2)] fs_same_wrote [OF i(2)] i(3) False data(1-3) took [of _ s'] eq(1) by auto
    qed
  qed
qed

lemma alloc_bytes_inv:
  assumes "fs_ok D ok s" "alloc_bytes want grp b (fs_block store s b @ pad) bys s = Some (r, s')" "set bys \<subseteq> {..<unat (units s want) div 8}"
    "unat (units s want) \<le> 8 * unat (fs_bs s)"
  shows "fs_ok D ok s' \<and> scan_result store s want grp b r s'"
  using assms
proof (induction bys arbitrary: s)
  case (Cons y bys)
  let ?B = "fs_block store s b"
  have y: "y < unat (fs_bs s)" "y * 8 + 8 \<le> unat (units s want)" "set [0..<8] \<subseteq> {..<8 :: nat}" using Cons.prems(3,4) by auto
  note inv = alloc_bits_inv [OF Cons.prems(1) _ y(3,1,2)]
  consider (skip) "alloc_bytes want grp b (?B @ pad) bys s = Some (r, s')"
    | (err) e where "alloc_bits want grp b (?B @ pad) y [0..<8] s = Some (Inl e, s')" "r = Inl e"
    | (got) x where "alloc_bits want grp b (?B @ pad) y [0..<8] s = Some (Inr (Some x), s')" "r = Inr (Some x)"
    | (more) s1 where "alloc_bits want grp b (?B @ pad) y [0..<8] s = Some (Inr None, s1)" "alloc_bytes want grp b (?B @ pad) bys s1 = Some (r, s')"
    using Cons.prems(2) by (auto simp: then_fs_case_Some split: if_splits)
  then show ?case
  proof cases
    case skip
    then show ?thesis using Cons.IH [OF Cons.prems(1)] Cons.prems(3,4) by simp
  next
    case (more s1)
    from inv [OF more(1)] have i: "fs_ok D ok s1" "fs_same store s s1" by auto
    have eq: "?B = fs_block store s1 b" "fs_bs s1 = fs_bs s" "units s1 want = units s want"
      using fs_same_block [OF i(2)] fs_same_fields [OF i(2)] by (simp_all add: units_def)
    from Cons.IH [OF i(1) more(2) [unfolded eq(1)]] Cons.prems(3,4) eq(2,3) show ?thesis using scan_result_same [OF i(2)] by auto
  qed (use inv in blast)+
qed auto

lemma alloc_groups_inv:
  assumes "fs_ok D ok s" "alloc_groups want gs s = Some (Inr x, s')" "unat (units s want) \<le> 8 * unat (fs_bs s)"
  shows "fs_ok D ok s' \<and> (\<exists>grp b idx. grp < fs_num_groups s \<and> bitmap_at store s want grp = Some b \<and> took_bit store s want grp b idx x s')"
  using assms
proof (induction gs arbitrary: s)
  case (Cons g gs)
  have u: "(if want then fs_ipg s else fs_bpg s) = units s want" by (simp add: units_def)
  from Cons.prems(2) obtain b s1 bm s2 r s3 where e: "read_bitmap (of_nat g) want s = Some (Inr b, s1)" "read_fsb b zero_block s1 = Some (Inr bm, s2)"
    "alloc_bytes want (of_nat g) b bm [0..<unat (units s want div 8)] s2 = Some (Inr r, s3)"
    "(case r of Some x \<Rightarrow> ok_fs x | None \<Rightarrow> alloc_groups want gs) s3 = Some (Inr x, s')"
    by (auto simp: then_fs_Inr Let_def u)
  note i1 = read_bitmap_inv [OF Cons.prems(1) e(1)]
  note i2 = read_fsb_inv [OF i1(1) e(2)]
  have s2: "fs_same store s s2" using fs_same_trans [OF i1(2) i2(2)] .
  have eq: "fs_bs s2 = fs_bs s" "units s2 want = units s want" using fs_same_fields [OF s2] by (simp_all add: units_def)
  have bm: "bm = fs_block store s2 b @ drop (unat (fs_bs s1)) zero_block" using i2(3) fs_same_block [OF i2(2)] by simp
  have "unat (units s want div 8) = unat (units s want) div 8" by (simp add: unat_div)
  with alloc_bytes_inv [OF i2(1) e(3) [unfolded bm]] Cons.prems(3) eq
  have i3: "fs_ok D ok s3" "scan_result store s2 want (of_nat g) b (Inr r) s3" by (auto simp: atLeast0LessThan)
  show ?case
  proof (cases r)
    case None
    then have s3: "fs_same store s s3" using i3(2) fs_same_trans [OF s2] by simp
    have "units s3 want = units s want" "fs_bs s3 = fs_bs s" "fs_num_groups s3 = fs_num_groups s"
      using fs_same_fields [OF s3] by (simp_all add: units_def)
    then show ?thesis using Cons.IH [OF i3(1)] e(4) None Cons.prems(3) took_bit_same [OF s3] gdesc_same(2) [OF s3] by fastforce
  next
    case (Some y)
    then obtain idx where "took_bit store s2 want (of_nat g) b idx x s'" using i3(2) e(4) by auto
    from took_bit_same [OF s2 this] show ?thesis using Some e(4) i1(3) i3(1) by auto
  qed
qed simp

lemma alloc_bit_inv:
  assumes "fs_ok D ok s" "alloc_bit want s = Some (Inr x, s')" "unat (units s want) \<le> 8 * unat (fs_bs s)"
  shows "fs_ok D ok s'" "\<exists>grp b idx. grp < fs_num_groups s \<and> bitmap_at store s want grp = Some b \<and> took_bit store s want grp b idx x s'"
  using alloc_groups_inv [OF assms(1) _ assms(3)] assms(2) by (auto simp: alloc_bit_def)

text \<open>Two allocations in a row: the bit the first one set is read by the second, so it takes another one.\<close>

lemma alloc_bit_twice:
  assumes ok: "fs_ok D ok s" and fit: "unat (units s want) \<le> 8 * unat (fs_bs s)"
    and a: "alloc_bit want s = Some (Inr x, s')" "alloc_bit want s' = Some (Inr y, s'')"
    and apart: "\<And>g h b off. bitmap_at store s want g = Some b \<Longrightarrow> group_place s h \<noteq> Some (b, off)"
  shows "x \<noteq> y"
proof
  assume xy: "x = y"
  from alloc_bit_inv [OF ok a(1) fit] obtain g b i where i: "g < fs_num_groups s" "bitmap_at store s want g = Some b"
    "took_bit store s want g b i x s'" and ok': "fs_ok D ok s'" by blast
  then obtain d where d: "s' = s\<lparr>fs_dev := d\<rparr>" by (auto simp: took_bit_def fs_wrote_def)
  have fit': "unat (units s' want) \<le> 8 * unat (fs_bs s')" using fit d by simp
  from alloc_bit_inv(2) [OF ok' a(2) fit'] obtain h c j where j: "bitmap_at store s' want h = Some c" "took_bit store s' want h c j y s''" by blast
  have "unit_number s want g i = unit_number s want h j" "i < unat (units s want)" "j < unat (units s want)"
    using i(3) j(2) xy d by (auto simp: took_bit_def)
  then have gh: "g = h" "i = j" using unit_number_inj by blast+
  have "gdesc store s' h = gdesc store s h"
    using i(3) apart [OF i(2), of h] unfolding gdesc_def d by (auto simp: took_bit_def fs_wrote_def d split: Option.bind_split)
  then have "c = b" using j(1) i(2) gh d by (auto simp: bitmap_at_def split: if_splits)
  moreover have "i div 8 < length (fs_block store s b)" using i(3) fit by (auto simp: took_bit_def length_fs_block [OF ok])
  ultimately show False using i(3) j(2) gh set_bit_at_bits(2) by (auto simp: took_bit_def fs_wrote_def)
qed

end

context volume
begin

lemma fsb_lba_total:
  assumes "fs_wf s" "unat b * spb s + spb s \<le> count"
  shows "fsb_lba s b = Some (of_nat (unat b * spb s))" "unat b * spb s < 2 ^ 64"
proof -
  have bs: "unat (fs_bs s) = 512 * spb s" using bs_spb [OF assms(1)] by simp
  have c: "unat b * spb s < 2 ^ 55" using assms(2) count_bound by linarith
  then show "unat b * spb s < 2 ^ 64" by simp
  have "unat b * unat (fs_bs s) < 2 ^ 64" using c unfolding bs by (simp add: mult.commute)
  then have m: "unat (b * ucast (fs_bs s)) = unat b * unat (fs_bs s)" by (simp add: unat_mult_bounded)
  have "unat (b * ucast (fs_bs s) div 512) = unat (of_nat (unat b * spb s) :: u64)"
    using c unfolding unat_div m bs by (simp add: unat_of_nat_bounded del: of_nat_mult)
  then have "b * ucast (fs_bs s) div 512 = of_nat (unat b * spb s)" by (simp only: word_unat_eq_iff)
  then show "fsb_lba s b = Some (of_nat (unat b * spb s))"
    using \<open>unat b * unat (fs_bs s) < 2 ^ 64\<close> by (simp add: fsb_lba_def cmul_def)
qed

lemma read_fsb_total:
  assumes "fs_ok D ok s" "unat b * spb s + spb s \<le> count" "unat (fs_bs s) \<le> length buf"
  shows "\<exists>s'. read_fsb b buf s = Some (Inr (fs_block store s b @ drop (unat (fs_bs s)) buf), s') \<and> fs_ok D ok s' \<and> fs_same store s s'"
proof -
  have wf: "fs_wf s" "ok (fs_dev s)" "fs_ops s = D" using assms(1) by (auto simp: fs_ok_def)
  have "length (take (unat (fs_bs s)) buf) = 512 * spb s" using assms(3) bs_spb [OF wf(1)] by simp
  from read_ok [OF wf(2) this, of "unat b * spb s"] bs_spb [OF wf(1)] assms(2) obtain d where
    "read_blocks D (of_nat (unat b * spb s)) (take (unat (fs_bs s)) buf) (fs_dev s) = Some (Inr (fs_block store s b), d)"
    "ok d" "store d = store (fs_dev s)" by (auto simp: fs_block_def)
  then show ?thesis using fsb_lba_total [OF wf(1) assms(2)] assms(3) wf
    by (intro exI [of _ "s\<lparr>fs_dev := d\<rparr>"]) (auto simp: read_fsb_def rd_def fs_ok_def fs_same_def)
qed

lemma write_fsb_total:
  assumes "fs_ok D ok s" "unat b * spb s + spb s \<le> count" "unat (fs_bs s) \<le> length buf"
  shows "\<exists>s'. write_fsb b buf s = Some (Inr (), s') \<and> fs_ok D ok s' \<and> fs_wrote store s b (take (unat (fs_bs s)) buf) s'"
proof -
  have wf: "fs_wf s" "ok (fs_dev s)" "fs_ops s = D" using assms(1) by (auto simp: fs_ok_def)
  have l: "length (take (unat (fs_bs s)) buf) = 512 * spb s" using assms(3) bs_spb [OF wf(1)] by simp
  from write_ok [OF wf(2) this, of "unat b * spb s"] bs_spb [OF wf(1)] assms(2) obtain d where
    d: "write_blocks D (of_nat (unat b * spb s)) (take (unat (fs_bs s)) buf) (fs_dev s) = Some (Inr (), d)"
    "ok d" "store d = store_sectors (unat b * spb s) (take (unat (fs_bs s)) buf) (store (fs_dev s))" by auto
  have "fs_wrote store s b (take (unat (fs_bs s)) buf) (s\<lparr>fs_dev := d\<rparr>)" by (rule fs_wrote_store [OF l d(3)])
  then show ?thesis using fsb_lba_total [OF wf(1) assms(2)] assms(3) wf d
    by (intro exI [of _ "s\<lparr>fs_dev := d\<rparr>"]) (auto simp: write_fsb_def rd_def fs_ok_def)
qed

end

section \<open>Mounting\<close>


lemma guard_Some: "(if c then Some (Inl e) else m) = Some (Inr x) \<longleftrightarrow> \<not> c \<and> m = Some (Inr x)" by auto

text \<open>The checks on the sizes, as words.\<close>

lemma mounted_sizes:
  fixes isz dsz :: u16
  assumes "\<not> (if isz < of_nat GOOD_OLD_INODE_SIZE then of_nat GOOD_OLD_INODE_SIZE else isz) > of_nat MAX_INODE_SIZE"
    "\<not> ((if dsz = 0 then 32 else dsz) < 32 \<or> (b \<and> (if dsz = 0 then 32 else dsz) < 64))"
  shows "128 \<le> (if isz < of_nat GOOD_OLD_INODE_SIZE then of_nat GOOD_OLD_INODE_SIZE else isz)"
    "(if isz < of_nat GOOD_OLD_INODE_SIZE then of_nat GOOD_OLD_INODE_SIZE else isz) \<le> 256"
    "32 \<le> (if dsz = 0 then 32 else dsz)" "b \<longrightarrow> 64 \<le> (if dsz = 0 then 32 else dsz)"
  using assms by (auto simp: GOOD_OLD_INODE_SIZE_def MAX_INODE_SIZE_def not_less split: if_splits)

lemma mount_super_wf:
  assumes "mount_super D d bsz buf = Some (Inr s)" "bsz \<in> {1024, 2048, 4096}"
  shows "fs_wf s \<and> fs_ops s = D \<and> fs_dev s = d \<and> fs_bs s = bsz"
  using assms(1) unfolding mount_super_def Let_def bind_eq_Some guard_Some option.inject sum.inject
  apply (elim exE conjE)
  apply hypsubst
  apply (simp only: fs_wf_def Ext4.simps de_Morgan_disj)
  using mounted_sizes assms(2) apply blast
  done

context volume
begin

lemma mount_inv:
  assumes "ok d" "mount D d = Some (r, d')"
  shows "ok d' \<and> store d' = store d \<and> (\<forall>s. r = Inr s \<longrightarrow> fs_ok D ok s \<and> fs_dev s = d')"
proof -
  obtain r1 d1 where r1: "read_blocks D 2 (replicate 1024 0) d = Some (r1, d1)"
    using assms(2) sector_size [of d] by (auto simp: mount_def)
  note i1 = read_inv [OF assms(1) r1]
  show ?thesis
  proof (cases r1)
    case (Inl e)
    then show ?thesis using assms(2) r1 i1 sector_size [of d] by (auto simp: mount_def)
  next
    case (Inr data)
    let ?buf = "data @ drop 1024 zero_block"
    obtain magic log cluster where f: "le16 ?buf SB_MAGIC = Some magic" "le32 ?buf SB_LOG_BLOCK_SIZE = Some log" "le32 ?buf SB_LOG_CLUSTER_SIZE = Some cluster"
      using assms(2) r1 Inr sector_size [of d] by (auto simp: mount_def Let_def)
    let ?bsz = "push_bit (unat log) 1024 :: u32"
    have sizes: "?bsz \<in> {1024, 2048, 4096}" if "\<not> log > 2"
    proof -
      have "unat log \<in> {0, 1, 2}" using that by (auto simp: word_less_nat_alt)
      then show ?thesis by auto
    qed
    have eq: "(if magic \<noteq> EXT4_MAGIC then Some (Inl FsCorrupt, d1) else if log > 2 \<or> cluster \<noteq> log then Some (Inl FsUnsupported, d1)
        else if ?bsz = 1024 then do { r \<leftarrow> mount_super D d1 ?bsz ?buf; Some (r, d1) }
        else do { (r, d) \<leftarrow> read_blocks D 0 (take (unat ?bsz) ?buf) d1; case r of Inl e \<Rightarrow> Some (Inl (map_block_err e), d)
          | Inr data \<Rightarrow> do { magic \<leftarrow> le16 (data @ drop (unat ?bsz) ?buf) SB_MAGIC; if magic \<noteq> EXT4_MAGIC then Some (Inl FsCorrupt, d)
              else do { r \<leftarrow> mount_super D d ?bsz (data @ drop (unat ?bsz) ?buf); Some (r, d) } } }) = Some (r, d')"
      using assms(2) r1 Inr f sector_size [of d] by (simp only: mount_def Let_def bind.bind_lunit prod.case sum.case if_False not_True_eq_False simp_thms)
    show ?thesis
    proof (cases "magic = EXT4_MAGIC \<and> \<not> log > 2 \<and> cluster = log")
      case True
      show ?thesis
      proof (cases "?bsz = 1024")
        case small: True
        then have "mount_super D d1 ?bsz ?buf = Some r" "d' = d1" using eq True by auto
        then show ?thesis using i1 True by (auto simp: fs_ok_def dest: mount_super_wf [OF _ sizes])
      next
        case False
        then obtain r2 d2 where r2: "read_blocks D 0 (take (unat ?bsz) ?buf) d1 = Some (r2, d2)" using eq True by auto
        then have i2: "ok d2" "store d2 = store d" using read_inv [OF _ r2] i1 by auto
        show ?thesis
        proof (cases r2)
          case (Inl e)
          then show ?thesis using eq True False r2 i2 by auto
        next
          case (Inr x)
          then have "d' = d2" "r = Inl FsCorrupt \<or> mount_super D d2 ?bsz (x @ drop (unat ?bsz) ?buf) = Some r" using eq True False r2 by (auto split: if_splits)
          then show ?thesis using i2 True by (auto simp: fs_ok_def dest: mount_super_wf [OF _ sizes])
        qed
      qed
    next
      case False
      then have "\<exists>e. r = Inl e" "d' = d1" using eq by (auto split: if_splits)
      then show ?thesis using i1 by auto
    qed
  qed
qed

end

end
