(* ===== verification/Ext4_Tree.thy ===== *)
theory Ext4_Tree
  imports Ext4_Disk
begin

text \<open>
  The extent tree of a file (\<^verbatim>\<open>src/ext4.rs\<close>, \<^verbatim>\<open>map_block\<close> to \<^verbatim>\<open>node_sum\<close>): the map from logical to physical blocks.

  The root of the tree is in the inode, in 60 bytes at \<open>INO_IBLOCK\<close>; other nodes are blocks.  The walk down takes the depth from
  each node it reads, so on a damaged tree it may go round in a circle: it is a \<open>partial_function\<close>, and not returning is \<open>None\<close>.
\<close>

section \<open>Node geometry and checksums\<close>

definition leaf_max :: "'d Ext4 \<Rightarrow> u16" where
  "leaf_max s = of_nat ((unat (fs_bs s) - 12) div 12)"

definition dir_limit :: "'d Ext4 \<Rightarrow> nat" where
  "dir_limit s = (if fs_meta_csum s then unat (fs_bs s) - 12 else unat (fs_bs s))"

definition extent_block_csum :: "'d Ext4 \<Rightarrow> u32 \<Rightarrow> u32 \<Rightarrow> u8 list \<Rightarrow> u16 \<Rightarrow> u8 list option" where
  "extent_block_csum s ino gen blk mx =
     (if \<not> fs_meta_csum s then Some blk
      else let tail = 12 + 12 * unat mx;
               seed = crc32c (fs_csum_seed s) (to_le_bytes 4 ino);
               seed = crc32c seed (to_le_bytes 4 gen)
           in do { covered \<leftarrow> rd blk 0 tail; put_le32 blk tail (crc32c seed covered) })"

section \<open>Looking up a block\<close>

text \<open>The first extent that covers \<open>lb\<close> among the given entries; the outer \<open>None\<close> is the overflow of its end.\<close>

fun find_extent :: "u8 list \<Rightarrow> nat \<Rightarrow> u32 \<Rightarrow> nat list \<Rightarrow> u64 option option" where
  "find_extent src base lb [] = Some None"
| "find_extent src base lb (i # is) = (case rd_extent src base i of
      None \<Rightarrow> find_extent src base lb is
    | Some (eb, elen, pb) \<Rightarrow>
        if lb \<ge> eb then do {
          e \<leftarrow> cadd eb (ucast elen);
          if lb < e then Some (Some (pb + ucast (lb - eb))) else find_extent src base lb is
        } else find_extent src base lb is)"

text \<open>The child whose range covers \<open>lb\<close>: from its own first block to the next entry's.\<close>

fun choose_index :: "u8 list \<Rightarrow> nat \<Rightarrow> u32 \<Rightarrow> nat \<Rightarrow> nat list \<Rightarrow> u64 option" where
  "choose_index src base lb entries [] = None"
| "choose_index src base lb entries (i # is) = (case rd_index src base i of
      None \<Rightarrow> choose_index src base lb entries is
    | Some (eb, child) \<Rightarrow>
        let upper = (if i + 1 < entries then (case rd_index src base (i + 1) of Some (e, _) \<Rightarrow> e | None \<Rightarrow> 0xFFFFFFFF) else 0xFFFFFFFF)
        in if lb \<ge> eb \<and> lb < upper then Some child else choose_index src base lb entries is)"

text \<open>The walk down; \<open>block = 0\<close> stands for the root in the inode, as in the source.\<close>

partial_function (option) map_walk ::
  "Inode \<Rightarrow> u32 \<Rightarrow> u16 \<Rightarrow> u16 \<Rightarrow> u64 \<Rightarrow> nat \<Rightarrow> u8 list \<Rightarrow> 'd Ext4 \<Rightarrow> ((FsError + u64 option) \<times> 'd Ext4) option" where
  "map_walk n lb entries depth block base cur_buf s =
     (let src = (if block = 0 then i_raw n else cur_buf) in
      if depth = 0 then do { r \<leftarrow> find_extent src base lb [0..<unat entries]; Some (Inr r, s) }
      else case choose_index src base lb (unat entries) [0..<unat entries] of
        None \<Rightarrow> Some (Inr None, s)
      | Some child \<Rightarrow> do {
          (r, s) \<leftarrow> read_fsb child cur_buf s;
          case r of
            Inl e \<Rightarrow> Some (Inl e, s)
          | Inr buf \<Rightarrow> (case rd_hdr buf 0 of
                None \<Rightarrow> Some (Inr None, s)
              | Some (e, m, d) \<Rightarrow> map_walk n lb e d child 0 buf s)
        })"

definition map_block :: "Inode \<Rightarrow> u32 \<Rightarrow> ('d, u64 option) fs" where
  "map_block n lb s = (case rd_hdr (i_raw n) INO_IBLOCK of
      None \<Rightarrow> Some (Inr None, s)
    | Some (entries, m, depth) \<Rightarrow> map_walk n lb entries depth 0 INO_IBLOCK zero_block s)"

section \<open>Adding a mapping\<close>

text \<open>Extending the last extent of a node when the new block continues it; the inner \<open>None\<close> when it does not.\<close>

definition extend_last :: "u8 list \<Rightarrow> nat \<Rightarrow> u16 \<Rightarrow> u32 \<Rightarrow> u64 \<Rightarrow> u8 list option option" where
  "extend_last b base entries lb pblock =
     (if entries = 0 then Some None
      else case rd_extent b base (unat entries - 1) of
        None \<Rightarrow> Some None
      | Some (eb, elen, pb) \<Rightarrow> do {
          e \<leftarrow> cadd eb (ucast elen);
          if e = lb \<and> pb + ucast elen = pblock
          then map_option Some (wr_extent b base (unat entries - 1) eb (elen + 1) pb)
          else Some None
        })"

definition append_extent :: "u8 list \<Rightarrow> nat \<Rightarrow> u16 \<Rightarrow> u16 \<Rightarrow> u32 \<Rightarrow> u64 \<Rightarrow> u8 list option" where
  "append_extent b base entries mx lb pblock = do {
     b \<leftarrow> wr_extent b base (unat entries) lb 1 pblock;
     wr_hdr b base (entries + 1) mx 0
   }"

text \<open>Copying the readable extents of a node to the start of another block, entry \<open>off\<close> becoming its first.\<close>

fun copy_extents :: "u8 list \<Rightarrow> nat \<Rightarrow> nat \<Rightarrow> nat list \<Rightarrow> u8 list \<Rightarrow> u8 list option" where
  "copy_extents src base off [] dst = Some dst"
| "copy_extents src base off (i # is) dst = (case rd_extent src base i of
      None \<Rightarrow> copy_extents src base off is dst
    | Some (eb, elen, pb) \<Rightarrow> do { dst \<leftarrow> wr_extent dst 0 (i - off) eb elen pb; copy_extents src base off is dst })"

text \<open>The split of a full leaf: the new leaf's number, with both halves on disk; the index entry is added when the root has room.\<close>

definition split_leaf :: "Inode \<Rightarrow> u32 \<Rightarrow> u16 \<Rightarrow> u16 \<Rightarrow> u64 \<Rightarrow> u8 list \<Rightarrow> u16 \<Rightarrow> u16 \<Rightarrow> ('d, bool \<times> Inode) fs" where
  "split_leaf n gen entries rmax leaf blk le lmax =
     (let half = le div 2 in
      if half = 0 then err_fs FsNoSpace
      else then_fs alloc_block (\<lambda>new_leaf.
        then_fs (need (copy_extents blk 0 (unat half) [unat half..<unat le] zero_block)) (\<lambda>nb.
        let first_lb = (case rd_extent blk 0 (unat half) of None \<Rightarrow> 0 | Some (eb, elen, pb) \<Rightarrow> eb) in
        then_fs (need (wr_hdr blk 0 half lmax 0)) (\<lambda>blk.
        then_fs (need (wr_hdr nb 0 (le - half) lmax 0)) (\<lambda>nb. with_fs (\<lambda>s.
        then_fs (need (extent_block_csum s (i_ino n) gen blk lmax)) (\<lambda>blk.
        then_fs (need (extent_block_csum s (i_ino n) gen nb lmax)) (\<lambda>nb.
        then_fs (write_fsb leaf blk) (\<lambda>_.
        then_fs (write_fsb new_leaf nb) (\<lambda>_.
        if entries \<ge> rmax then err_fs FsNoSpace
        else then_fs (need (do {
               raw \<leftarrow> wr_index (i_raw n) INO_IBLOCK (unat entries) first_lb new_leaf;
               wr_hdr raw INO_IBLOCK (entries + 1) rmax 1
             })) (\<lambda>raw. ok_fs (False, n\<lparr>i_raw := raw\<rparr>))))))))))))"

definition place_in_rightmost_leaf :: "Inode \<Rightarrow> u32 \<Rightarrow> u64 \<Rightarrow> ('d, bool \<times> Inode) fs" where
  "place_in_rightmost_leaf n lb pblock = (case rd_hdr (i_raw n) INO_IBLOCK of
      None \<Rightarrow> err_fs FsCorrupt
    | Some (entries, rmax, depth) \<Rightarrow> then_fs (need (csub entries 1)) (\<lambda>lst.
        case rd_index (i_raw n) INO_IBLOCK (unat lst) of
          None \<Rightarrow> err_fs FsCorrupt
        | Some (_, leaf) \<Rightarrow>
            then_fs (need (le32 (i_raw n) INO_GENERATION)) (\<lambda>gen.
            then_fs (read_fsb leaf zero_block) (\<lambda>blk. case rd_hdr blk 0 of
                None \<Rightarrow> err_fs FsCorrupt
              | Some (le, lmax, _) \<Rightarrow>
                  then_fs (need (extend_last blk 0 le lb pblock)) (\<lambda>ext. with_fs (\<lambda>s. case ext of
                      Some blk \<Rightarrow>
                        then_fs (need (extent_block_csum s (i_ino n) gen blk lmax)) (\<lambda>blk.
                        then_fs (write_fsb leaf blk) (\<lambda>_. ok_fs (True, n)))
                    | None \<Rightarrow>
                        if le < lmax then
                          then_fs (need (append_extent blk 0 le lmax lb pblock)) (\<lambda>blk.
                          then_fs (need (extent_block_csum s (i_ino n) gen blk lmax)) (\<lambda>blk.
                          then_fs (write_fsb leaf blk) (\<lambda>_. ok_fs (True, n))))
                        else split_leaf n gen entries rmax leaf blk le lmax))))))"

text \<open>The inode-resident leaf moves to a block of its own and the root becomes an index.\<close>

definition deepen :: "Inode \<Rightarrow> u32 \<Rightarrow> u16 \<Rightarrow> u16 \<Rightarrow> ('d, Inode) fs" where
  "deepen n gen entries mx = then_fs alloc_block (\<lambda>leaf. with_fs (\<lambda>s.
     then_fs (need (copy_extents (i_raw n) INO_IBLOCK 0 [0..<unat entries] zero_block)) (\<lambda>blk.
     then_fs (need (wr_hdr blk 0 entries (leaf_max s) 0)) (\<lambda>blk.
     then_fs (need (extent_block_csum s (i_ino n) gen blk (leaf_max s))) (\<lambda>blk.
     then_fs (write_fsb leaf blk) (\<lambda>_.
     then_fs (need (do {
       raw \<leftarrow> wr_hdr (i_raw n) INO_IBLOCK 1 mx 1;
       wr_index raw INO_IBLOCK 0 0 leaf
     })) (\<lambda>raw. ok_fs (n\<lparr>i_raw := raw\<rparr>))))))))"

text \<open>The two attempts at the rightmost leaf: the second finds room when the first one split it.\<close>

definition place_twice :: "Inode \<Rightarrow> u32 \<Rightarrow> u64 \<Rightarrow> ('d, Inode) fs" where
  "place_twice n lb pblock = then_fs (place_in_rightmost_leaf n lb pblock) (\<lambda>(placed, n).
     if placed then ok_fs n
     else then_fs (place_in_rightmost_leaf n lb pblock) (\<lambda>(placed, n).
       if placed then ok_fs n else err_fs FsNoSpace))"

definition insert_extent :: "Inode \<Rightarrow> u32 \<Rightarrow> u64 \<Rightarrow> ('d, Inode) fs" where
  "insert_extent n lb pblock =
     then_fs (case rd_hdr (i_raw n) INO_IBLOCK of
                Some (e, m, d) \<Rightarrow> ok_fs (e, m, d, n)
              | None \<Rightarrow> then_fs (need (wr_hdr (i_raw n) INO_IBLOCK 0 4 0)) (\<lambda>raw. ok_fs (0, 4, 0, n\<lparr>i_raw := raw\<rparr>)))
       (\<lambda>(entries, mx, depth, n).
     then_fs (need (le32 (i_raw n) INO_GENERATION)) (\<lambda>gen.
     if depth \<noteq> 0 then place_twice n lb pblock
     else then_fs (need (extend_last (i_raw n) INO_IBLOCK entries lb pblock)) (\<lambda>ext. case ext of
         Some raw \<Rightarrow> ok_fs (n\<lparr>i_raw := raw\<rparr>)
       | None \<Rightarrow>
           if entries < mx then
             then_fs (need (append_extent (i_raw n) INO_IBLOCK entries mx lb pblock)) (\<lambda>raw. ok_fs (n\<lparr>i_raw := raw\<rparr>))
           else then_fs (deepen n gen entries mx) (\<lambda>n. place_twice n lb pblock))))"

section \<open>Counting the blocks of a file\<close>

fun leaf_sum :: "u8 list \<Rightarrow> nat \<Rightarrow> nat list \<Rightarrow> u64 \<Rightarrow> u64 option" where
  "leaf_sum node base [] tot = Some tot"
| "leaf_sum node base (i # is) tot = (case rd_extent node base i of
      None \<Rightarrow> leaf_sum node base is tot
    | Some (_, elen, _) \<Rightarrow> do { tot \<leftarrow> cadd tot (ucast elen); leaf_sum node base is tot })"

fun children_sum :: "(u8 list \<Rightarrow> ('d, u64) fs) \<Rightarrow> u8 list \<Rightarrow> nat \<Rightarrow> nat list \<Rightarrow> u64 \<Rightarrow> ('d, u64) fs" where
  "children_sum f node base [] tot = ok_fs tot"
| "children_sum f node base (i # is) tot = (case rd_index node base i of
      None \<Rightarrow> err_fs FsCorrupt
    | Some (_, child) \<Rightarrow>
        then_fs (read_fsb child zero_block) (\<lambda>blk.
        then_fs (f blk) (\<lambda>t.
        then_fs (need (cadd tot t)) (\<lambda>tot. children_sum f node base is tot))))"

primrec node_sum :: "nat \<Rightarrow> u8 list \<Rightarrow> nat \<Rightarrow> ('d, u64) fs" where
  "node_sum 0 node base = (case rd_hdr node base of
      None \<Rightarrow> ok_fs 0
    | Some (entries, _) \<Rightarrow> need (leaf_sum node base [0..<unat entries] 0))"
| "node_sum (Suc depth) node base = (case rd_hdr node base of
      None \<Rightarrow> ok_fs 0
    | Some (entries, _) \<Rightarrow> children_sum (\<lambda>blk. node_sum depth blk 0) node base [0..<unat entries] 0)"

definition recount_blocks :: "Inode \<Rightarrow> ('d, u64) fs" where
  "recount_blocks n = (case rd_hdr (i_raw n) INO_IBLOCK of
      None \<Rightarrow> ok_fs 0
    | Some (_, _, depth) \<Rightarrow> then_fs (node_sum (unat depth) (i_raw n) INO_IBLOCK) (\<lambda>tot.
        with_fs (\<lambda>s. need (cmul tot (ucast (fs_bs s) div 512)))))"

section \<open>The extents of a node\<close>

text \<open>What a leaf says, as a list of extents, and the lookup in it.\<close>

definition node_extents :: "u8 list \<Rightarrow> nat \<Rightarrow> nat list \<Rightarrow> (u32 \<times> u16 \<times> u64) list" where
  "node_extents src base is = List.map_filter (rd_extent src base) is"

fun find_in :: "(u32 \<times> u16 \<times> u64) list \<Rightarrow> u32 \<Rightarrow> u64 option option" where
  "find_in [] lb = Some None"
| "find_in ((eb, elen, pb) # es) lb =
     (if lb \<ge> eb then do { e \<leftarrow> cadd eb (ucast elen); if lb < e then Some (Some (pb + ucast (lb - eb))) else find_in es lb }
      else find_in es lb)"

lemma find_extent_list: "find_extent src base lb is = find_in (node_extents src base is) lb"
  by (induction "is") (auto simp: node_extents_def map_filter_simps split: option.split Option.bind_split)

lemma find_in_append:
  "find_in (es @ fs) lb = Option.bind (find_in es lb) (\<lambda>r. case r of None \<Rightarrow> find_in fs lb | Some x \<Rightarrow> Some (Some x))"
proof (induction es)
  case (Cons e es)
  then show ?case by (cases e) (auto split: Option.bind_split)
qed simp

lemma map_block_leaf:
  assumes "rd_hdr (i_raw n) INO_IBLOCK = Some (entries, mx, 0)"
  shows "map_block n lb s = map_option (\<lambda>r. (Inr r, s)) (find_in (node_extents (i_raw n) INO_IBLOCK [0..<unat entries]) lb)"
  using assms by (auto simp: map_block_def map_walk.simps find_extent_list map_option_case split: Option.bind_split option.split)

lemma node_extents_cong:
  assumes "\<And>i. i \<in> set is \<Longrightarrow> rd b' (base + 12 + 12 * i) 12 = rd b (base + 12 + 12 * i) 12"
  shows "node_extents b' base is = node_extents b base is"
  using assms
proof (induction "is")
  case (Cons i "is")
  from record_cong(1) [OF Cons.prems, of i] Cons show ?case by (simp add: node_extents_def map_filter_simps split: option.split)
qed (simp add: node_extents_def map_filter_simps)

lemma node_extents_snoc: "node_extents b base (is @ [i]) = node_extents b base is @ (case rd_extent b base i of None \<Rightarrow> [] | Some e \<Rightarrow> [e])"
  by (simp add: node_extents_def map_filter_def split: option.split)

lemma append_extent_ok:
  assumes fit: "base + 24 + 12 * unat entries \<le> length b" and e: "entries < mx" and p: "pblock < push_bit 48 1"
  shows "\<exists>b'. append_extent b base entries mx lb pblock = Some b' \<and> length b' = length b \<and> rd_hdr b' base = Some (entries + 1, mx, 0) \<and>
    node_extents b' base [0..<unat (entries + 1)] = node_extents b base [0..<unat entries] @ [(lb, 1, pblock)]"
proof -
  let ?p = "base + 12 + 12 * unat entries"
  obtain c where c: "wr b ?p (extent_bytes lb 1 pblock) = Some c" using fit by (simp add: wr_def)
  then have lc: "length c = length b" by (rule wr_length)
  obtain b' where b': "wr c base (hdr_bytes (entries + 1) mx 0) = Some b'" using fit lc by (simp add: wr_def)
  have lst: "rd b' ?p 12 = Some (extent_bytes lb 1 pblock)" using rd_wr_other [OF b', of ?p 12] rd_wr_same [OF c, of 12] by simp
  have "rd b' (base + 12 + 12 * i) 12 = rd b (base + 12 + 12 * i) 12" if "i < unat entries" for i
    using rd_wr_other [OF b', of "base + 12 + 12 * i" 12] rd_wr_other [OF c, of "base + 12 + 12 * i" 12] that by simp
  then have "node_extents b' base [0..<unat entries] = node_extents b base [0..<unat entries]" by (intro node_extents_cong) simp
  moreover have "unat (entries + 1) = Suc (unat entries)" using e by unat_arith
  moreover have "rd_extent b' base (unat entries) = Some (lb, 1, pblock)" by (rule rd_records(1) [OF _ _ p lst]) simp_all
  moreover have "rd_hdr b' base = Some (entries + 1, mx, 0)" by (rule rd_records(3)) (use rd_wr_same [OF b'] in simp)
  ultimately show ?thesis using b' c lc wr_length [OF b'] by (simp add: append_extent_def wr_records node_extents_snoc)
qed

lemma extend_last_ok:
  assumes ext: "extend_last b base entries lb pblock = Some (Some b')"
    and cap: "\<And>eb elen pb. rd_extent b base (unat entries - 1) = Some (eb, elen, pb) \<Longrightarrow> elen < 0x7FFF"
  shows "\<exists>es eb elen pb. node_extents b base [0..<unat entries] = es @ [(eb, elen, pb)] \<and> cadd eb (ucast elen) = Some lb \<and> pb + ucast elen = pblock \<and>
    elen < 0x7FFF \<and> elen \<noteq> 0 \<and> length b' = length b \<and> rd_hdr b' base = rd_hdr b base \<and> node_extents b' base [0..<unat entries] = es @ [(eb, elen + 1, pb)]"
proof -
  let ?i = "unat entries - 1"
  from ext obtain eb elen pb where e: "entries \<noteq> 0" "rd_extent b base ?i = Some (eb, elen, pb)" "cadd eb (ucast elen) = Some lb"
    "pb + ucast elen = pblock" "wr b (base + 12 + 12 * ?i) (extent_bytes eb (elen + 1) pb) = Some b'"
    by (auto simp: extend_last_def wr_records split: if_splits option.splits)
  have ne: "[0..<unat entries] = [0..<?i] @ [?i]" using e(1) by (metis Suc_pred' unat_gt_0 upt_Suc_append le0)
  have "rd b' (base + 12 + 12 * i) 12 = rd b (base + 12 + 12 * i) 12" if "i < ?i" for i
    by (rule rd_wr_other [OF e(5)]) (use that in simp)
  then have same: "node_extents b' base [0..<?i] = node_extents b base [0..<?i]" by (intro node_extents_cong) simp
  have l: "elen < 0x7FFF" using cap e(2) .
  note pb = rd_extent_bounds [OF e(2)]
  have "unat (elen + 1) = unat elen + 1" using l by (simp add: unat_add_bounded word_less_nat_alt)
  then have "elen + 1 \<noteq> 0" "elen + 1 < 0x8000" using l by (auto simp: word_less_nat_alt word_unat_eq_iff)
  then have "rd_extent b' base ?i = Some (eb, elen + 1, pb)" using rd_wr_same [OF e(5)] pb by (intro rd_records(1)) simp_all
  moreover have "rd_hdr b' base = rd_hdr b base" by (rule rd_hdr_cong) (use rd_wr_other [OF e(5), of base 12] in simp)
  ultimately show ?thesis using e same l pb(1) wr_length [OF e(5)] unfolding ne node_extents_snoc by auto
qed

lemma find_in_last:
  assumes "cadd eb (ucast elen) = Some lb" "lb \<noteq> 0xFFFFFFFF" "elen < 0x7FFF" "elen \<noteq> 0"
  shows "find_in [(eb, elen + 1, pb)] lb = Some (Some (pb + ucast elen))" "find_in [(eb, elen, pb)] lb = Some None"
    and "x \<noteq> lb \<Longrightarrow> find_in [(eb, elen + 1, pb)] x = find_in [(eb, elen, pb)] x"
proof -
  have w: "unat (ucast e :: u32) = unat e" for e :: u16 by simp
  have u: "unat eb + unat elen = unat lb" using cadd_unat [OF assms(1)] w [of elen] by simp
  have "unat lb \<noteq> 2 ^ 32 - 1" using assms(2) word_unat_eq_iff [of lb "0xFFFFFFFF"] by simp
  then have l: "unat lb + 1 < 2 ^ 32" using unat_bound [of lb] by simp
  have s: "unat (elen + 1) = unat elen + 1" using assms(3) by (simp add: unat_add_bounded word_less_nat_alt)
  have l1: "unat (lb + 1) = unat lb + 1" using l by (simp add: unat_add_bounded)
  have "unat eb + unat (ucast (elen + 1) :: u32) = unat (lb + 1)" using u s w [of "elen + 1"] l1 by simp
  then have c: "cadd eb (ucast (elen + 1)) = Some (lb + 1)"
    using l l1 by (simp add: cadd_def word_unat_eq_iff unat_add_bounded)
  have "lb - eb = ucast elen" using assms(1) by (simp add: cadd_Some)
  moreover have "lb \<ge> eb" "lb < lb + 1" using u l1 by (simp_all add: word_le_nat_alt word_less_nat_alt)
  moreover have "ucast (ucast elen :: u32) = (ucast elen :: u64)" by (simp add: word_unat_eq_iff)
  ultimately show "find_in [(eb, elen + 1, pb)] lb = Some (Some (pb + ucast elen))" using c by simp
  show "find_in [(eb, elen, pb)] lb = Some None" using assms(1) by simp
  have "x < lb + 1 \<longleftrightarrow> x < lb" if "x \<noteq> lb" using that l1 by (auto simp: word_less_nat_alt word_unat_eq_iff)
  then show "find_in [(eb, elen + 1, pb)] x = find_in [(eb, elen, pb)] x" if "x \<noteq> lb" using that c assms(1) by simp
qed

lemma find_in_single:
  assumes "lb \<noteq> 0xFFFFFFFF"
  shows "find_in [(lb, 1, pb)] x = Some (if x = lb then Some pb else None)"
proof -
  have "unat lb \<noteq> 2 ^ 32 - 1" using assms word_unat_eq_iff [of lb "0xFFFFFFFF"] by simp
  then have l: "unat lb + 1 < 2 ^ 32" using unat_bound [of lb] by simp
  then have "cadd lb (ucast (1 :: u16)) = Some (lb + 1)" by (simp add: cadd_def)
  moreover have "x \<ge> lb \<and> x < lb + 1 \<longleftrightarrow> x = lb"
    using l by (auto simp: word_less_nat_alt word_le_nat_alt word_unat_eq_iff unat_add_bounded)
  ultimately show ?thesis by auto
qed

section \<open>Walking down a tree\<close>

text \<open>
  A node from which every walk reaches a leaf within \<open>k\<close> blocks: children are on the disk, their headers lead on, and the extents of a leaf end
  below \<open>2\<^sup>3\<^sup>2\<close>.
\<close>

definition node_of :: "('d \<Rightarrow> nat \<Rightarrow> u8 list) \<Rightarrow> 'd Ext4 \<Rightarrow> u64 \<Rightarrow> u8 list" where
  "node_of store s b = fs_block store s b @ drop (unat (fs_bs s)) zero_block"

definition leaf_ok :: "u8 list \<Rightarrow> nat \<Rightarrow> u16 \<Rightarrow> bool" where
  "leaf_ok src base entries \<longleftrightarrow>
     (\<forall>i<unat entries. \<forall>eb elen pb. rd_extent src base i = Some (eb, elen, pb) \<longrightarrow> unat eb + unat elen < 2 ^ 32)"

primrec tree_ok :: "('d \<Rightarrow> nat \<Rightarrow> u8 list) \<Rightarrow> nat \<Rightarrow> 'd Ext4 \<Rightarrow> nat \<Rightarrow> u8 list \<Rightarrow> nat \<Rightarrow> u16 \<Rightarrow> u16 \<Rightarrow> bool" where
  "tree_ok store count s 0 src base entries depth \<longleftrightarrow> depth = 0 \<and> leaf_ok src base entries"
| "tree_ok store count s (Suc k) src base entries depth \<longleftrightarrow> (if depth = 0 then leaf_ok src base entries else
     \<forall>i<unat entries. \<forall>eb child. rd_index src base i = Some (eb, child) \<longrightarrow>
        child \<noteq> 0 \<and> unat child * spb s + spb s \<le> count \<and>
        (\<forall>e m d. rd_hdr (node_of store s child) 0 = Some (e, m, d) \<longrightarrow> tree_ok store count s k (node_of store s child) 0 e d))"

lemma tree_ok_same: "fs_same store s s' \<Longrightarrow> tree_ok store count s' k src base e d = tree_ok store count s k src base e d"
proof (induction k arbitrary: src base e d)
  case (Suc k)
  then have "node_of store s' b = node_of store s b" "spb s' = spb s" for b
    using fs_same_block [OF Suc.prems] by (auto simp: node_of_def fs_same_fields [OF Suc.prems] spb_def)
  then show ?case using Suc by simp
qed simp

lemma find_extent_returns:
  "\<forall>i\<in>set is. \<forall>eb elen pb. rd_extent src base i = Some (eb, elen, pb) \<longrightarrow> unat eb + unat elen < 2 ^ 32 \<Longrightarrow> \<exists>r. find_extent src base lb is = Some r"
proof (induction "is")
  case (Cons i "is")
  then obtain r where r: "find_extent src base lb is = Some r" by auto
  have "cadd eb (ucast elen) = Some (eb + ucast elen)" if "rd_extent src base i = Some (eb, elen, pb)" for eb elen pb
    using Cons.prems that by (simp add: cadd_def)
  then show ?case using r by (auto split: option.split)
qed simp

lemma map_walk_leaf:
  assumes "leaf_ok (if block = 0 then i_raw n else buf) base entries"
  shows "\<exists>r. map_walk n lb entries 0 block base buf s = Some (Inr r, s)"
  using find_extent_returns [of "[0..<unat entries]" "if block = 0 then i_raw n else buf" base lb] assms
  by (subst map_walk.simps) (auto simp: Let_def leaf_ok_def)

lemma choose_index_child:
  "choose_index src base lb n is = Some child \<Longrightarrow> \<exists>i\<in>set is. \<exists>eb. rd_index src base i = Some (eb, child)"
  by (induction "is") (auto simp: Let_def split: option.splits if_splits)

context volume
begin

lemma zero_block_fits: "fs_wf s \<Longrightarrow> unat (fs_bs s) \<le> length zero_block"
  by (auto simp: fs_wf_def zero_block_def MAX_BLOCK_SIZE_def)

lemma read_node:
  assumes "fs_ok D ok s" "unat b * spb s + spb s \<le> count" "length buf = 4096" "drop (unat (fs_bs s)) buf = drop (unat (fs_bs s)) zero_block"
  shows "\<exists>s'. read_fsb b buf s = Some (Inr (node_of store s b), s') \<and> fs_ok D ok s' \<and> fs_same store s s'"
  using read_fsb_total [OF assms(1,2), of buf] assms zero_block_fits [of s] by (auto simp: node_of_def zero_block_def MAX_BLOCK_SIZE_def fs_ok_def)

lemma length_node: "fs_ok D ok s \<Longrightarrow> length (node_of store s b) = 4096" "fs_ok D ok s \<Longrightarrow> drop (unat (fs_bs s)) (node_of store s b) = drop (unat (fs_bs s)) zero_block"
proof -
  assume ok: "fs_ok D ok s"
  have l: "length (fs_block store s b) = unat (fs_bs s)"
    using bs_spb [of s] length_load_sectors [of "store (fs_dev s)"] sector_length [of "fs_dev s"] ok by (simp add: fs_ok_def fs_block_def)
  show "length (node_of store s b) = 4096" "drop (unat (fs_bs s)) (node_of store s b) = drop (unat (fs_bs s)) zero_block"
    using l zero_block_fits [of s] ok by (simp_all add: node_of_def zero_block_def MAX_BLOCK_SIZE_def fs_ok_def)
qed

lemma map_walk_returns:
  assumes "tree_ok store count s k (if block = 0 then i_raw n else buf) base entries depth" "fs_ok D ok s" "length buf = 4096"
    "drop (unat (fs_bs s)) buf = drop (unat (fs_bs s)) zero_block"
  shows "\<exists>r s'. map_walk n lb entries depth block base buf s = Some (Inr r, s') \<and> fs_ok D ok s' \<and> fs_same store s s'"
  using assms
proof (induction k arbitrary: block base entries depth buf s)
  case 0
  then show ?case using map_walk_leaf [of block n buf base entries lb s] by auto
next
  case (Suc k)
  let ?src = "if block = 0 then i_raw n else buf"
  show ?case
  proof (cases "depth = 0")
    case True
    then show ?thesis using map_walk_leaf [of block n buf base entries lb s] Suc.prems(1,2) by auto
  next
    case False
    show ?thesis
    proof (cases "choose_index ?src base lb (unat entries) [0..<unat entries]")
      case None
      then show ?thesis using False Suc.prems(2) by (subst map_walk.simps) (auto simp: Let_def)
    next
      case (Some child)
      from choose_index_child [OF Some] obtain i eb where i: "i < unat entries" "rd_index ?src base i = Some (eb, child)" by auto
      have "\<forall>i<unat entries. \<forall>eb child. rd_index ?src base i = Some (eb, child) \<longrightarrow> child \<noteq> 0 \<and> unat child * spb s + spb s \<le> count \<and>
          (\<forall>e m d. rd_hdr (node_of store s child) 0 = Some (e, m, d) \<longrightarrow> tree_ok store count s k (node_of store s child) 0 e d)"
        using Suc.prems(1) False by (simp only: tree_ok.simps if_False)
      then have c: "child \<noteq> 0" "unat child * spb s + spb s \<le> count"
        "rd_hdr (node_of store s child) 0 = Some (e, m, d) \<Longrightarrow> tree_ok store count s k (node_of store s child) 0 e d" for e m d using i by blast+
      from read_node [OF Suc.prems(2) c(2) Suc.prems(3,4)] obtain s1 where s1: "read_fsb child buf s = Some (Inr (node_of store s child), s1)"
        "fs_ok D ok s1" "fs_same store s s1" by auto
      have nb: "node_of store s child = node_of store s1 child" using fs_same_block [OF s1(3)] by (simp add: node_of_def fs_same_fields [OF s1(3)])
      have l: "length (node_of store s child) = 4096" "drop (unat (fs_bs s1)) (node_of store s child) = drop (unat (fs_bs s1)) zero_block"
        unfolding nb by (rule length_node [OF s1(2)])+
      show ?thesis
      proof (cases "rd_hdr (node_of store s child) 0")
        case None
        then show ?thesis using False Some s1 by (subst map_walk.simps) (auto simp: Let_def)
      next
        case (Some h)
        obtain e m d where h: "h = (e, m, d)" by (cases h)
        have "tree_ok store count s1 k (if child = 0 then i_raw n else node_of store s child) 0 e d"
          using c(1) c(3) [of e m d] Some h tree_ok_same [OF s1(3)] by simp
        from Suc.IH [OF this s1(2) l] obtain r s' where "map_walk n lb e d child 0 (node_of store s child) s1 = Some (Inr r, s')"
          "fs_ok D ok s'" "fs_same store s1 s'" by auto
        then show ?thesis using False \<open>choose_index _ _ _ _ _ = Some child\<close> s1(1) Some h fs_same_trans [OF s1(3)]
          by (subst map_walk.simps) (auto simp: Let_def)
      qed
    qed
  qed
qed

end

context volume
begin

lemma map_block_returns:
  assumes "fs_ok D ok s" "\<And>e m d. rd_hdr (i_raw n) INO_IBLOCK = Some (e, m, d) \<Longrightarrow> tree_ok store count s k (i_raw n) INO_IBLOCK e d"
  shows "\<exists>r s'. map_block n lb s = Some (Inr r, s') \<and> fs_ok D ok s' \<and> fs_same store s s'"
proof (cases "rd_hdr (i_raw n) INO_IBLOCK")
  case None
  then show ?thesis using assms(1) by (auto simp: map_block_def)
next
  case (Some h)
  obtain e m d where h: "h = (e, m, d)" by (cases h)
  have "length zero_block = 4096" by (simp add: zero_block_def MAX_BLOCK_SIZE_def)
  then show ?thesis using map_walk_returns [of s k 0 n zero_block INO_IBLOCK e d lb] assms Some h by (simp add: map_block_def)
qed

text \<open>A node that leads back to itself: the walk does not end.\<close>

lemma map_walk_cycle:
  fixes c :: u64
  defines "stuck \<equiv> \<lambda>lb entries depth block base buf s. block = c \<and> base = (0 :: nat) \<and> buf = node_of store s c \<and> fs_ok D ok s \<and> c \<noteq> 0 \<and>
    unat c * spb s + spb s \<le> count \<and> (\<exists>m. rd_hdr (node_of store s c) 0 = Some (entries, m, depth)) \<and> depth \<noteq> 0 \<and>
    choose_index (node_of store s c) 0 lb (unat entries) [0..<unat entries] = Some c"
  assumes "map_walk n lb entries depth block base buf s = Some y"
  shows "\<not> stuck lb entries depth block base buf s"
  using assms(2)
proof (rule map_walk.raw_induct [where P = "\<lambda>n lb entries depth block base buf s y. \<not> stuck lb entries depth block base buf s", rotated], intro notI)
  fix walk :: "Inode \<Rightarrow> u32 \<Rightarrow> u16 \<Rightarrow> u16 \<Rightarrow> u64 \<Rightarrow> nat \<Rightarrow> u8 list \<Rightarrow> 'd Ext4 \<Rightarrow> ((FsError + u64 option) \<times> 'd Ext4) option"
    and n lb entries depth block base buf s y
  assume IH: "\<And>n lb entries depth block base buf s y. walk n lb entries depth block base buf s = Some y \<Longrightarrow> \<not> stuck lb entries depth block base buf s"
    and body: "(let src = if block = 0 then i_raw n else buf
       in if depth = 0 then find_extent src base lb [0..<unat entries] \<bind> (\<lambda>r. Some (Inr r, s))
          else case choose_index src base lb (unat entries) [0..<unat entries] of None \<Rightarrow> Some (Inr None, s)
            | Some child \<Rightarrow> read_fsb child buf s \<bind> (\<lambda>(r, s). case r of Inl e \<Rightarrow> Some (Inl e, s)
                | Inr buf \<Rightarrow> (case rd_hdr buf 0 of None \<Rightarrow> Some (Inr None, s) | Some (e, m, d) \<Rightarrow> walk n lb e d child 0 buf s))) = Some y"
    and st: "stuck lb entries depth block base buf s"
  then obtain m where h: "rd_hdr (node_of store s c) 0 = Some (entries, m, depth)" by (auto simp: stuck_def)
  have ok: "fs_ok D ok s" "unat c * spb s + spb s \<le> count" using st by (auto simp: stuck_def)
  from read_node [OF ok length_node [OF ok(1)], of c] obtain s' where s': "read_fsb c (node_of store s c) s = Some (Inr (node_of store s c), s')"
    "fs_ok D ok s'" "fs_same store s s'" by auto
  have nb: "node_of store s' c = node_of store s c" "spb s' = spb s"
    using fs_same_block [OF s'(3)] by (simp_all add: node_of_def fs_same_fields [OF s'(3)] spb_def)
  have "walk n lb entries depth c 0 (node_of store s c) s' = Some y" using body st h s'(1) by (auto simp: Let_def stuck_def)
  from IH [OF this] show False using st h s'(2) nb by (auto simp: stuck_def)
qed

lemma map_block_cycle:
  assumes ok: "fs_ok D ok s" and root: "rd_hdr (i_raw n) INO_IBLOCK = Some (e, m, d)" "d \<noteq> 0"
      "choose_index (i_raw n) INO_IBLOCK lb (unat e) [0..<unat e] = Some c"
    and c: "c \<noteq> 0" "unat c * spb s + spb s \<le> count" "rd_hdr (node_of store s c) 0 = Some (e', m', d')" "d' \<noteq> 0"
      "choose_index (node_of store s c) 0 lb (unat e') [0..<unat e'] = Some c"
  shows "map_block n lb s = None"
proof -
  have "length zero_block = 4096" by (simp add: zero_block_def MAX_BLOCK_SIZE_def)
  from read_node [OF ok c(2) this] obtain s' where s': "read_fsb c zero_block s = Some (Inr (node_of store s c), s')"
    "fs_ok D ok s'" "fs_same store s s'" by auto
  have nb: "node_of store s' c = node_of store s c" "spb s' = spb s"
    using fs_same_block [OF s'(3)] by (simp_all add: node_of_def fs_same_fields [OF s'(3)] spb_def)
  have "map_block n lb s = map_walk n lb e' d' c 0 (node_of store s c) s'"
    unfolding map_block_def using root s'(1) c(3) by (subst map_walk.simps) (auto simp: Let_def)
  also have "\<dots> = None" using map_walk_cycle [of n lb e' d' c 0 "node_of store s c" s' _ c] s'(2) c nb by (force simp flip: not_Some_eq)
  finally show ?thesis .
qed
end

lemma extend_last_total:
  assumes len: "length raw = MAX_INODE_SIZE" and e4: "unat entries < 4"
    and last: "\<And>eb elen pb. rd_extent raw INO_IBLOCK (unat entries - 1) = Some (eb, elen, pb) \<Longrightarrow> elen < 0x7FFF \<and> unat eb + unat elen < 2 ^ 32"
  shows "\<exists>ext. extend_last raw INO_IBLOCK entries lb pblock = Some ext"
proof (cases "rd_extent raw INO_IBLOCK (unat entries - 1)")
  case (Some e)
  obtain eb elen pb' where e: "e = (eb, elen, pb')" by (cases e)
  have "unat (ucast elen :: u32) = unat elen" by simp
  then have "cadd eb (ucast elen) = Some (eb + ucast elen)" using last Some e by (simp add: cadd_def)
  moreover have "wr_extent raw INO_IBLOCK (unat entries - 1) eb (elen + 1) pb' \<noteq> None"
    using len e4 by (simp add: wr_records wr_def INO_IBLOCK_def MAX_INODE_SIZE_def)
  ultimately show ?thesis using Some e by (auto simp: extend_last_def)
qed (simp add: extend_last_def)

end
