(* ===== verification/Ext4_Files.thy ===== *)
theory Ext4_Files
  imports Ext4_Tree
begin

text \<open>
  Directories and files (\<^verbatim>\<open>src/ext4.rs\<close>, \<^verbatim>\<open>dir_tail_csum\<close> to \<^verbatim>\<open>create_dir\<close>).

  A directory block is a chain of records, each with its own length; the three scans of the source (\<^verbatim>\<open>read_dir\<close>,
  \<^verbatim>\<open>lookup\<close>, \<^verbatim>\<open>add_dirent\<close>) walk it in the same way, which \<open>dir_slots\<close> writes once as the list of the records visited.
\<close>

section \<open>Directory blocks\<close>

definition dir_tail_csum :: "'d Ext4 \<Rightarrow> u32 \<Rightarrow> u32 \<Rightarrow> u8 list \<Rightarrow> u8 list option" where
  "dir_tail_csum s ino gen blk =
     (if \<not> fs_meta_csum s then Some blk
      else let bs = unat (fs_bs s);
               seed = crc32c (fs_csum_seed s) (to_le_bytes 4 ino);
               seed = crc32c seed (to_le_bytes 4 gen)
           in do {
        blk \<leftarrow> put_le32 blk (bs - 12) 0;
        blk \<leftarrow> put_le16 blk (bs - 8) 12;
        blk \<leftarrow> wr blk (bs - 6) [0];
        blk \<leftarrow> wr blk (bs - 5) [0xDE];
        covered \<leftarrow> rd blk 0 (bs - 12);
        put_le32 blk (bs - 4) (crc32c seed covered)
      })"

text \<open>The records of a block from \<open>pos\<close> on: position, inode, record length, name length, file type.\<close>

type_synonym slot = "nat \<times> u32 \<times> nat \<times> nat \<times> u8"

function dir_slots :: "u8 list \<Rightarrow> nat \<Rightarrow> nat \<Rightarrow> slot list option" where
  "dir_slots blk limit pos =
     (if pos + 8 \<le> limit then do {
        (eino, rec, nlen, ft) \<leftarrow> dirent_at blk pos;
        if rec = 0 then Some []
        else do { rest \<leftarrow> dir_slots blk limit (pos + rec); Some ((pos, eino, rec, nlen, ft) # rest) }
      } else Some [])"
  by pat_completeness auto

termination by (relation "measure (\<lambda>(blk, limit, pos). limit - pos)") auto

declare dir_slots.simps [simp del]

text \<open>The number of blocks of a directory, \<^verbatim>\<open>(size + bs - 1) / bs\<close>.\<close>

definition dir_blocks :: "'d Ext4 \<Rightarrow> Inode \<Rightarrow> nat option" where
  "dir_blocks s n = do {
     a \<leftarrow> cadd (i_size n) (ucast (fs_bs s));
     b \<leftarrow> csub a 1;
     if fs_bs s = 0 then None else Some (unat (b div ucast (fs_bs s)))
   }"

section \<open>Listing and looking up\<close>

text \<open>The entries copied out so far and their number; past \<open>cap\<close> they are only counted.\<close>

fun collect_slots :: "u8 list \<Rightarrow> nat \<Rightarrow> slot list \<Rightarrow> nat \<times> DirEnt list \<Rightarrow> (nat \<times> DirEnt list) option" where
  "collect_slots blk cap [] acc = Some acc"
| "collect_slots blk cap ((pos, eino, rec, nlen, ft) # slots) (n, out) =
     (if eino \<noteq> 0 \<and> nlen \<le> EXT4_NAME_LEN then
        if n < cap then do {
          name \<leftarrow> rd blk (pos + 8) nlen;
          collect_slots blk cap slots (n + 1, out @ [\<lparr>d_ino = eino, d_file_type = ft, d_name = name\<rparr>])
        } else collect_slots blk cap slots (n + 1, out)
      else collect_slots blk cap slots (n, out))"

fun read_dir_blocks :: "Inode \<Rightarrow> nat \<Rightarrow> nat list \<Rightarrow> nat \<times> DirEnt list \<Rightarrow> ('d, nat \<times> DirEnt list) fs" where
  "read_dir_blocks n cap [] acc = ok_fs acc"
| "read_dir_blocks n cap (lb # lbs) acc = then_fs (map_block n (of_nat lb)) (\<lambda>m. case m of
      None \<Rightarrow> read_dir_blocks n cap lbs acc
    | Some fsb \<Rightarrow> then_fs (read_fsb fsb zero_block) (\<lambda>blk. with_fs (\<lambda>s.
        then_fs (need (dir_slots blk (dir_limit s) 0)) (\<lambda>slots.
        then_fs (need (collect_slots blk cap slots acc)) (\<lambda>acc. read_dir_blocks n cap lbs acc)))))"

definition read_dir :: "u32 \<Rightarrow> nat \<Rightarrow> ('d, nat \<times> DirEnt list) fs" where
  "read_dir ino cap = then_fs (read_inode ino) (\<lambda>n.
     if \<not> is_dir n then err_fs FsInvalid
     else with_fs (\<lambda>s. then_fs (need (dir_blocks s n)) (\<lambda>blocks. read_dir_blocks n cap [0..<blocks] (0, []))))"

fun lookup_slots :: "u8 list \<Rightarrow> u8 list \<Rightarrow> slot list \<Rightarrow> u32 option option" where
  "lookup_slots blk name [] = Some None"
| "lookup_slots blk name ((pos, eino, rec, nlen, ft) # slots) =
     (if eino \<noteq> 0 \<and> nlen = length name then do {
        nm \<leftarrow> rd blk (pos + 8) nlen;
        if nm = name then Some (Some eino) else lookup_slots blk name slots
      } else lookup_slots blk name slots)"

fun lookup_blocks :: "Inode \<Rightarrow> u8 list \<Rightarrow> nat list \<Rightarrow> ('d, u32 option) fs" where
  "lookup_blocks n name [] = ok_fs None"
| "lookup_blocks n name (lb # lbs) = then_fs (map_block n (of_nat lb)) (\<lambda>m. case m of
      None \<Rightarrow> lookup_blocks n name lbs
    | Some fsb \<Rightarrow> then_fs (read_fsb fsb zero_block) (\<lambda>blk. with_fs (\<lambda>s.
        then_fs (need (dir_slots blk (dir_limit s) 0)) (\<lambda>slots.
        then_fs (need (lookup_slots blk name slots)) (\<lambda>r. case r of
          Some eino \<Rightarrow> ok_fs (Some eino) | None \<Rightarrow> lookup_blocks n name lbs)))))"

definition lookup :: "u32 \<Rightarrow> u8 list \<Rightarrow> ('d, u32 option) fs" where
  "lookup dir name = then_fs (read_inode dir) (\<lambda>n.
     if \<not> is_dir n then err_fs FsInvalid
     else with_fs (\<lambda>s. then_fs (need (dir_blocks s n)) (\<lambda>blocks. lookup_blocks n name [0..<blocks])))"

section \<open>Adding an entry\<close>

text \<open>An unused record that is large enough (\<open>Inl\<close>), or the last record with the part of it that is in use (\<open>Inr\<close>).\<close>

fun find_slot :: "nat \<Rightarrow> slot list \<Rightarrow> nat \<times> nat \<times> nat \<Rightarrow> (nat \<times> nat) + (nat \<times> nat \<times> nat)" where
  "find_slot needed [] lst = Inr lst"
| "find_slot needed ((pos, eino, rec, nlen, ft) # slots) lst =
     (if eino = 0 \<and> rec \<ge> needed then Inl (pos, rec)
      else find_slot needed slots (pos, rec, if eino = 0 then 0 else round_dir_size nlen))"

text \<open>The block with the entry added, or the inner \<open>None\<close> when it has no room.\<close>

definition place_entry :: "u8 list \<Rightarrow> nat \<Rightarrow> u8 list \<Rightarrow> u32 \<Rightarrow> u8 \<Rightarrow> u8 list option option" where
  "place_entry blk limit name target ft = (let needed = round_dir_size (length name) in do {
     slots \<leftarrow> dir_slots blk limit 0;
     case find_slot needed slots (0, 0, 0) of
       Inl (pos, rec) \<Rightarrow> map_option Some (fill_entry blk pos (of_nat rec) target ft name)
     | Inr (last_pos, last_rec, last_actual) \<Rightarrow>
         if int last_rec - int last_actual \<ge> int needed then do {
           blk \<leftarrow> put_le16 blk (last_pos + 4) (of_nat last_actual);
           map_option Some (fill_entry blk (last_pos + last_actual) (of_nat (last_rec - last_actual)) target ft name)
         } else Some None
   })"

fun add_in_blocks :: "Inode \<Rightarrow> u32 \<Rightarrow> u8 list \<Rightarrow> u32 \<Rightarrow> u8 \<Rightarrow> nat list \<Rightarrow> ('d, bool) fs" where
  "add_in_blocks n gen name target ft [] = ok_fs False"
| "add_in_blocks n gen name target ft (lb # lbs) = then_fs (map_block n (of_nat lb)) (\<lambda>m. case m of
      None \<Rightarrow> add_in_blocks n gen name target ft lbs
    | Some fsb \<Rightarrow> then_fs (read_fsb fsb zero_block) (\<lambda>blk. with_fs (\<lambda>s.
        then_fs (need (place_entry blk (dir_limit s) name target ft)) (\<lambda>r. case r of
          None \<Rightarrow> add_in_blocks n gen name target ft lbs
        | Some blk \<Rightarrow>
            then_fs (need (dir_tail_csum s (i_ino n) gen blk)) (\<lambda>blk.
            then_fs (write_fsb fsb blk) (\<lambda>_. ok_fs True))))))"

definition add_block :: "Inode \<Rightarrow> u32 \<Rightarrow> u8 list \<Rightarrow> u32 \<Rightarrow> u8 \<Rightarrow> nat \<Rightarrow> ('d, unit) fs" where
  "add_block n gen name target ft blocks = then_fs alloc_block (\<lambda>fsb. with_fs (\<lambda>s.
     then_fs (need (fill_entry zero_block 0 (of_nat (dir_limit s)) target ft name)) (\<lambda>nb.
     then_fs (need (dir_tail_csum s (i_ino n) gen nb)) (\<lambda>nb.
     then_fs (write_fsb fsb nb) (\<lambda>_.
     then_fs (insert_extent n (of_nat blocks) fsb) (\<lambda>n.
     then_fs (need (cadd (i_size n) (ucast (fs_bs s)))) (\<lambda>sz. let n = n\<lparr>i_size := sz\<rparr> in
     then_fs (recount_blocks n) (\<lambda>b. write_inode (n\<lparr>i_blocks := b\<rparr>)))))))))"

definition add_dirent :: "u32 \<Rightarrow> u8 list \<Rightarrow> u32 \<Rightarrow> u8 \<Rightarrow> ('d, unit) fs" where
  "add_dirent dir name target ft =
     (if name = [] \<or> length name > EXT4_NAME_LEN then err_fs FsInvalid
      else then_fs (read_inode dir) (\<lambda>n.
        if \<not> is_dir n then err_fs FsInvalid
        else if i_flags n AND INO_FLAG_INDEX \<noteq> 0 then err_fs FsReadOnly
        else with_fs (\<lambda>s.
          then_fs (need (dir_blocks s n)) (\<lambda>blocks.
          then_fs (need (le32 (i_raw n) INO_GENERATION)) (\<lambda>gen.
          then_fs (add_in_blocks n gen name target ft [0..<blocks]) (\<lambda>added.
          if added then ok_fs () else add_block n gen name target ft blocks))))))"

section \<open>Files\<close>

text \<open>The piece of the file that one turn of a loop handles: logical block, offset in it, length.\<close>

definition piece :: "nat \<Rightarrow> nat \<Rightarrow> nat \<Rightarrow> nat \<times> nat \<times> nat" where
  "piece bs cur left = (cur div bs, cur mod bs, min (bs - cur mod bs) left)"

lemma piece_decreases:
  assumes "(lb, in_off, count) = piece bs cur (fin - dn)" and "\<not> fin \<le> dn" and "0 < bs"
  shows "fin - (dn + count) < fin - dn"
proof -
  have "0 < bs - cur mod bs" using assms(3) by simp
  hence "0 < count" using assms by (simp add: piece_def)
  thus ?thesis using assms(2) by linarith
qed

function read_loop :: "nat \<Rightarrow> Inode \<Rightarrow> nat \<Rightarrow> nat \<Rightarrow> nat \<Rightarrow> u8 list \<Rightarrow> ('d, u8 list) fs" where
  "read_loop bs n offset tk dn buf s =
     (if tk \<le> dn then ok_fs buf s
      else if bs = 0 then None
      else case piece bs (offset + dn) (tk - dn) of (lb, in_off, count) \<Rightarrow>
        then_fs (map_block n (of_nat lb)) (\<lambda>m. case m of
          Some fsb \<Rightarrow>
            then_fs (read_fsb fsb zero_block) (\<lambda>blk.
            then_fs (need (do { p \<leftarrow> rd blk in_off count; wr buf dn p })) (\<lambda>buf. read_loop bs n offset tk (dn + count) buf))
        | None \<Rightarrow>
            then_fs (need (wr buf dn (replicate count 0))) (\<lambda>buf. read_loop bs n offset tk (dn + count) buf)) s)"
  by pat_completeness auto

termination
  by (relation "measure (\<lambda>(bs, n, offset, tk, dn, buf, s). tk - dn)") (auto intro: piece_decreases)

declare read_loop.simps [simp del]

definition read_file :: "u32 \<Rightarrow> u64 \<Rightarrow> u8 list \<Rightarrow> ('d, nat \<times> u8 list) fs" where
  "read_file ino offset buf =
     (if buf = [] then ok_fs (0, buf)
      else then_fs (read_inode ino) (\<lambda>n.
        if \<not> is_file n then err_fs FsInvalid
        else if offset \<ge> i_size n then ok_fs (0, buf)
        else let tk = min (unat (i_size n - offset)) (length buf) in with_fs (\<lambda>s.
          then_fs (read_loop (unat (fs_bs s)) n (unat offset) tk 0 buf) (\<lambda>buf. ok_fs (tk, buf)))))"

text \<open>The block that a write goes to: read when it is mapped, fresh and zeroed otherwise.\<close>

definition block_for_write :: "Inode \<Rightarrow> u32 \<Rightarrow> ('d, u8 list \<times> Inode) fs" where
  "block_for_write n lb = then_fs (map_block n lb) (\<lambda>m. case m of
      Some fsb \<Rightarrow> then_fs (read_fsb fsb zero_block) (\<lambda>blk. ok_fs (blk, n))
    | None \<Rightarrow>
        then_fs alloc_block (\<lambda>fsb.
        then_fs (insert_extent n lb fsb) (\<lambda>n. ok_fs (zero_block, n))))"

function write_loop :: "nat \<Rightarrow> Inode \<Rightarrow> nat \<Rightarrow> u8 list \<Rightarrow> nat \<Rightarrow> ('d, Inode) fs" where
  "write_loop bs n offset buf dn s =
     (if length buf \<le> dn then ok_fs n s
      else if bs = 0 then None
      else case piece bs (offset + dn) (length buf - dn) of (lb, in_off, count) \<Rightarrow>
        then_fs (block_for_write n (of_nat lb)) (\<lambda>(blk, n).
        then_fs (map_block n (of_nat lb)) (\<lambda>m. case m of
          None \<Rightarrow> err_fs FsCorrupt
        | Some fsb \<Rightarrow>
            then_fs (need (do { p \<leftarrow> rd buf dn count; wr blk in_off p })) (\<lambda>blk.
            then_fs (write_fsb fsb blk) (\<lambda>_. write_loop bs n offset buf (dn + count))))) s)"
  by pat_completeness auto

termination
  by (relation "measure (\<lambda>(bs, n, offset, buf, dn, s). length buf - dn)") (auto intro: piece_decreases)

declare write_loop.simps [simp del]

definition write_file :: "u32 \<Rightarrow> u64 \<Rightarrow> u8 list \<Rightarrow> ('d, unit) fs" where
  "write_file ino offset buf =
     (if buf = [] then ok_fs ()
      else then_fs (read_inode ino) (\<lambda>n.
        if \<not> is_file n then err_fs FsInvalid
        else then_fs (need (cadd offset (of_nat (length buf)))) (\<lambda>fin. with_fs (\<lambda>s.
          then_fs (write_loop (unat (fs_bs s)) n (unat offset) buf 0) (\<lambda>n.
          let n = (if fin > i_size n then n\<lparr>i_size := fin\<rparr> else n) in
          then_fs (recount_blocks n) (\<lambda>b. write_inode (n\<lparr>i_blocks := b\<rparr>)))))))"

section \<open>Creating\<close>

definition new_raw :: "bool \<Rightarrow> u8 list option" where
  "new_raw dir = do {
     raw \<leftarrow> wr_hdr (replicate MAX_INODE_SIZE 0) INO_IBLOCK 0 4 0;
     raw \<leftarrow> put_le16 raw INO_LINKS_COUNT (if dir then 2 else 1);
     put_le16 raw INO_EXTRA_ISIZE 28
   }"

text \<open>The first block of a new directory, with its two entries.\<close>

definition init_dir :: "u32 \<Rightarrow> Inode \<Rightarrow> ('d, Inode) fs" where
  "init_dir parent n = then_fs alloc_block (\<lambda>fsb. with_fs (\<lambda>s.
     then_fs (need (fill_entry zero_block 0 12 (i_ino n) FT_DIR [0x2E])) (\<lambda>nb.
     then_fs (need (fill_entry nb 12 (of_nat (dir_limit s - 12)) parent FT_DIR [0x2E, 0x2E])) (\<lambda>nb.
     then_fs (need (dir_tail_csum s (i_ino n) 0 nb)) (\<lambda>nb.
     then_fs (write_fsb fsb nb) (\<lambda>_.
     then_fs (need (do { raw \<leftarrow> wr_hdr (i_raw n) INO_IBLOCK 1 4 0; wr_extent raw INO_IBLOCK 0 0 1 fsb })) (\<lambda>raw.
     ok_fs (n\<lparr>i_size := ucast (fs_bs s), i_blocks := ucast (fs_bs s) div 512, i_raw := raw\<rparr>))))))))"

definition link_parent :: "u32 \<Rightarrow> ('d, unit) fs" where
  "link_parent dir = then_fs (read_inode dir) (\<lambda>parent.
     then_fs (need (do {
       links \<leftarrow> le16 (i_raw parent) INO_LINKS_COUNT;
       links \<leftarrow> cadd links 1;
       put_le16 (i_raw parent) INO_LINKS_COUNT links
     })) (\<lambda>raw. write_inode (parent\<lparr>i_raw := raw\<rparr>)))"

definition create :: "u32 \<Rightarrow> u8 list \<Rightarrow> bool \<Rightarrow> ('d, u32) fs" where
  "create dir name mkdir = then_fs (lookup dir name) (\<lambda>found.
     if found \<noteq> None then err_fs FsAlreadyExists
     else then_fs (alloc_inode mkdir) (\<lambda>ino.
       then_fs (need (new_raw mkdir)) (\<lambda>raw.
       let n = \<lparr>i_ino = ino, i_mode = (if mkdir then S_IFDIR OR 0x1ED else S_IFREG OR 0x1A4), i_size = 0, i_blocks = 0,
                i_flags = INO_FLAG_EXTENTS, i_raw = raw\<rparr> in
       then_fs (if mkdir then init_dir dir n else ok_fs n) (\<lambda>n.
       then_fs (write_inode n) (\<lambda>_.
       then_fs (add_dirent dir name ino (if mkdir then FT_DIR else 1)) (\<lambda>_.
       then_fs (if mkdir then link_parent dir else ok_fs ()) (\<lambda>_. ok_fs ino)))))))"

definition create_file :: "u32 \<Rightarrow> u8 list \<Rightarrow> ('d, u32) fs" where
  "create_file dir name = create dir name False"

definition create_dir :: "u32 \<Rightarrow> u8 list \<Rightarrow> ('d, u32) fs" where
  "create_dir dir name = create dir name True"

section \<open>Directory blocks as lists of entries\<close>

text \<open>
  A directory block in order: its records follow one another from \<open>pos\<close> to \<open>fin\<close>, each at least eight bytes long, and a record in use has room
  for its name.
\<close>

fun slots_ok :: "u8 list \<Rightarrow> nat \<Rightarrow> nat \<Rightarrow> slot list \<Rightarrow> bool" where
  "slots_ok blk fin pos [] \<longleftrightarrow> pos = fin"
| "slots_ok blk fin pos ((p, eino, rec, nlen, ft) # slots) \<longleftrightarrow> p = pos \<and> dirent_at blk pos = Some (eino, rec, nlen, ft) \<and> 8 \<le> rec \<and>
     (eino \<noteq> 0 \<longrightarrow> round_dir_size nlen \<le> rec) \<and> slots_ok blk fin (pos + rec) slots"

definition dir_ok :: "u8 list \<Rightarrow> nat \<Rightarrow> bool" where "dir_ok blk limit \<longleftrightarrow> (\<exists>slots. slots_ok blk limit 0 slots)"

text \<open>What a lookup finds in one block.\<close>

definition dir_find :: "u8 list \<Rightarrow> nat \<Rightarrow> u8 list \<Rightarrow> u32 option option" where
  "dir_find blk limit name = Option.bind (dir_slots blk limit 0) (lookup_slots blk name)"

lemma slots_ok_end: "slots_ok blk fin pos slots \<Longrightarrow> pos \<le> fin"
  by (induction slots arbitrary: pos) force+

lemma slots_ok_scan: "slots_ok blk fin pos slots \<Longrightarrow> dir_slots blk fin pos = Some slots"
proof (induction slots arbitrary: pos)
  case Nil
  then show ?case by (simp add: dir_slots.simps)
next
  case (Cons x slots)
  obtain p eino rec nlen ft where x: "x = (p, eino, rec, nlen, ft)" by (cases x)
  then have "pos + 8 \<le> fin" using Cons.prems slots_ok_end [of blk fin "pos + rec" slots] by auto
  then show ?case using Cons x by (subst dir_slots.simps) auto
qed

lemma slots_ok_append: "slots_ok blk fin pos (xs @ ys) \<longleftrightarrow> (\<exists>mid. slots_ok blk mid pos xs \<and> slots_ok blk fin mid ys)"
proof (induction xs arbitrary: pos)
  case (Cons x xs)
  then show ?case by (cases x) auto
qed simp

lemma lookup_slots_append:
  "lookup_slots blk nm (xs @ ys) = Option.bind (lookup_slots blk nm xs) (\<lambda>r. case r of None \<Rightarrow> lookup_slots blk nm ys | Some x \<Rightarrow> Some (Some x))"
proof (induction xs)
  case (Cons x xs)
  then show ?case by (cases x) (auto split: Option.bind_split)
qed simp

text \<open>Two blocks that agree on a range have the same records there.\<close>

definition agree :: "u8 list \<Rightarrow> u8 list \<Rightarrow> nat \<Rightarrow> nat \<Rightarrow> bool" where
  "agree b b' lo hi \<longleftrightarrow> (\<forall>p n. lo \<le> p \<and> p + n \<le> hi \<longrightarrow> rd b' p n = rd b p n)"

lemma agreeD: "agree b b' lo hi \<Longrightarrow> lo \<le> p \<Longrightarrow> p + n \<le> hi \<Longrightarrow> rd b' p n = rd b p n"
  by (simp add: agree_def)

lemma agree_wr: "wr b off bs = Some b' \<Longrightarrow> hi \<le> off \<or> off + length bs \<le> lo \<Longrightarrow> agree b b' lo hi"
  by (auto simp: agree_def intro!: rd_wr_other)

lemma agree_sub: "agree b b' lo hi \<Longrightarrow> lo \<le> lo' \<Longrightarrow> hi' \<le> hi \<Longrightarrow> agree b b' lo' hi'"
  by (auto simp: agree_def)

lemma agree_trans: "agree b b1 lo hi \<Longrightarrow> agree b1 b2 lo hi \<Longrightarrow> agree b b2 lo hi"
  by (auto simp: agree_def)

lemma dirent_at_agree: "agree b b' p (p + 8) \<Longrightarrow> dirent_at b' p = dirent_at b p"
  by (simp add: agree_def dirent_at_def le32_def le16_def)

lemma slots_agree:
  assumes "slots_ok b fin pos slots" "agree b b' pos fin"
  shows "slots_ok b' fin pos slots \<and> lookup_slots b' nm slots = lookup_slots b nm slots"
  using assms
proof (induction slots arbitrary: pos)
  case (Cons x slots)
  obtain p eino rec nlen ft where x: "x = (p, eino, rec, nlen, ft)" by (cases x)
  have s: "p = pos" "slots_ok b fin (pos + rec) slots" "8 \<le> rec" "eino \<noteq> 0 \<Longrightarrow> 8 + nlen \<le> rec"
    using Cons.prems x by (auto simp: round_dir_size_def)
  have e: "pos + rec \<le> fin" using slots_ok_end [OF s(2)] .
  have d: "dirent_at b' pos = dirent_at b pos" by (rule dirent_at_agree) (use Cons.prems(2) s(3) e in \<open>auto intro: agree_sub\<close>)
  have "agree b b' (pos + rec) fin" using Cons.prems(2) by (auto intro: agree_sub)
  note IH = Cons.IH [OF s(2) this]
  have r: "rd b' (pos + 8) nlen = rd b (pos + 8) nlen" if "eino \<noteq> 0"
    by (rule agreeD [OF Cons.prems(2)]) (use s(4) [OF that] e in auto)
  have "slots_ok b' fin pos (x # slots)" using IH Cons.prems(1) unfolding x by (simp add: d)
  moreover have "lookup_slots b' nm (x # slots) = lookup_slots b nm (x # slots)"
    using IH r unfolding x s(1) by (cases "eino = 0"; cases "nlen = length nm") (simp_all cong: if_cong)
  ultimately show ?case ..
qed simp

section \<open>Writing an entry\<close>

definition dirent_bytes :: "u16 \<Rightarrow> u32 \<Rightarrow> u8 \<Rightarrow> u8 list \<Rightarrow> u8 list" where
  "dirent_bytes rec ino ft name = to_le_bytes 4 ino @ to_le_bytes 2 rec @ [of_nat (length name)] @ [ft] @ name"

lemma length_dirent_bytes [simp]: "length (dirent_bytes rec ino ft name) = 8 + length name"
  by (simp add: dirent_bytes_def)

lemma fill_entry_wr: "fill_entry b pos rec ino ft name = wr b pos (dirent_bytes rec ino ft name)"
  by (simp add: fill_entry_def dirent_bytes_def put_le16_def put_le32_def bind_wr_assoc wr_wr_adjacent)

lemma filled_entry:
  assumes "wr b pos (dirent_bytes rec ino ft name) = Some b'" "length name \<le> 255"
  shows "dirent_at b' pos = Some (ino, unat rec, length name, ft)" "rd b' (pos + 8) (length name) = Some name"
proof -
  have s: "rd b' pos (8 + length name) = Some (dirent_bytes rec ino ft name)" using rd_wr_same [OF assms(1)] by simp
  have "unat (of_nat (length name) :: u8) = length name" using assms(2) by (intro unat_of_nat_bounded) simp
  then show "dirent_at b' pos = Some (ino, unat rec, length name, ft)"
    using rd_rd [OF s, of 0 4] rd_rd [OF s, of 4 2] rd_rd [OF s, of 6 1] rd_rd [OF s, of 7 1]
    by (simp add: dirent_at_def le32_def le16_def dirent_bytes_def rd_def)
  show "rd b' (pos + 8) (length name) = Some name"
    using rd_rd [OF s, of 8 "length name"] by (simp add: dirent_bytes_def rd_def)
qed

lemma find_slot_reuse:
  "find_slot needed slots lst = Inl (pos, rec) \<Longrightarrow> \<exists>pre nlen ft post. slots = pre @ (pos, 0, rec, nlen, ft) # post \<and> needed \<le> rec"
proof (induction slots arbitrary: lst)
  case (Cons x slots)
  obtain p eino r nlen ft where x: "x = (p, eino, r, nlen, ft)" by (cases x)
  show ?case
  proof (cases "eino = 0 \<and> needed \<le> r")
    case True
    then show ?thesis using Cons.prems x by (intro exI [of _ "[]"]) auto
  next
    case False
    then have "find_slot needed slots (p, r, if eino = 0 then 0 else round_dir_size nlen) = Inl (pos, rec)" using Cons.prems x by (simp split: if_splits)
    from Cons.IH [OF this] show ?thesis by (metis append_Cons)
  qed
qed simp

lemma find_slot_last:
  "find_slot needed slots lst = Inr r \<Longrightarrow> slots = [] \<and> r = lst \<or> (\<exists>pre pos eino rec nlen ft. slots = pre @ [(pos, eino, rec, nlen, ft)] \<and>
     r = (pos, rec, if eino = 0 then 0 else round_dir_size nlen) \<and> \<not> (eino = 0 \<and> needed \<le> rec))"
proof (induction slots arbitrary: lst)
  case (Cons x slots)
  obtain p eino rec nlen ft where x: "x = (p, eino, rec, nlen, ft)" by (cases x)
  then have n: "\<not> (eino = 0 \<and> needed \<le> rec)" "find_slot needed slots (p, rec, if eino = 0 then 0 else round_dir_size nlen) = Inr r"
    using Cons.prems by (auto split: if_splits)
  from Cons.IH [OF n(2)] show ?case
  proof
    assume "slots = [] \<and> r = (p, rec, if eino = 0 then 0 else round_dir_size nlen)"
    then show ?thesis using n(1) x by (intro disjI2 exI [of _ "[]"]) auto
  qed (metis append_Cons)
qed simp

text \<open>Replacing the records of a range \<open>lo\<close> to \<open>hi\<close> by others of the same extent.\<close>

lemma slots_replace:
  assumes b: "slots_ok b lo 0 pre" "slots_ok b hi lo mid" "slots_ok b fin hi post" and b': "agree b b' 0 lo" "agree b b' hi fin" "slots_ok b' hi lo mid'"
  shows "slots_ok b' fin 0 (pre @ mid' @ post)"
    "lookup_slots b' nm mid' = lookup_slots b nm mid \<Longrightarrow> dir_find b' fin nm = dir_find b fin nm"
    "lookup_slots b' nm mid' = Some (Some t) \<Longrightarrow> dir_find b fin nm = Some None \<Longrightarrow> dir_find b' fin nm = Some (Some t)"
proof -
  have old: "slots_ok b fin 0 (pre @ mid @ post)" using b by (auto simp: slots_ok_append)
  note pre = slots_agree [OF b(1) b'(1)] and post = slots_agree [OF b(3) b'(2)]
  show new: "slots_ok b' fin 0 (pre @ mid' @ post)" using pre post b'(3) by (auto simp: slots_ok_append)
  have f: "dir_find b fin nm = lookup_slots b nm (pre @ mid @ post)" "dir_find b' fin nm = lookup_slots b' nm (pre @ mid' @ post)" for nm
    using slots_ok_scan [OF old] slots_ok_scan [OF new] by (simp_all add: dir_find_def)
  show "dir_find b' fin nm = dir_find b fin nm" if "lookup_slots b' nm mid' = lookup_slots b nm mid"
    using that pre post by (simp only: f lookup_slots_append)
  show "dir_find b' fin nm = Some (Some t)" if "lookup_slots b' nm mid' = Some (Some t)" "dir_find b fin nm = Some None"
    using that pre [of nm] by (auto simp: f lookup_slots_append split: option.splits)
qed

lemma dirent_at_sizes: "dirent_at b pos = Some (eino, rec, nlen, ft) \<Longrightarrow> rec < 2 ^ 16 \<and> nlen \<le> 255"
  using unat_bound [where ?'a = 16] unat_bound [where ?'a = 8] by (auto simp: dirent_at_def less_Suc_eq_le [symmetric])

lemma shorten_record:
  fixes r :: u16
  assumes "wr b (pos + 4) (to_le_bytes 2 r) = Some b'" "dirent_at b pos = Some (eino, rec, nlen, ft)"
  shows "dirent_at b' pos = Some (eino, unat r, nlen, ft)"
  using assms(2) rd_wr_other [OF assms(1), of pos 4] rd_wr_other [OF assms(1), of "pos + 6" 1] rd_wr_other [OF assms(1), of "pos + 7" 1]
    rd_wr_same [OF assms(1), of 2] by (auto simp: dirent_at_def le32_def le16_def)

lemma split_last:
  assumes parts: "slots_ok blk lp 0 pre" "slots_ok blk limit lp [(lp, eino, lr, nlen, ft0)]" and eino: "eino \<noteq> 0"
    and room: "round_dir_size nlen + round_dir_size (length name) \<le> lr" and name: "length name \<le> 255" and target: "target \<noteq> 0"
    and w: "wr blk (lp + 4) (to_le_bytes 2 (of_nat (round_dir_size nlen) :: u16)) = Some b1"
      "wr b1 (lp + round_dir_size nlen) (dirent_bytes (of_nat (lr - round_dir_size nlen)) target ft name) = Some blk'"
  shows "dir_ok blk' limit" "dir_find blk limit name = Some None \<Longrightarrow> dir_find blk' limit name = Some (Some target)"
    "nm \<noteq> name \<Longrightarrow> dir_find blk' limit nm = dir_find blk limit nm"
proof -
  let ?la = "round_dir_size nlen" and ?old = "[(lp, eino, lr, nlen, ft0)]"
  have sz: "8 + nlen \<le> ?la" "8 + length name \<le> lr - ?la" "?la \<le> lr" using room by (auto simp: round_dir_size_def)
  have lr: "limit = lp + lr" "lr < 2 ^ 16" and d: "dirent_at blk lp = Some (eino, lr, nlen, ft0)" using parts(2) dirent_at_sizes by auto
  have u: "unat (of_nat ?la :: u16) = ?la" "unat (of_nat (lr - ?la) :: u16) = lr - ?la"
    by (rule unat_of_nat_bounded, use lr(2) sz(3) in simp)+
  let ?new = "[(lp, eino, ?la, nlen, ft0), (lp + ?la, target, lr - ?la, length name, ft)]"
  have a2: "agree b1 blk' lp (lp + ?la)" "agree b1 blk' 0 lp" by (rule agree_wr [OF w(2)], simp)+
  have "dirent_at blk' lp = dirent_at b1 lp" by (rule dirent_at_agree) (rule agree_sub [OF a2(1)], use sz(1) in auto)
  then have d1: "dirent_at blk' lp = Some (eino, ?la, nlen, ft0)" using shorten_record [OF w(1) d] u(1) by simp
  have n1: "rd blk' (lp + 8) nlen = rd blk (lp + 8) nlen"
    using agreeD [OF a2(1), of "lp + 8" nlen] rd_wr_other [OF w(1), of "lp + 8" nlen] sz(1) by simp
  note fe = filled_entry [OF w(2) name, unfolded u(2)]
  have new: "slots_ok blk' limit lp ?new" using d1 fe sz room lr(1) by (auto simp: add.assoc)
  have "agree blk b1 0 lp" "agree blk b1 limit limit" by (rule agree_wr [OF w(1)], use sz lr(1) in simp)+
  moreover have "agree b1 blk' limit limit" by (rule agree_wr [OF w(2)]) (use sz lr(1) in \<open>unfold length_dirent_bytes, linarith\<close>)
  ultimately have ag: "agree blk blk' 0 lp" "agree blk blk' limit limit" using a2(2) by (auto intro: agree_trans)
  have nil: "slots_ok blk limit limit []" by simp
  note R = slots_replace [OF parts nil ag new]
  have f1: "lookup_slots blk' nm [(lp, eino, ?la, nlen, ft0)] = lookup_slots blk nm ?old" for nm
    using n1 by (cases "nlen = length nm") (simp_all cong: if_cong)
  have f2: "lookup_slots blk' nm [(lp + ?la, target, lr - ?la, length name, ft)] = Some (if nm = name then Some target else None)" for nm
    using fe(2) target by (cases "length name = length nm") auto
  have app: "?new = [(lp, eino, ?la, nlen, ft0)] @ [(lp + ?la, target, lr - ?la, length name, ft)]" by simp
  have l: "lookup_slots blk' nm ?new = Option.bind (lookup_slots blk nm ?old) (\<lambda>r. case r of
      None \<Rightarrow> Some (if nm = name then Some target else None) | Some x \<Rightarrow> Some (Some x))" for nm
    unfolding app lookup_slots_append f1 f2 ..
  show "dir_ok blk' limit" using R(1) by (auto simp: dir_ok_def)
  show "dir_find blk' limit name = Some (Some target)" if "dir_find blk limit name = Some None"
  proof (rule R(3) [OF _ that])
    have "slots_ok blk limit 0 (pre @ ?old)" using parts by (auto simp: slots_ok_append)
    from slots_ok_scan [OF this] that have "lookup_slots blk name (pre @ ?old) = Some None" by (simp add: dir_find_def)
    then have "lookup_slots blk name ?old = Some None" unfolding lookup_slots_append bind_eq_Some by (auto simp del: lookup_slots.simps split: option.splits)
    then show "lookup_slots blk' name ?new = Some (Some target)" unfolding l by simp
  qed
  show "dir_find blk' limit nm = dir_find blk limit nm" if "nm \<noteq> name"
    by (rule R(2), unfold l) (use that in \<open>auto simp del: lookup_slots.simps split: Option.bind_split option.split\<close>)
qed

text \<open>
  C21: Adding an entry to a directory block.  When the entry is placed in a well-formed block, in an unused record or in the slack of the last one,
  the block stays well formed and of the same length, the new name now leads to its inode, and every other name leads where it did.
\<close>

theorem place_entry_find:
  assumes dir: "dir_ok blk limit" and name: "length name \<le> 255" and target: "target \<noteq> 0"
    and p: "place_entry blk limit name target ft = Some (Some blk')"
  shows "dir_ok blk' limit \<and> length blk' = length blk \<and> (dir_find blk limit name = Some None \<longrightarrow> dir_find blk' limit name = Some (Some target)) \<and>
    (\<forall>nm. nm \<noteq> name \<longrightarrow> dir_find blk' limit nm = dir_find blk limit nm)"
proof -
  let ?need = "round_dir_size (length name)"
  have need: "8 + length name \<le> ?need" by (auto simp: round_dir_size_def)
  obtain slots where slots: "slots_ok blk limit 0 slots" using dir by (auto simp: dir_ok_def)
  note scan = slots_ok_scan [OF slots]
  show ?thesis
  proof (cases "find_slot ?need slots (0, 0, 0)")
    case (Inl pr)
    obtain pos rec where pr: "pr = (pos, rec)" by (cases pr)
    from find_slot_reuse [OF Inl [unfolded pr]] obtain pre nlen ft0 post where s: "slots = pre @ [(pos, 0, rec, nlen, ft0)] @ post" "?need \<le> rec" by auto
    have w: "wr blk pos (dirent_bytes (of_nat rec) target ft name) = Some blk'" using p scan Inl pr by (auto simp: place_entry_def fill_entry_wr)
    have parts: "slots_ok blk pos 0 pre" "slots_ok blk (pos + rec) pos [(pos, 0, rec, nlen, ft0)]" "slots_ok blk limit (pos + rec) post"
      using slots unfolding s by (auto simp: slots_ok_append)
    have "unat (of_nat rec :: u16) = rec" using parts(2) dirent_at_sizes by (intro unat_of_nat_bounded) auto
    then have new: "slots_ok blk' (pos + rec) pos [(pos, target, rec, length name, ft)]" 
      using filled_entry [OF w name] s(2) need by simp
    have ag: "agree blk blk' 0 pos" "agree blk blk' (pos + rec) limit" by (rule agree_wr [OF w], use s(2) need in simp)+
    note R = slots_replace [OF parts ag new]
    have "lookup_slots blk' nm [(pos, target, rec, length name, ft)] = Some (if nm = name then Some target else None)" for nm
      using filled_entry [OF w name] target by auto
    then show ?thesis using R wr_length [OF w] by (auto simp: dir_ok_def)
  next
    case (Inr r)
    obtain lp lr la where r: "r = (lp, lr, la)" by (cases r)
    have fits: "la + ?need \<le> lr" using p scan Inr r by (auto simp: place_entry_def split: if_splits)
    from find_slot_last [OF Inr] fits need r obtain pre eino nlen ft0 where s: "slots = pre @ [(lp, eino, lr, nlen, ft0)]"
      "la = (if eino = 0 then 0 else round_dir_size nlen)" "\<not> (eino = 0 \<and> ?need \<le> lr)" by auto
    then have e: "eino \<noteq> 0" "la = round_dir_size nlen" using fits by (auto split: if_splits)
    obtain b1 where w: "wr blk (lp + 4) (to_le_bytes 2 (of_nat la :: u16)) = Some b1" "wr b1 (lp + la) (dirent_bytes (of_nat (lr - la)) target ft name) = Some blk'"
      using p scan Inr r fits by (auto simp: place_entry_def fill_entry_wr put_le16_def split: if_splits)
    have parts: "slots_ok blk lp 0 pre" "slots_ok blk limit lp [(lp, eino, lr, nlen, ft0)]" using slots unfolding s(1) by (auto simp: slots_ok_append)
    from split_last [OF parts e(1) _ name target w [unfolded e(2)]] fits e(2) show ?thesis using wr_length [OF w(1)] wr_length [OF w(2)] by auto
  qed
qed

definition sample_dir :: "u8 list" where
  "sample_dir = dirent_bytes 12 2 2 [0x2E] @ replicate 3 0 @ dirent_bytes 52 2 2 [0x2E, 0x2E] @ replicate 42 0"

lemma sample_dir_entries: "dirent_at sample_dir 0 = Some (2, 12, 1, 2)" "dirent_at sample_dir 12 = Some (2, 52, 2, 2)"
  by (simp_all add: sample_dir_def dirent_bytes_def dirent_at_def le32_def le16_def rd_def)

lemma sample_dir_slots: "slots_ok sample_dir 64 0 [(0, 2, 12, 1, 2), (12, 2, 52, 2, 2)]"
  by (simp add: sample_dir_entries round_dir_size_def)

theorem place_entry_find_witness:
  "\<exists>blk. place_entry sample_dir 64 [0x61] 12 1 = Some (Some blk) \<and> dir_find blk 64 [0x61] = Some (Some 12) \<and> dir_find blk 64 [0x2E] = Some (Some 2)"
proof -
  have ok: "dir_ok sample_dir 64" using sample_dir_slots unfolding dir_ok_def by blast
  have sc: "dir_slots sample_dir 64 0 = Some [(0, 2, 12, 1, 2), (12, 2, 52, 2, 2)]" using slots_ok_scan [OF sample_dir_slots] by simp
  have rd: "rd sample_dir 8 (Suc 0) = Some [0x2E]" "rd sample_dir 20 2 = Some [0x2E, 0x2E]" by (simp_all add: sample_dir_def dirent_bytes_def rd_def)
  have f: "dir_find sample_dir 64 [0x61] = Some None" "dir_find sample_dir 64 [0x2E] = Some (Some 2)"
    by (simp_all add: dir_find_def sc rd)
  have "length sample_dir = 64" by (simp add: sample_dir_def)
  then obtain blk where blk: "place_entry sample_dir 64 [0x61] 12 1 = Some (Some blk)"
    by (auto simp: place_entry_def sc round_dir_size_def fill_entry_wr put_le16_def wr_def)
  show ?thesis using place_entry_find [OF ok _ _ blk] blk f by auto
qed

end
