(* ===== verification/Ext4_Content.thy ===== *)
theory Ext4_Content
  imports Ext4_Files
begin

text \<open>
  What a file contains.  For a file whose extents are in its inode the byte at position \<open>i\<close> is a byte of one of its blocks; reading and writing
  through the driver are reading and writing of these bytes.  The lemmas hold for any device with the contract of \<open>volume\<close> and say that the
  operations return, not only what they return.
\<close>

section \<open>Reading and writing the bytes\<close>

text \<open>The bytes of a file: holes read as zero.\<close>

definition file_byte :: "('d \<Rightarrow> nat \<Rightarrow> u8 list) \<Rightarrow> 'd Ext4 \<Rightarrow> (nat \<Rightarrow> u64 option) \<Rightarrow> nat \<Rightarrow> u8" where
  "file_byte store s phys i = (case phys (i div unat (fs_bs s)) of None \<Rightarrow> 0 | Some b \<Rightarrow> fs_block store s b ! (i mod unat (fs_bs s)))"

lemma file_byte_same: "fs_same store s s' \<Longrightarrow> file_byte store s' phys i = file_byte store s phys i"
  using fs_same_block [of store s s'] fs_same_fields [of store s s'] by (simp add: file_byte_def split: option.split)

lemma piece_index:
  assumes "piece bs cur left = (lb, in_off, count)" "0 < bs" "k < count"
  shows "(cur + k) div bs = lb" "(cur + k) mod bs = in_off + k" "in_off + count \<le> bs" "count \<le> left" "in_off + k < bs"
proof -
  have e: "lb = cur div bs" "in_off = cur mod bs" "count = min (bs - cur mod bs) left" using assms(1) by (auto simp: piece_def)
  have m: "cur mod bs < bs" using assms(2) by simp
  show lt: "in_off + k < bs" and "in_off + count \<le> bs" "count \<le> left" using e assms(3) m by auto
  have "cur + k = (in_off + k) + cur div bs * bs" unfolding e(2) by simp
  moreover have "((in_off + k) + cur div bs * bs) div bs = cur div bs" "((in_off + k) + cur div bs * bs) mod bs = in_off + k" using lt by simp_all
  ultimately show "(cur + k) div bs = lb" "(cur + k) mod bs = in_off + k" unfolding e(1) by metis+
qed

lemma piece_bounds:
  assumes "piece bs cur left = (lb, in_off, count)" "0 < bs" "0 < left"
  shows "in_off + count \<le> bs" "count \<le> left" "0 < count" "lb = cur div bs" "in_off < bs"
proof -
  have "cur mod bs < bs" using assms(2) by simp
  then show "in_off + count \<le> bs" "count \<le> left" "0 < count" "lb = cur div bs" "in_off < bs" using assms by (auto simp: piece_def min_def)
qed

context volume
begin

lemma length_block: "fs_ok D ok s \<Longrightarrow> length (fs_block store s b) = unat (fs_bs s)"
  using bs_spb [of s] length_load_sectors [of "store (fs_dev s)"] sector_length [of "fs_dev s"] by (simp add: fs_ok_def fs_block_def)

lemma read_piece:
  assumes ok: "fs_ok D ok s" and disk: "unat b * spb s + spb s \<le> count" and p: "in_off + n \<le> unat (fs_bs s)" "dn + n \<le> length buf"
  shows "\<exists>x s' buf'. read_fsb b zero_block s = Some (Inr x, s') \<and> fs_ok D ok s' \<and> fs_same store s s' \<and>
    Option.bind (rd x in_off n) (wr buf dn) = Some buf' \<and> length buf' = length buf \<and>
    (\<forall>j<length buf. buf' ! j = (if dn \<le> j \<and> j < dn + n then fs_block store s b ! (in_off + (j - dn)) else buf ! j))"
proof -
  have z: "unat (fs_bs s) \<le> length zero_block" using ok zero_block_fits [of s] by (simp add: fs_ok_def)
  let ?x = "fs_block store s b @ drop (unat (fs_bs s)) zero_block"
  from read_fsb_total [OF ok disk z] obtain s' where s': "read_fsb b zero_block s = Some (Inr ?x, s')" "fs_ok D ok s'" "fs_same store s s'" by auto
  note l = length_block [OF ok, of b]
  have r: "rd ?x in_off n = Some (take n (drop in_off (fs_block store s b)))" using l p(1) z by (simp add: rd_def)
  obtain buf' where w: "wr buf dn (take n (drop in_off (fs_block store s b))) = Some buf'" using p l by (simp add: wr_def)
  have "buf' ! j = (if dn \<le> j \<and> j < dn + n then fs_block store s b ! (in_off + (j - dn)) else buf ! j)" if "j < length buf" for j
    using wr_nth [OF w that] l p(1) by auto
  then show ?thesis using s' r w wr_length [OF w] by auto
qed

lemma read_loop_total:
  assumes maps: "\<And>lb t. lb < 2 ^ 32 \<Longrightarrow> map_block n (of_nat lb) t = Some (Inr (phys lb), (t :: 'd Ext4))" and bs: "bs = unat (fs_bs s)"
    and small: "offset + tk \<le> 2 ^ 32 * bs"
    and disk: "\<And>lb b. phys lb = Some b \<Longrightarrow> unat b * spb s + spb s \<le> count"
    and ok: "fs_ok D ok s" and len: "dn \<le> tk" "tk \<le> length buf"
  shows "\<exists>buf' s'. read_loop bs n offset tk dn buf s = Some (Inr buf', s') \<and> fs_ok D ok s' \<and> fs_same store s s' \<and> length buf' = length buf \<and>
    (\<forall>j<length buf. buf' ! j = (if dn \<le> j \<and> j < tk then file_byte store s phys (offset + j) else buf ! j))"
  using bs disk ok len
proof (induction "tk - dn" arbitrary: dn buf s rule: less_induct)
  case less
  show ?case
  proof (cases "tk \<le> dn")
    case True
    then show ?thesis using less.prems by (subst read_loop.simps) auto
  next
    case False
    obtain lb in_off k where pc: "piece bs (offset + dn) (tk - dn) = (lb, in_off, k)" by (cases "piece bs (offset + dn) (tk - dn)")
    have bs0: "0 < bs" using less.prems(1,3) bs_spb [of s] by (auto simp: fs_ok_def)
    note pb = piece_bounds [OF pc bs0] and pi = piece_index [OF pc bs0]
    have "offset + dn < 2 ^ 32 * bs" using small False by linarith
    then have lb: "lb < 2 ^ 32" using pb(4) False by (simp add: less_mult_imp_div_less)
    note maps = maps [OF lb]
    have step: "\<exists>buf1 s1. read_loop bs n offset tk dn buf s = read_loop bs n offset tk (dn + k) buf1 s1 \<and> fs_ok D ok s1 \<and> fs_same store s s1 \<and>
      length buf1 = length buf \<and> (\<forall>j<length buf. buf1 ! j = (if dn \<le> j \<and> j < dn + k then file_byte store s phys (offset + j) else buf ! j))"
    proof (cases "phys lb")
      case None
      have "dn + length (replicate k (0 :: u8)) \<le> length buf" using pb(2) False less.prems(5) by simp
      then obtain buf1 where w: "wr buf dn (replicate k 0) = Some buf1" by (meson wr_Some)
      have "read_loop bs n offset tk dn buf s = read_loop bs n offset tk (dn + k) buf1 s"
        using False bs0 pc maps None w by (subst read_loop.simps) (simp add: then_fs_def)
      moreover have "file_byte store s phys (offset + j) = 0" if "dn \<le> j" "j < dn + k" for j
        using pi(1) [of "j - dn"] that None less.prems(1) by (simp add: file_byte_def)
      ultimately show ?thesis using less.prems(3) wr_length [OF w] wr_nth [OF w] by (intro exI [of _ buf1] exI [of _ s]) auto
    next
      case (Some b)
      have fit: "in_off + k \<le> unat (fs_bs s)" "dn + k \<le> length buf" using pb False less.prems(1,5) by auto
      from read_piece [OF less.prems(3) less.prems(2) [OF Some] fit] obtain x s1 buf1 where r: "read_fsb b zero_block s = Some (Inr x, s1)"
        "fs_ok D ok s1" "fs_same store s s1" "Option.bind (rd x in_off k) (wr buf dn) = Some buf1" "length buf1 = length buf"
        "\<forall>j<length buf. buf1 ! j = (if dn \<le> j \<and> j < dn + k then fs_block store s b ! (in_off + (j - dn)) else buf ! j)" by blast
      have "read_loop bs n offset tk dn buf s = read_loop bs n offset tk (dn + k) buf1 s1"
        using False bs0 pc maps Some r(1,4) by (subst read_loop.simps) (simp add: then_fs_def del: bind_eq_Some)
      moreover have "file_byte store s phys (offset + j) = fs_block store s b ! (in_off + (j - dn))" if "dn \<le> j" "j < dn + k" for j
        using pi(1,2) [of "j - dn"] that Some less.prems(1) by (simp add: file_byte_def)
      ultimately show ?thesis using r by (intro exI [of _ buf1] exI [of _ s1]) auto
    qed
    then obtain buf1 s1 where s1: "read_loop bs n offset tk dn buf s = read_loop bs n offset tk (dn + k) buf1 s1" "fs_ok D ok s1" "fs_same store s s1"
      "length buf1 = length buf" "\<forall>j<length buf. buf1 ! j = (if dn \<le> j \<and> j < dn + k then file_byte store s phys (offset + j) else buf ! j)" by blast
    have "\<exists>buf' s'. read_loop bs n offset tk (dn + k) buf1 s1 = Some (Inr buf', s') \<and> fs_ok D ok s' \<and> fs_same store s1 s' \<and> length buf' = length buf1 \<and>
      (\<forall>j<length buf1. buf' ! j = (if dn + k \<le> j \<and> j < tk then file_byte store s1 phys (offset + j) else buf1 ! j))"
      by (rule less.hyps) (use pb False less.prems fs_same_fields [OF s1(3)] s1 in \<open>auto simp: spb_def\<close>)
    then show ?thesis using s1 fs_same_trans [OF s1(3)] file_byte_same [OF s1(3)] pb(2) False by fastforce
  qed
qed
lemma write_piece:
  assumes ok: "fs_ok D ok s" and disk: "unat b * spb s + spb s \<le> count" and p: "in_off + n \<le> unat (fs_bs s)" "dn + n \<le> length buf"
  shows "\<exists>x s1 y s'. read_fsb b zero_block s = Some (Inr x, s1) \<and> Option.bind (rd buf dn n) (wr x in_off) = Some y \<and>
    write_fsb b y s1 = Some (Inr (), s') \<and> fs_ok D ok s' \<and> (\<exists>blk. fs_wrote store s b blk s' \<and> length blk = unat (fs_bs s) \<and>
    (\<forall>j<unat (fs_bs s). blk ! j = (if in_off \<le> j \<and> j < in_off + n then buf ! (dn + (j - in_off)) else fs_block store s b ! j)))"
proof -
  have z: "unat (fs_bs s) \<le> length zero_block" using ok zero_block_fits [of s] by (simp add: fs_ok_def)
  let ?x = "fs_block store s b @ drop (unat (fs_bs s)) zero_block"
  from read_fsb_total [OF ok disk z] obtain s1 where s1: "read_fsb b zero_block s = Some (Inr ?x, s1)" "fs_ok D ok s1" "fs_same store s s1" by auto
  note l = length_block [OF ok, of b]
  have r: "rd buf dn n = Some (take n (drop dn buf))" using p(2) by (simp add: rd_def)
  have "in_off + length (take n (drop dn buf)) \<le> length ?x" using p l by simp
  then obtain y where w: "wr ?x in_off (take n (drop dn buf)) = Some y" by (meson wr_Some)
  have ly: "length y = length ?x" using wr_length [OF w] .
  have eq: "fs_bs s1 = fs_bs s" "spb s1 = spb s" using fs_same_fields [OF s1(3)] by (simp_all add: spb_def)
  from write_fsb_total [OF s1(2), of b y] disk ly l eq obtain s' where s': "write_fsb b y s1 = Some (Inr (), s')" "fs_ok D ok s'"
    "fs_wrote store s1 b (take (unat (fs_bs s)) y) s'" by auto
  have "take (unat (fs_bs s)) y ! j = (if in_off \<le> j \<and> j < in_off + n then buf ! (dn + (j - in_off)) else fs_block store s b ! j)"
    if "j < unat (fs_bs s)" for j using wr_nth [OF w, of j] that l p(2) by (auto simp: nth_append)
  moreover have "length (take (unat (fs_bs s)) y) = unat (fs_bs s)" using ly l by simp
  ultimately show ?thesis using s1(1) r w s' fs_same_wrote [OF s1(3) s'(3)] by (intro exI [of _ ?x] exI [of _ s1] exI [of _ y] exI [of _ s']) auto
qed

lemma wrote_file_byte:
  assumes w: "fs_wrote store s b blk s'" "length blk = unat (fs_bs s)"
      "\<forall>j<unat (fs_bs s). blk ! j = (if in_off \<le> j \<and> j < in_off + n then buf ! (dn + (j - in_off)) else fs_block store s b ! j)"
    and pc: "piece (unat (fs_bs s)) (offset + dn) left = (lb, in_off, n)" "0 < unat (fs_bs s)"
    and phys: "phys lb = Some b" "\<And>lb'. phys lb' = Some b \<Longrightarrow> lb' = lb"
  shows "file_byte store s' phys i = (if offset + dn \<le> i \<and> i < offset + dn + n then buf ! (i - offset) else file_byte store s phys i)"
proof -
  let ?bs = "unat (fs_bs s)"
  have bs: "fs_bs s' = fs_bs s" using w(1) by (auto simp: fs_wrote_def)
  have cur: "offset + dn = lb * ?bs + in_off" using pc(1) by (auto simp: piece_def)
  show ?thesis
  proof (cases "i div ?bs = lb")
    case True
    then have i: "i = lb * ?bs + i mod ?bs" using div_mult_mod_eq [of i ?bs] by metis
    have "offset + dn \<le> i \<and> i < offset + dn + n \<longleftrightarrow> in_off \<le> i mod ?bs \<and> i mod ?bs < in_off + n" using cur i by linarith
    moreover have "dn + (i mod ?bs - in_off) = i - offset" if "in_off \<le> i mod ?bs" using cur i that by linarith
    moreover have "i mod ?bs < ?bs" using pc(2) by simp
    ultimately show ?thesis using True phys(1) w bs by (auto simp: file_byte_def fs_wrote_def)
  next
    case False
    have "\<not> (offset + dn \<le> i \<and> i < offset + dn + n)"
    proof
      assume a: "offset + dn \<le> i \<and> i < offset + dn + n"
      then have "i - (offset + dn) < n" by linarith
      from piece_index(1) [OF pc this] show False using False a by simp
    qed
    moreover have "phys (i div ?bs) \<noteq> Some b" using False phys(2) by blast
    ultimately show ?thesis using w(1) bs by (auto simp: file_byte_def fs_wrote_def split: option.split)
  qed
qed

lemma write_loop_total:
  assumes maps: "\<And>lb t. lb < 2 ^ 32 \<Longrightarrow> map_block n (of_nat lb) t = Some (Inr (phys lb), (t :: 'd Ext4))" and bs: "bs = unat (fs_bs s)"
    and small: "offset + length buf \<le> 2 ^ 32 * bs" and inj: "\<And>lb lb' b. phys lb = Some b \<Longrightarrow> phys lb' = Some b \<Longrightarrow> lb = lb'"
    and mapped: "\<And>i. i < length buf \<Longrightarrow> phys ((offset + i) div bs) \<noteq> None"
    and disk: "\<And>lb b. phys lb = Some b \<Longrightarrow> unat b * spb s + spb s \<le> count"
    and ok: "fs_ok D ok s" and len: "dn \<le> length buf"
  shows "\<exists>s'. write_loop bs n offset buf dn s = Some (Inr n, s') \<and> fs_ok D ok s' \<and> (\<exists>d. s' = s\<lparr>fs_dev := d\<rparr>) \<and>
    (\<forall>i. file_byte store s' phys i = (if offset + dn \<le> i \<and> i < offset + length buf then buf ! (i - offset) else file_byte store s phys i)) \<and>
    (\<forall>b. (\<forall>lb. phys lb \<noteq> Some b) \<longrightarrow> fs_block store s' b = fs_block store s b)"
  using bs disk ok len
proof (induction "length buf - dn" arbitrary: dn s rule: less_induct)
  case less
  show ?case
  proof (cases "length buf \<le> dn")
    case True
    then show ?thesis using less.prems by (subst write_loop.simps) (auto intro: exI [of _ "fs_dev s"])
  next
    case False
    obtain lb in_off k where pc: "piece bs (offset + dn) (length buf - dn) = (lb, in_off, k)" by (cases "piece bs (offset + dn) (length buf - dn)")
    have bs0: "0 < bs" using less.prems(1,3) bs_spb [of s] by (auto simp: fs_ok_def)
    note pb = piece_bounds [OF pc bs0]
    have "offset + dn < 2 ^ 32 * bs" using small False by linarith
    then have lb: "lb < 2 ^ 32" using pb(4) False by (simp add: less_mult_imp_div_less)
    obtain b where b: "phys lb = Some b" using mapped [of dn] False pb(4) by auto
    have fit: "in_off + k \<le> unat (fs_bs s)" "dn + k \<le> length buf" using pb False less.prems(1) by auto
    from write_piece [OF less.prems(3) less.prems(2) [OF b] fit] obtain x s1 y s' blk where w: "read_fsb b zero_block s = Some (Inr x, s1)"
      "Option.bind (rd buf dn k) (wr x in_off) = Some y" "write_fsb b y s1 = Some (Inr (), s')" "fs_ok D ok s'" "fs_wrote store s b blk s'"
      "length blk = unat (fs_bs s)" "\<forall>j<unat (fs_bs s). blk ! j = (if in_off \<le> j \<and> j < in_off + k then buf ! (dn + (j - in_off)) else fs_block store s b ! j)" by blast
    have one: "write_loop bs n offset buf dn s = write_loop bs n offset buf (dn + k) s'"
      using False bs0 pc maps [OF lb] b w(1-3) by (subst write_loop.simps) (simp add: then_fs_def block_for_write_def del: bind_eq_Some)
    have fb: "file_byte store s' phys i = (if offset + dn \<le> i \<and> i < offset + dn + k then buf ! (i - offset) else file_byte store s phys i)" for i
      by (rule wrote_file_byte [OF w(5-7) pc [unfolded less.prems(1)] bs0 [unfolded less.prems(1)]]) (use inj b in blast)+
    obtain d where d: "s' = s\<lparr>fs_dev := d\<rparr>" using w(5) by (auto simp: fs_wrote_def)
    have IH: "\<exists>s''. write_loop bs n offset buf (dn + k) s' = Some (Inr n, s'') \<and> fs_ok D ok s'' \<and> (\<exists>d. s'' = s'\<lparr>fs_dev := d\<rparr>) \<and>
      (\<forall>i. file_byte store s'' phys i = (if offset + (dn + k) \<le> i \<and> i < offset + length buf then buf ! (i - offset) else file_byte store s' phys i)) \<and>
      (\<forall>b. (\<forall>lb. phys lb \<noteq> Some b) \<longrightarrow> fs_block store s'' b = fs_block store s' b)"
      by (rule less.hyps) (use pb False less.prems d w(4) fit in auto)
    have same: "fs_block store s' c = fs_block store s c" if "\<forall>lb. phys lb \<noteq> Some c" for c using w(5) b that by (auto simp: fs_wrote_def)
    from IH obtain s'' where s'': "write_loop bs n offset buf (dn + k) s' = Some (Inr n, s'')" "fs_ok D ok s''" "\<exists>d. s'' = s'\<lparr>fs_dev := d\<rparr>"
      "\<forall>i. file_byte store s'' phys i = (if offset + (dn + k) \<le> i \<and> i < offset + length buf then buf ! (i - offset) else file_byte store s' phys i)"
      "\<forall>b. (\<forall>lb. phys lb \<noteq> Some b) \<longrightarrow> fs_block store s'' b = fs_block store s' b" by blast
    have "file_byte store s'' phys i = (if offset + dn \<le> i \<and> i < offset + length buf then buf ! (i - offset) else file_byte store s phys i)" for i
      using s''(4) fb [of i] fit(2) by auto
    then show ?thesis using one s''(1-3,5) same d by (intro exI [of _ s'']) auto
  qed
qed

end

section \<open>The record of an inode\<close>

lemma wr_spec:
  assumes "off + length v \<le> length b"
  shows "\<exists>b'. wr b off v = Some b' \<and> length b' = length b \<and> rd b' off (length v) = Some v \<and>
    (\<forall>o2 m. o2 + m \<le> off \<or> off + length v \<le> o2 \<longrightarrow> rd b' o2 m = rd b o2 m)"
proof -
  obtain b' where w: "wr b off v = Some b'" using assms by (meson wr_Some)
  then show ?thesis using wr_length [OF w] rd_wr_same [OF w refl] rd_wr_other [OF w] by auto
qed

lemma rd_ok: "off + n \<le> length b \<Longrightarrow> \<exists>x. rd b off n = Some x" by (simp add: rd_def)

text \<open>The fields an inode's record holds, and the tree root left alone.\<close>

definition stamped :: "'d Ext4 \<Rightarrow> Inode \<Rightarrow> u8 list \<Rightarrow> bool" where
  "stamped s n raw \<longleftrightarrow> length raw = MAX_INODE_SIZE \<and> le16 raw INO_MODE = Some (i_mode n) \<and> le32 raw INO_SIZE_LO = Some (ucast (i_size n)) \<and>
     le32 raw INO_BLOCKS_LO = Some (ucast (i_blocks n)) \<and> le32 raw INO_FLAGS = Some (i_flags n) \<and>
     (fs_has_64bit s \<longrightarrow> le32 raw INO_SIZE_HIGH = Some (ucast (drop_bit 32 (i_size n))) \<and> le32 raw INO_BLOCKS_HIGH = Some (ucast (drop_bit 32 (i_blocks n)))) \<and>
     rd raw INO_IBLOCK 60 = rd (i_raw n) INO_IBLOCK 60"

lemmas ino_offsets = INO_MODE_def INO_SIZE_LO_def INO_SIZE_HIGH_def INO_BLOCKS_LO_def INO_BLOCKS_HIGH_def INO_FLAGS_def INO_IBLOCK_def
  INO_GENERATION_def INO_EXTRA_ISIZE_def INO_CHECKSUM_LO_def INO_CHECKSUM_HI_def MAX_INODE_SIZE_def GOOD_OLD_INODE_SIZE_def

lemma inode_csum_ok:
  assumes len: "length raw = MAX_INODE_SIZE" and wf: "fs_wf s" and sz: "fs_inode_size s = 128 \<or> 132 \<le> fs_inode_size s"
  shows "\<exists>raw'. inode_csum s ino raw = Some raw' \<and> length raw' = length raw \<and>
    (\<forall>o2 m. o2 + m \<le> INO_CHECKSUM_LO \<or> INO_CHECKSUM_LO + 2 \<le> o2 \<and> o2 + m \<le> INO_CHECKSUM_HI \<longrightarrow> rd raw' o2 m = rd raw o2 m)"
proof -
  have z: "unat (fs_inode_size s) \<le> 256" "unat (fs_inode_size s) = 128 \<or> 132 \<le> unat (fs_inode_size s)"
    using wf sz by (auto simp: fs_wf_def word_le_nat_alt)
  obtain gen where gen: "le32 raw INO_GENERATION = Some gen" using len rd_ok [of INO_GENERATION 4 raw] by (auto simp: le32_def ino_offsets)
  obtain extra where extra: "le16 raw INO_EXTRA_ISIZE = Some extra" using len rd_ok [of INO_EXTRA_ISIZE 2 raw] by (auto simp: le16_def ino_offsets)
  obtain mid where mid: "rd raw (INO_CHECKSUM_LO + 2) (GOOD_OLD_INODE_SIZE - (INO_CHECKSUM_LO + 2)) = Some mid"
    using len rd_ok [of 126 2 raw] by (auto simp: ino_offsets)
  let ?fits = "unat (fs_inode_size s) > GOOD_OLD_INODE_SIZE \<and> unat extra \<ge> 4"
  have ex: "\<exists>csum. (if unat (fs_inode_size s) > GOOD_OLD_INODE_SIZE then do {
         m \<leftarrow> rd raw GOOD_OLD_INODE_SIZE (INO_CHECKSUM_HI - GOOD_OLD_INODE_SIZE);
         let csum = crc32c c m;
         let csum = (if ?fits then crc32c csum [0, 0] else csum);
         let tail = (if ?fits then INO_CHECKSUM_HI + 2 else INO_CHECKSUM_HI);
         if unat (fs_inode_size s) < tail then None
         else do { t \<leftarrow> rd raw tail (unat (fs_inode_size s) - tail); Some (crc32c csum t) }
       } else Some c) = Some csum" for c
    using z len by (auto simp: rd_def ino_offsets Let_def)
  define c where "c = crc32c (crc32c (crc32c (crc32c (crc32c (fs_csum_seed s) (to_le_bytes 4 ino)) (to_le_bytes 4 gen)) (take INO_CHECKSUM_LO raw)) [0, 0]) mid"
  from ex [of c] obtain csum where cs: "(if unat (fs_inode_size s) > GOOD_OLD_INODE_SIZE then do {
         m \<leftarrow> rd raw GOOD_OLD_INODE_SIZE (INO_CHECKSUM_HI - GOOD_OLD_INODE_SIZE);
         let csum = crc32c c m;
         let csum = (if ?fits then crc32c csum [0, 0] else csum);
         let tail = (if ?fits then INO_CHECKSUM_HI + 2 else INO_CHECKSUM_HI);
         if unat (fs_inode_size s) < tail then None
         else do { t \<leftarrow> rd raw tail (unat (fs_inode_size s) - tail); Some (crc32c csum t) }
       } else Some c) = Some csum" by blast
  have eq: "inode_csum s ino raw = do {
      raw \<leftarrow> put_le16 raw INO_CHECKSUM_LO (ucast csum);
      if ?fits then put_le16 raw INO_CHECKSUM_HI (ucast (drop_bit 16 csum)) else Some raw }"
    unfolding inode_csum_def gen extra mid Option.bind_lunit Let_def c_def [symmetric] using cs [unfolded Let_def] by simp
  obtain r1 where r1: "wr raw INO_CHECKSUM_LO (to_le_bytes 2 (ucast csum :: u16)) = Some r1" "length r1 = length raw"
    "\<forall>o2 m. o2 + m \<le> INO_CHECKSUM_LO \<or> INO_CHECKSUM_LO + 2 \<le> o2 \<longrightarrow> rd r1 o2 m = rd raw o2 m"
    using wr_spec [of INO_CHECKSUM_LO "to_le_bytes 2 (ucast csum :: u16)" raw] len by (auto simp: ino_offsets)
  obtain r2 where r2: "wr r1 INO_CHECKSUM_HI (to_le_bytes 2 (ucast (drop_bit 16 csum) :: u16)) = Some r2" "length r2 = length raw"
    "\<forall>o2 m. o2 + m \<le> INO_CHECKSUM_HI \<or> INO_CHECKSUM_HI + 2 \<le> o2 \<longrightarrow> rd r2 o2 m = rd r1 o2 m"
    using wr_spec [of INO_CHECKSUM_HI "to_le_bytes 2 (ucast (drop_bit 16 csum) :: u16)" r1] len r1(2) by (auto simp: ino_offsets)
  have "INO_CHECKSUM_LO \<le> INO_CHECKSUM_HI" by (simp add: ino_offsets)
  then show ?thesis unfolding eq put_le16_def using r1 r2 by (cases ?fits) auto
qed

lemma stamp_inode_ok:
  assumes len: "length (i_raw n) = MAX_INODE_SIZE" and wf: "fs_wf s" and sz: "fs_inode_size s = 128 \<or> 132 \<le> fs_inode_size s"
  shows "\<exists>raw. stamp_inode s n = Some raw \<and> stamped s n raw"
proof -
  let ?w = "\<lambda>b off v b'. wr b off v = Some b' \<and> length b' = 256 \<and> rd b' off (length v) = Some v \<and> (\<forall>o2 m. o2 + m \<le> off \<or> off + length v \<le> o2 \<longrightarrow> rd b' o2 m = rd b o2 m)"
  have W: "\<exists>b'. ?w b off v b'" if "length b = 256" "off + length v \<le> 256" for b off v using wr_spec [of off v b] that by simp
  have l0: "length (i_raw n) = 256" using len by (simp add: ino_offsets)
  obtain r1 where r1: "?w (i_raw n) 0 (to_le_bytes 2 (i_mode n)) r1" using W [OF l0, of 0 "to_le_bytes 2 (i_mode n)"] by auto
  obtain r2 where r2: "?w r1 4 (to_le_bytes 4 (ucast (i_size n) :: u32)) r2" using W [of r1 4 "to_le_bytes 4 (ucast (i_size n) :: u32)"] r1 by auto
  obtain r3 where r3: "?w r2 28 (to_le_bytes 4 (ucast (i_blocks n) :: u32)) r3" using W [of r2 28 "to_le_bytes 4 (ucast (i_blocks n) :: u32)"] r2 by auto
  obtain r4 where r4: "?w r3 32 (to_le_bytes 4 (i_flags n)) r4" using W [of r3 32 "to_le_bytes 4 (i_flags n)"] r3 by auto
  obtain r5 where r5: "?w r4 108 (to_le_bytes 4 (ucast (drop_bit 32 (i_size n)) :: u32)) r5" using W [of r4 108 "to_le_bytes 4 (ucast (drop_bit 32 (i_size n)) :: u32)"] r4 by auto
  obtain r6 where r6: "?w r5 116 (to_le_bytes 4 (ucast (drop_bit 32 (i_blocks n)) :: u32)) r6" using W [of r5 116 "to_le_bytes 4 (ucast (drop_bit 32 (i_blocks n)) :: u32)"] r5 by auto
  let ?r = "if fs_has_64bit s then r6 else r4"
  have base: "stamped s n ?r"
    using r1 r2 r3 r4 r5 r6 by (auto simp: stamped_def le16_def le32_def ino_offsets)
  have st: "stamp_inode s n = (if fs_meta_csum s then inode_csum s (i_ino n) ?r else Some ?r)"
    using r1 r2 r3 r4 r5 r6 by (auto simp: stamp_inode_def put_le16_def put_le32_def ino_offsets)
  show ?thesis
  proof (cases "fs_meta_csum s")
    case True
    have "length ?r = MAX_INODE_SIZE" using r4 r6 by (simp add: ino_offsets)
    from inode_csum_ok [OF this wf sz] obtain raw' where raw': "inode_csum s (i_ino n) ?r = Some raw'" "length raw' = length ?r"
      "\<forall>o2 m. o2 + m \<le> INO_CHECKSUM_LO \<or> INO_CHECKSUM_LO + 2 \<le> o2 \<and> o2 + m \<le> INO_CHECKSUM_HI \<longrightarrow> rd raw' o2 m = rd ?r o2 m" by blast
    have "rd raw' o2 m = rd ?r o2 m" if "o2 + m \<le> 124" for o2 m using raw'(3) that by (simp add: ino_offsets)
    then have "stamped s n raw'" using base raw'(2) by (auto simp: stamped_def le16_def le32_def ino_offsets)
    then show ?thesis using st True raw'(1) by auto
  qed (use st base in auto)
qed

lemma join_halves: "ucast (ucast w :: u32) OR push_bit 32 (ucast (ucast (drop_bit 32 w) :: u32)) = w" for w :: u64
  by (rule bit_word_eqI) (auto simp: bit_simps)

lemma low_half: "w < 2 ^ 32 \<Longrightarrow> ucast (ucast w :: u32) = w" for w :: u64
  using bit_less_exp [of w 32] by (intro bit_word_eqI) (auto simp: bit_simps)

text \<open>What reading an inode back gives: the same fields and the same tree root.\<close>

definition same_inode :: "Inode \<Rightarrow> Inode \<Rightarrow> bool" where
  "same_inode n n' \<longleftrightarrow> i_ino n' = i_ino n \<and> i_mode n' = i_mode n \<and> i_size n' = i_size n \<and> i_blocks n' = i_blocks n \<and> i_flags n' = i_flags n \<and>
     length (i_raw n') = MAX_INODE_SIZE \<and> rd (i_raw n') INO_IBLOCK 60 = rd (i_raw n) INO_IBLOCK 60"

lemma parse_stamped:
  assumes st: "stamped s n raw" and wf: "fs_wf s" and sz: "fs_has_64bit s \<or> i_size n < 2 ^ 32 \<and> i_blocks n < 2 ^ 32"
  shows "\<exists>n'. parse_inode s (i_ino n) (take (unat (fs_inode_size s)) raw) = Some n' \<and> same_inode n n'"
proof -
  let ?z = "unat (fs_inode_size s)" let ?x = "take ?z raw"
  have z: "128 \<le> ?z" "?z \<le> 256" using wf by (auto simp: fs_wf_def word_le_nat_alt)
  have l: "length raw = 256" using st by (simp add: stamped_def ino_offsets)
  have "rd raw 0 ?z = Some ?x" using l z by (simp add: rd_def)
  note s = rd_rd [OF this]
  have f: "le16 ?x k = le16 raw k" if "k + 2 \<le> 128" for k using s [of k 2] that z by (simp add: le16_def)
  have g: "le32 ?x k = le32 raw k" if "k + 4 \<le> 128" for k using s [of k 4] that z by (simp add: le32_def)
  obtain h1 h2 where h: "le32 raw INO_SIZE_HIGH = Some h1" "le32 raw INO_BLOCKS_HIGH = Some h2"
    using l rd_ok [of INO_SIZE_HIGH 4 raw] rd_ok [of INO_BLOCKS_HIGH 4 raw] by (auto simp: le32_def ino_offsets)
  have "rd (?x @ replicate (256 - ?z) 0) 40 60 = rd ?x 40 60" using z l by (simp add: rd_def)
  then have r: "rd (?x @ replicate (256 - ?z) 0) 40 60 = rd raw 40 60" using s [of 40 60] z by simp
  show ?thesis using st sz f g h l z r join_halves [of "i_size n"] join_halves [of "i_blocks n"] low_half [of "i_size n"] low_half [of "i_blocks n"]
    by (auto simp: parse_inode_def stamped_def same_inode_def ino_offsets)
qed

text \<open>Where an inode is: the block of its group's descriptor and the block and offset of its record.\<close>

definition inode_here :: "('d \<Rightarrow> nat \<Rightarrow> u8 list) \<Rightarrow> nat \<Rightarrow> 'd Ext4 \<Rightarrow> u32 \<Rightarrow> u64 \<Rightarrow> u64 \<Rightarrow> nat \<Rightarrow> bool" where
  "inode_here store count s ino gb block off \<longleftrightarrow> ino \<noteq> 0 \<and>
     (\<exists>go table a b byte. let grp = (ino - 1) div fs_ipg s; index = (ino - 1) mod fs_ipg s in grp < fs_num_groups s \<and> group_place s grp = Some (gb, go) \<and>
       itable_at store s grp = Some table \<and> cmul table (ucast (fs_bs s)) = Some a \<and> cmul (ucast index) (ucast (fs_inode_size s)) = Some b \<and>
       cadd a b = Some byte \<and> block = byte div ucast (fs_bs s) \<and> off = unat (byte mod ucast (fs_bs s))) \<and>
     unat gb * spb s + spb s \<le> count \<and> unat block * spb s + spb s \<le> count \<and> off + unat (fs_inode_size s) \<le> unat (fs_bs s) \<and> gb \<noteq> block"

lemma inode_here_frame:
  assumes "inode_here store count s ino gb block off" "s' = s\<lparr>fs_dev := d\<rparr>" "fs_block store s' gb = fs_block store s gb"
  shows "inode_here store count s' ino gb block off"
proof -
  have "gdesc store s' grp = gdesc store s grp" if "group_place s grp = Some (gb, go)" for grp go using that assms(2,3) by (simp add: gdesc_def)
  then have "itable_at store s' grp = itable_at store s grp" if "group_place s grp = Some (gb, go)" for grp go using that assms(2) by (simp add: itable_at_def)
  then show ?thesis using assms(1,2) unfolding inode_here_def Let_def by (auto simp: assms(2))
qed

context volume
begin

lemma group_slice_total:
  assumes ok: "fs_ok D ok s" and g: "grp < fs_num_groups s" "group_place s grp = Some (gb, go)" "gdesc store s grp = Some gd" "unat gb * spb s + spb s \<le> count"
  shows "\<exists>s'. group_slice grp s = Some (Inr gd, s') \<and> fs_ok D ok s' \<and> fs_same store s s'"
proof -
  have z: "unat (fs_bs s) \<le> length zero_block" using ok zero_block_fits [of s] by (simp add: fs_ok_def)
  from read_fsb_total [OF ok g(4) z] obtain s' where s': "read_fsb gb zero_block s = Some (Inr (fs_block store s gb @ drop (unat (fs_bs s)) zero_block), s')"
    "fs_ok D ok s'" "fs_same store s s'" by auto
  have "fs_desc_size s' = fs_desc_size s" using s'(3) by (auto simp: fs_same_def)
  then show ?thesis using s' g(1-3) by (auto simp: group_slice_def group_descriptor_def then_fs_def gdesc_def)
qed

lemma inode_location_total:
  assumes ok: "fs_ok D ok s" and here: "inode_here store count s ino gb block off"
  shows "\<exists>grp s'. inode_location ino s = Some (Inr (block, off, grp), s') \<and> fs_ok D ok s' \<and> fs_same store s s'"
proof -
  let ?grp = "(ino - 1) div fs_ipg s"
  from here obtain go table a b byte gd where h: "ino \<noteq> 0" "?grp < fs_num_groups s" "group_place s ?grp = Some (gb, go)" "gdesc store s ?grp = Some gd"
    "gd_u32 s gd GD_INODE_TABLE_LO GD_INODE_TABLE_HI = Some table" "cmul table (ucast (fs_bs s)) = Some a"
    "cmul (ucast ((ino - 1) mod fs_ipg s)) (ucast (fs_inode_size s)) = Some b" "cadd a b = Some byte" "block = byte div ucast (fs_bs s)"
    "off = unat (byte mod ucast (fs_bs s))" "unat gb * spb s + spb s \<le> count" unfolding inode_here_def Let_def itable_at_def by auto
  from group_slice_total [OF ok h(2-4,11)] obtain s' where s': "group_slice ?grp s = Some (Inr gd, s')" "fs_ok D ok s'" "fs_same store s s'" by auto
  have "csub ino 1 = Some (ino - 1)" using h(1) by (simp add: csub_def word_le_nat_alt unat_gt_0 Suc_le_eq)
  moreover have "fs_ipg s \<noteq> 0" using ok by (simp add: fs_ok_def fs_wf_def)
  ultimately show ?thesis using s' h by (auto simp: inode_location_def then_fs_def)
qed

end

lemma parse_inode_dev [simp]: "parse_inode (s\<lparr>fs_dev := d\<rparr>) = parse_inode s"
  by (simp add: parse_inode_def fun_eq_iff cong: if_cong)

lemma stamp_inode_dev [simp]: "stamp_inode (s\<lparr>fs_dev := d\<rparr>) = stamp_inode s"
  by (simp add: stamp_inode_def inode_csum_def fun_eq_iff cong: if_cong)

context volume
begin

lemma read_inode_total:
  assumes ok: "fs_ok D ok s" and here: "inode_here store count s ino gb block off"
    and p: "parse_inode s ino (take (unat (fs_inode_size s)) (drop off (fs_block store s block))) = Some n"
  shows "\<exists>s'. read_inode ino s = Some (Inr n, s') \<and> fs_ok D ok s' \<and> fs_same store s s'"
proof -
  let ?z = "unat (fs_inode_size s)"
  from inode_location_total [OF ok here] obtain grp s1 where s1: "inode_location ino s = Some (Inr (block, off, grp), s1)" "fs_ok D ok s1" "fs_same store s s1" by auto
  have b: "unat block * spb s + spb s \<le> count" "off + ?z \<le> unat (fs_bs s)" using here by (auto simp: inode_here_def)
  obtain d where d: "s1 = s\<lparr>fs_dev := d\<rparr>" using s1(3) by (auto simp: fs_same_def)
  have z: "unat (fs_bs s1) \<le> length zero_block" using s1(2) zero_block_fits [of s1] by (simp add: fs_ok_def)
  from read_fsb_total [OF s1(2) _ z, of block] b(1) d fs_same_block [OF s1(3)] obtain s2 where
    s2: "read_fsb block zero_block s1 = Some (Inr (fs_block store s block @ drop (unat (fs_bs s)) zero_block), s2)" "fs_ok D ok s2" "fs_same store s1 s2" by auto
  have "rd (fs_block store s block @ drop (unat (fs_bs s)) zero_block) off ?z = Some (take ?z (drop off (fs_block store s block)))"
    using b(2) length_block [OF ok, of block] by (simp add: rd_def)
  moreover have "fs_inode_size s2 = fs_inode_size s" "parse_inode s2 = parse_inode s" using s2(3) d by (auto simp: fs_same_def)
  ultimately show ?thesis using s1(1) s2 p fs_same_trans [OF s1(3) s2(3)] by (auto simp: read_inode_def then_fs_def)
qed

lemma write_inode_total:
  assumes ok: "fs_ok D ok s" and here: "inode_here store count s (i_ino n) gb block off" and len: "length (i_raw n) = MAX_INODE_SIZE"
    and sz: "fs_inode_size s = 128 \<or> 132 \<le> fs_inode_size s"
  shows "\<exists>raw blk s'. write_inode n s = Some (Inr (), s') \<and> fs_ok D ok s' \<and> stamped s n raw \<and> fs_wrote store s block blk s' \<and>
    take (unat (fs_inode_size s)) (drop off blk) = take (unat (fs_inode_size s)) raw \<and>
    (\<forall>j<unat (fs_bs s). j < off \<or> off + unat (fs_inode_size s) \<le> j \<longrightarrow> blk ! j = fs_block store s block ! j)"
proof -
  let ?z = "unat (fs_inode_size s)" and ?x = "fs_block store s block @ drop (unat (fs_bs s)) zero_block"
  have wf: "fs_wf s" and zz: "?z \<le> 256" using ok by (auto simp: fs_ok_def fs_wf_def word_le_nat_alt)
  from stamp_inode_ok [OF len wf sz] obtain raw where raw: "stamp_inode s n = Some raw" "stamped s n raw" by auto
  then have lr: "length raw = 256" by (simp add: stamped_def ino_offsets)
  from inode_location_total [OF ok here] obtain grp s1 where s1: "inode_location (i_ino n) s = Some (Inr (block, off, grp), s1)" "fs_ok D ok s1" "fs_same store s s1" by auto
  have b: "unat block * spb s + spb s \<le> count" "off + ?z \<le> unat (fs_bs s)" using here by (auto simp: inode_here_def)
  obtain d where d: "s1 = s\<lparr>fs_dev := d\<rparr>" using s1(3) by (auto simp: fs_same_def)
  have z: "unat (fs_bs s1) \<le> length zero_block" using s1(2) zero_block_fits [of s1] by (simp add: fs_ok_def)
  from read_fsb_total [OF s1(2) _ z, of block] b(1) d fs_same_block [OF s1(3)] obtain s2 where
    s2: "read_fsb block zero_block s1 = Some (Inr ?x, s2)" "fs_ok D ok s2" "fs_same store s1 s2" by auto
  obtain e where e: "s2 = s\<lparr>fs_dev := e\<rparr>" using s2(3) d by (auto simp: fs_same_def)
  have lx: "length (fs_block store s block) = unat (fs_bs s)" by (rule length_block [OF ok])
  have "off + length (take ?z raw) \<le> length ?x" using b(2) lx by simp
  then obtain y where y: "wr ?x off (take ?z raw) = Some y" by (meson wr_Some)
  have ly: "length y = length ?x" by (rule wr_length [OF y])
  have c: "unat block * spb s2 + spb s2 \<le> count" "unat (fs_bs s2) \<le> length y" using b(1) e ly lx by simp_all
  from write_fsb_total [OF s2(2) c] obtain s' where s': "write_fsb block y s2 = Some (Inr (), s')" "fs_ok D ok s'"
    "fs_wrote store s2 block (take (unat (fs_bs s2)) y) s'" by auto
  have w: "fs_wrote store s block (take (unat (fs_bs s)) y) s'" using fs_same_wrote [OF fs_same_trans [OF s1(3) s2(3)] s'(3)] e by simp
  have "write_inode n s = Some (Inr (), s')" using s1(1) s2(1) e raw(1) lr zz y s'(1) by (auto simp: write_inode_def then_fs_def rd_def)
  moreover have "take ?z (drop off (take (unat (fs_bs s)) y)) = take ?z raw"
    using rd_wr_same [OF y refl] b(2) lr zz by (auto simp: rd_def drop_take min_def split: if_splits)
  moreover have "take (unat (fs_bs s)) y ! j = fs_block store s block ! j" if "j < unat (fs_bs s)" "j < off \<or> off + ?z \<le> j" for j
    using wr_nth [OF y, of j] that lx lr zz by (auto simp: nth_append)
  ultimately show ?thesis using s'(2) raw(2) w by blast
qed

text \<open>Writing an inode and reading it back.\<close>

lemma inode_round_trip:
  assumes ok: "fs_ok D ok s" and here: "inode_here store count s (i_ino n) gb block off" and len: "length (i_raw n) = MAX_INODE_SIZE"
    and sz: "fs_inode_size s = 128 \<or> 132 \<le> fs_inode_size s" "fs_has_64bit s \<or> i_size n < 2 ^ 32 \<and> i_blocks n < 2 ^ 32"
  shows "\<exists>s' n' s''. write_inode n s = Some (Inr (), s') \<and> fs_ok D ok s' \<and> (\<exists>d. s' = s\<lparr>fs_dev := d\<rparr>) \<and>
    (\<forall>b. b \<noteq> block \<longrightarrow> fs_block store s' b = fs_block store s b) \<and>
    (\<forall>j<unat (fs_bs s). j < off \<or> off + unat (fs_inode_size s) \<le> j \<longrightarrow> fs_block store s' block ! j = fs_block store s block ! j) \<and>
    read_inode (i_ino n) s' = Some (Inr n', s'') \<and> same_inode n n' \<and> fs_ok D ok s'' \<and> fs_same store s' s''"
proof -
  from write_inode_total [OF ok here len sz(1)] obtain raw blk s' where w: "write_inode n s = Some (Inr (), s')" "fs_ok D ok s'" "stamped s n raw"
    "fs_wrote store s block blk s'" "take (unat (fs_inode_size s)) (drop off blk) = take (unat (fs_inode_size s)) raw"
    "\<forall>j<unat (fs_bs s). j < off \<or> off + unat (fs_inode_size s) \<le> j \<longrightarrow> blk ! j = fs_block store s block ! j" by blast
  obtain d where d: "s' = s\<lparr>fs_dev := d\<rparr>" using w(4) by (auto simp: fs_wrote_def)
  have blk: "fs_block store s' block = blk" "b \<noteq> block \<Longrightarrow> fs_block store s' b = fs_block store s b" for b using w(4) by (auto simp: fs_wrote_def)
  have "gb \<noteq> block" using here by (simp add: inode_here_def)
  then have here': "inode_here store count s' (i_ino n) gb block off" using inode_here_frame [OF here d] blk(2) by simp
  have wf: "fs_wf s" using ok by (simp add: fs_ok_def)
  from parse_stamped [OF w(3) wf sz(2)] obtain n' where n': "parse_inode s (i_ino n) (take (unat (fs_inode_size s)) raw) = Some n'" "same_inode n n'" by auto
  have "parse_inode s' (i_ino n) (take (unat (fs_inode_size s')) (drop off (fs_block store s' block))) = Some n'" using n'(1) w(5) blk(1) d by simp
  from read_inode_total [OF w(2) here' this] obtain s'' where "read_inode (i_ino n) s' = Some (Inr n', s'')" "fs_ok D ok s''" "fs_same store s' s''" by auto
  then show ?thesis using w(1,2,6) d blk n'(2) by blast
qed

end

section \<open>Files whose tree is in the inode\<close>

definition root_phys :: "Inode \<Rightarrow> nat \<Rightarrow> u64 option" where
  "root_phys n lb = (if lb < 2 ^ 32 then (case rd_hdr (i_raw n) INO_IBLOCK of None \<Rightarrow> None
     | Some (entries, _) \<Rightarrow> the (find_in (node_extents (i_raw n) INO_IBLOCK [0..<unat entries]) (of_nat lb))) else None)"

definition root_leaf :: "Inode \<Rightarrow> bool" where
  "root_leaf n \<longleftrightarrow> (\<exists>entries mx. rd_hdr (i_raw n) INO_IBLOCK = Some (entries, mx, 0) \<and> entries \<le> 4 \<and> leaf_ok (i_raw n) INO_IBLOCK entries)"

lemma root_leaf_maps:
  assumes "root_leaf n" "lb < 2 ^ 32"
  shows "map_block n (of_nat lb) t = Some (Inr (root_phys n lb), t)"
proof -
  from assms(1) obtain entries mx where h: "rd_hdr (i_raw n) INO_IBLOCK = Some (entries, mx, 0)" "leaf_ok (i_raw n) INO_IBLOCK entries" by (auto simp: root_leaf_def)
  from find_extent_returns [of "[0..<unat entries]" "i_raw n" INO_IBLOCK "of_nat lb"] h(2) obtain r where
    "find_in (node_extents (i_raw n) INO_IBLOCK [0..<unat entries]) (of_nat lb) = Some r" by (auto simp: leaf_ok_def find_extent_list)
  then show ?thesis using assms(2) h(1) by (simp add: map_block_leaf [OF h(1)] root_phys_def)
qed

lemma same_root:
  assumes r: "rd (i_raw n') INO_IBLOCK 60 = rd (i_raw n) INO_IBLOCK 60" and l: "length (i_raw n) = MAX_INODE_SIZE" and leaf: "root_leaf n"
  shows "root_leaf n'" "root_phys n' = root_phys n"
proof -
  obtain x where x: "rd (i_raw n) INO_IBLOCK 60 = Some x" using l rd_ok [of INO_IBLOCK 60 "i_raw n"] by (auto simp: ino_offsets)
  have p: "rd (i_raw n') (INO_IBLOCK + k) m = rd (i_raw n) (INO_IBLOCK + k) m" if "k + m \<le> 60" for k m
    using rd_rd [OF x that] rd_rd [of "i_raw n'" INO_IBLOCK 60 x, OF _ that] r x by simp
  have h: "rd_hdr (i_raw n') INO_IBLOCK = rd_hdr (i_raw n) INO_IBLOCK" by (rule rd_hdr_cong) (use p [of 0 12] in simp)
  have e: "rd (i_raw n') (INO_IBLOCK + 12 + 12 * i) 12 = rd (i_raw n) (INO_IBLOCK + 12 + 12 * i) 12" if "i < 4" for i
    using p [of "12 + 12 * i" 12] that by (simp add: add.assoc)
  from leaf obtain entries mx where f: "rd_hdr (i_raw n) INO_IBLOCK = Some (entries, mx, 0)" "entries \<le> 4" "leaf_ok (i_raw n) INO_IBLOCK entries" by (auto simp: root_leaf_def)
  have e4: "unat entries \<le> 4" using f(2) by (simp add: word_le_nat_alt)
  have "rd_extent (i_raw n') INO_IBLOCK i = rd_extent (i_raw n) INO_IBLOCK i" if "i < unat entries" for i
    using e e4 that by (intro record_cong(1)) simp
  then have "leaf_ok (i_raw n') INO_IBLOCK entries" using f(3) by (simp add: leaf_ok_def)
  then show "root_leaf n'" using f h by (auto simp: root_leaf_def)
  have "node_extents (i_raw n') INO_IBLOCK [0..<unat entries] = node_extents (i_raw n) INO_IBLOCK [0..<unat entries]"
    using e e4 by (intro node_extents_cong) simp
  then show "root_phys n' = root_phys n" using f(1) h by (auto simp: root_phys_def fun_eq_iff)
qed

lemma leaf_sum_bound:
  "unat acc + length is * 2 ^ 15 < 2 ^ 64 \<Longrightarrow> \<exists>t. leaf_sum src base is acc = Some t \<and> unat t \<le> unat acc + length is * 2 ^ 15"
proof (induction "is" arbitrary: acc)
  case (Cons i "is")
  show ?case
  proof (cases "rd_extent src base i")
    case None
    then show ?thesis using Cons.IH [of acc] Cons.prems by auto
  next
    case (Some e)
    obtain eb elen pb where e: "e = (eb, elen, pb)" by (cases e)
    have b: "unat elen < 2 ^ 15" using rd_extent_bounds(2) [OF Some [unfolded e]] by (simp add: word_less_nat_alt)
    have a: "unat (acc + ucast elen) = unat acc + unat elen" "cadd acc (ucast elen) = Some (acc + ucast elen)"
      using Cons.prems b by (simp_all add: unat_add_bounded cadd_def)
    then show ?thesis using Cons.IH [of "acc + ucast elen"] Cons.prems b Some e by auto
  qed
qed simp

lemma recount_root:
  assumes "root_leaf n" "fs_wf s"
  shows "\<exists>b. recount_blocks n s = Some (Inr b, s) \<and> b < 2 ^ 32"
proof -
  from assms(1) obtain entries mx where f: "rd_hdr (i_raw n) INO_IBLOCK = Some (entries, mx, 0)" "entries \<le> 4" by (auto simp: root_leaf_def)
  have e4: "unat entries \<le> 4" using f(2) by (simp add: word_le_nat_alt)
  from leaf_sum_bound [of 0 "[0..<unat entries]" "i_raw n" INO_IBLOCK] e4 obtain t where
    t: "leaf_sum (i_raw n) INO_IBLOCK [0..<unat entries] 0 = Some t" "unat t \<le> 2 ^ 17" by auto
  have k: "unat (ucast (fs_bs s) div 512 :: u64) \<le> 8" using bs_spb [OF assms(2)] by (simp add: unat_div spb_def)
  have "unat t * unat (ucast (fs_bs s) div 512 :: u64) \<le> 2 ^ 17 * 8" by (rule mult_le_mono [OF t(2) k])
  then have "cmul t (ucast (fs_bs s) div 512) = Some (t * (ucast (fs_bs s) div 512))" "unat (t * (ucast (fs_bs s) div 512)) \<le> 2 ^ 20"
    by (simp_all add: cmul_def unat_mult_bounded)
  then show ?thesis using t(1) f(1) by (auto simp: recount_blocks_def then_fs_def word_less_nat_alt)
qed

text \<open>
  A regular file on the disk: its inode \<open>n\<close> is in block \<open>block\<close> at \<open>off\<close>, its extents are in the inode, and its data blocks are on the
  disk, distinct from one another and from the blocks of the inode and of the group's descriptor.
\<close>

definition small_file :: "('d \<Rightarrow> nat \<Rightarrow> u8 list) \<Rightarrow> nat \<Rightarrow> 'd Ext4 \<Rightarrow> u32 \<Rightarrow> Inode \<Rightarrow> u64 \<Rightarrow> u64 \<Rightarrow> nat \<Rightarrow> bool" where
  "small_file store count s ino n gb block off \<longleftrightarrow> inode_here store count s ino gb block off \<and>
     parse_inode s ino (take (unat (fs_inode_size s)) (drop off (fs_block store s block))) = Some n \<and> is_file n \<and> root_leaf n \<and>
     (\<forall>lb b. root_phys n lb = Some b \<longrightarrow> unat b * spb s + spb s \<le> count \<and> b \<noteq> gb \<and> b \<noteq> block) \<and>
     (\<forall>lb lb' b. root_phys n lb = Some b \<longrightarrow> root_phys n lb' = Some b \<longrightarrow> lb = lb')"

lemma parse_inode_fields: "parse_inode s ino raw = Some n \<Longrightarrow> length raw \<le> MAX_INODE_SIZE \<Longrightarrow> i_ino n = ino \<and> length (i_raw n) = MAX_INODE_SIZE"
  by (auto simp: parse_inode_def)

context volume
begin

text \<open>The data part of a write: the inode is read and the blocks of the range are rewritten.\<close>

lemma write_file_data:
  assumes ok: "fs_ok D ok s" and f: "small_file store count s ino n gb block off"
    and buf: "unat offset + length buf \<le> 2 ^ 32 * unat (fs_bs s)" "\<And>i. i < length buf \<Longrightarrow> root_phys n ((unat offset + i) div unat (fs_bs s)) \<noteq> None"
  shows "\<exists>s1 s2. read_inode ino s = Some (Inr n, s1) \<and> fs_bs s1 = fs_bs s \<and> write_loop (unat (fs_bs s)) n (unat offset) buf 0 s1 = Some (Inr n, s2) \<and>
    fs_ok D ok s2 \<and> (\<exists>d. s2 = s\<lparr>fs_dev := d\<rparr>) \<and> inode_here store count s2 ino gb block off \<and>
    (\<forall>i. file_byte store s2 (root_phys n) i = (if unat offset \<le> i \<and> i < unat offset + length buf then buf ! (i - unat offset) else file_byte store s (root_phys n) i)) \<and>
    (\<forall>b. (\<forall>lb. root_phys n lb \<noteq> Some b) \<longrightarrow> fs_block store s2 b = fs_block store s b)"
proof -
  let ?bs = "unat (fs_bs s)" and ?phys = "root_phys n"
  have here: "inode_here store count s ino gb block off" and reg: "root_leaf n"
    and p: "parse_inode s ino (take (unat (fs_inode_size s)) (drop off (fs_block store s block))) = Some n"
    and blocks: "\<And>lb b. ?phys lb = Some b \<Longrightarrow> unat b * spb s + spb s \<le> count" "\<And>lb. ?phys lb \<noteq> Some gb"
    and inj: "\<And>lb lb' b. ?phys lb = Some b \<Longrightarrow> ?phys lb' = Some b \<Longrightarrow> lb = lb'"
    using f unfolding small_file_def by blast+
  from read_inode_total [OF ok here p] obtain s1 where s1: "read_inode ino s = Some (Inr n, s1)" "fs_ok D ok s1" "fs_same store s s1" by auto
  obtain d1 where d1: "s1 = s\<lparr>fs_dev := d1\<rparr>" using s1(3) by (auto simp: fs_same_def)
  have "\<exists>s'. write_loop ?bs n (unat offset) buf 0 s1 = Some (Inr n, s') \<and> fs_ok D ok s' \<and> (\<exists>d. s' = s1\<lparr>fs_dev := d\<rparr>) \<and>
    (\<forall>i. file_byte store s' ?phys i = (if unat offset + 0 \<le> i \<and> i < unat offset + length buf then buf ! (i - unat offset) else file_byte store s1 ?phys i)) \<and>
    (\<forall>b. (\<forall>lb. ?phys lb \<noteq> Some b) \<longrightarrow> fs_block store s' b = fs_block store s1 b)"
    by (rule write_loop_total) (use root_leaf_maps [OF reg] buf d1 inj blocks(1) s1(2) in auto)
  then obtain s2 where s2: "write_loop ?bs n (unat offset) buf 0 s1 = Some (Inr n, s2)" "fs_ok D ok s2" "\<exists>d. s2 = s1\<lparr>fs_dev := d\<rparr>"
    "\<forall>i. file_byte store s2 ?phys i = (if unat offset \<le> i \<and> i < unat offset + length buf then buf ! (i - unat offset) else file_byte store s1 ?phys i)"
    "\<forall>b. (\<forall>lb. ?phys lb \<noteq> Some b) \<longrightarrow> fs_block store s2 b = fs_block store s1 b" by auto
  obtain d2 where d2: "s2 = s\<lparr>fs_dev := d2\<rparr>" using s2(3) d1 by auto
  have same: "fs_block store s2 b = fs_block store s b" if "\<forall>lb. ?phys lb \<noteq> Some b" for b using s2(5) that fs_same_block [OF s1(3)] by simp
  have "inode_here store count s2 ino gb block off" using inode_here_frame [OF here d2] same blocks(2) by blast
  then show ?thesis using s1(1) s2 d1 d2 same file_byte_same [OF s1(3)] by (intro exI [of _ s1] exI [of _ s2]) auto
qed

lemma write_file_total:
  assumes ok: "fs_ok D ok s" and f: "small_file store count s ino n gb block off" and sz: "fs_inode_size s = 128 \<or> 132 \<le> fs_inode_size s"
    and buf: "buf \<noteq> []" "unat offset + length buf \<le> 2 ^ 32 * unat (fs_bs s)" "\<And>i. i < length buf \<Longrightarrow> root_phys n ((unat offset + i) div unat (fs_bs s)) \<noteq> None"
    and hi: "fs_has_64bit s \<or> unat offset + length buf < 2 ^ 32 \<and> i_size n < 2 ^ 32"
  shows "\<exists>s' n' s''. write_file ino offset buf s = Some (Inr (), s') \<and> fs_ok D ok s' \<and> (\<exists>d. s' = s\<lparr>fs_dev := d\<rparr>) \<and>
    read_inode ino s' = Some (Inr n', s'') \<and> fs_ok D ok s'' \<and> fs_same store s' s'' \<and> is_file n' \<and> root_leaf n' \<and> root_phys n' = root_phys n \<and>
    unat (i_size n') = max (unat (i_size n)) (unat offset + length buf) \<and>
    (\<forall>i. file_byte store s' (root_phys n) i = (if unat offset \<le> i \<and> i < unat offset + length buf then buf ! (i - unat offset) else file_byte store s (root_phys n) i)) \<and>
    (\<forall>b. b \<noteq> block \<longrightarrow> (\<forall>lb. root_phys n lb \<noteq> Some b) \<longrightarrow> fs_block store s' b = fs_block store s b)"
proof -
  let ?phys = "root_phys n" and ?fin = "offset + of_nat (length buf)"
  have reg: "is_file n" "root_leaf n" and p: "parse_inode s ino (take (unat (fs_inode_size s)) (drop off (fs_block store s block))) = Some n"
    and blocks: "\<And>lb. ?phys lb \<noteq> Some block" using f unfolding small_file_def by blast+
  have wf: "unat (fs_inode_size s) \<le> 256" "unat (fs_bs s) \<le> 4096" using ok by (auto simp: fs_ok_def fs_wf_def word_le_nat_alt)
  have n: "i_ino n = ino" "length (i_raw n) = MAX_INODE_SIZE" using parse_inode_fields [OF p] wf(1) by (simp_all add: ino_offsets)
  have "2 ^ 32 * unat (fs_bs s) \<le> 2 ^ 44" using wf(2) by simp
  then have lb: "unat offset + length buf \<le> 2 ^ 44" using buf(2) by linarith
  then have lu: "unat (of_nat (length buf) :: u64) = length buf" by (intro unat_of_nat_bounded) simp
  have cf: "cadd offset (of_nat (length buf)) = Some ?fin" and fin: "unat ?fin = unat offset + length buf"
    using lb lu by (simp_all add: cadd_def unat_add_bounded)
  from write_file_data [OF ok f buf(2,3)] obtain s1 s2 where s2: "read_inode ino s = Some (Inr n, s1)" "fs_bs s1 = fs_bs s"
    "write_loop (unat (fs_bs s)) n (unat offset) buf 0 s1 = Some (Inr n, s2)" "fs_ok D ok s2" "\<exists>d. s2 = s\<lparr>fs_dev := d\<rparr>" "inode_here store count s2 ino gb block off"
    "\<forall>i. file_byte store s2 ?phys i = (if unat offset \<le> i \<and> i < unat offset + length buf then buf ! (i - unat offset) else file_byte store s ?phys i)"
    "\<forall>b. (\<forall>lb. ?phys lb \<noteq> Some b) \<longrightarrow> fs_block store s2 b = fs_block store s b" by blast
  define n1 where "n1 = (if ?fin > i_size n then n\<lparr>i_size := ?fin\<rparr> else n)"
  have n1: "root_leaf n1" "i_ino n1 = ino" "i_raw n1 = i_raw n" "i_mode n1 = i_mode n" "unat (i_size n1) = max (unat (i_size n)) (unat offset + length buf)"
    using n reg(2) fin by (auto simp: n1_def root_leaf_def word_less_nat_alt)
  from recount_root [OF n1(1), of s2] s2(4) obtain bl where bl: "recount_blocks n1 s2 = Some (Inr bl, s2)" "bl < 2 ^ 32" by (auto simp: fs_ok_def)
  let ?n2 = "n1\<lparr>i_blocks := bl\<rparr>"
  have "fs_has_64bit s \<or> i_size n1 < 2 ^ 32" using hi fin by (auto simp: n1_def word_less_nat_alt)
  then have N: "fs_has_64bit s2 \<or> i_size ?n2 < 2 ^ 32 \<and> i_blocks ?n2 < 2 ^ 32" "inode_here store count s2 (i_ino ?n2) gb block off"
    "fs_inode_size s2 = 128 \<or> 132 \<le> fs_inode_size s2" "length (i_raw ?n2) = MAX_INODE_SIZE" using bl(2) s2(5,6) sz n(2) n1(2,3) by auto
  from inode_round_trip [OF s2(4) N(2,4,3,1)] obtain s3 n' s4 where s3: "write_inode ?n2 s2 = Some (Inr (), s3)" "fs_ok D ok s3" "\<exists>d. s3 = s2\<lparr>fs_dev := d\<rparr>"
    "\<forall>b. b \<noteq> block \<longrightarrow> fs_block store s3 b = fs_block store s2 b" "read_inode ino s3 = Some (Inr n', s4)" "same_inode ?n2 n'" "fs_ok D ok s4" "fs_same store s3 s4"
    using n1(2) by auto
  have w: "write_file ino offset buf s = Some (Inr (), s3)"
    using buf(1) s2(1-3) reg(1) cf bl(1) s3(1) by (simp add: write_file_def then_fs_def n1_def Let_def)
  have r: "rd (i_raw n') INO_IBLOCK 60 = rd (i_raw n) INO_IBLOCK 60" and m: "i_mode n' = i_mode n" "i_size n' = i_size n1"
    using s3(6) n1(3,4) by (simp_all add: same_inode_def)
  note root = same_root [OF r n(2) reg(2)]
  have "is_file n'" using reg(1) m(1) by (simp add: is_file_def)
  moreover have "\<exists>d. s3 = s\<lparr>fs_dev := d\<rparr>" using s3(3) s2(5) by auto
  moreover have "file_byte store s3 ?phys i = file_byte store s2 ?phys i" for i
    using s3(3,4) blocks [of "i div unat (fs_bs s2)"] by (auto simp: file_byte_def split: option.split)
  ultimately show ?thesis using w s3(2,4,5,7,8) root m(2) n1(5) s2(7,8) by (intro exI [of _ s3] exI [of _ n'] exI [of _ s4]) simp
qed

lemma file_round_trip:
  assumes ok: "fs_ok D ok s" and f: "small_file store count s ino n gb block off" and sz: "fs_inode_size s = 128 \<or> 132 \<le> fs_inode_size s"
    and buf: "buf \<noteq> []" "unat offset + length buf \<le> 2 ^ 32 * unat (fs_bs s)" "\<And>i. i < length buf \<Longrightarrow> root_phys n ((unat offset + i) div unat (fs_bs s)) \<noteq> None"
    and hi: "fs_has_64bit s \<or> unat offset + length buf < 2 ^ 32 \<and> i_size n < 2 ^ 32" and out: "length out = length buf"
  shows "\<exists>s' s''. write_file ino offset buf s = Some (Inr (), s') \<and> read_file ino offset out s' = Some (Inr (length buf, buf), s'') \<and>
    fs_ok D ok s' \<and> fs_same store s' s'' \<and>
    (\<forall>i. i < unat offset \<or> unat offset + length buf \<le> i \<longrightarrow> file_byte store s' (root_phys n) i = file_byte store s (root_phys n) i) \<and>
    (\<forall>b. b \<noteq> block \<longrightarrow> (\<forall>lb. root_phys n lb \<noteq> Some b) \<longrightarrow> fs_block store s' b = fs_block store s b)"
proof -
  let ?bs = "unat (fs_bs s)" and ?phys = "root_phys n"
  from write_file_total [OF ok f sz buf hi] obtain s' n' s1 where w: "write_file ino offset buf s = Some (Inr (), s')" "fs_ok D ok s'" "\<exists>d. s' = s\<lparr>fs_dev := d\<rparr>"
    "read_inode ino s' = Some (Inr n', s1)" "fs_ok D ok s1" "fs_same store s' s1" "is_file n'" "root_leaf n'" "root_phys n' = ?phys"
    "unat (i_size n') = max (unat (i_size n)) (unat offset + length buf)"
    "\<forall>i. file_byte store s' ?phys i = (if unat offset \<le> i \<and> i < unat offset + length buf then buf ! (i - unat offset) else file_byte store s ?phys i)"
    "\<forall>b. b \<noteq> block \<longrightarrow> (\<forall>lb. ?phys lb \<noteq> Some b) \<longrightarrow> fs_block store s' b = fs_block store s b" by blast
  have s1: "fs_bs s1 = fs_bs s" "spb s1 = spb s" using w(3,6) by (auto simp: fs_same_def)
  have "0 < length buf" using buf(1) by simp
  then have off: "\<not> offset \<ge> i_size n'" using w(10) by (simp add: word_le_nat_alt)
  then have tk: "min (unat (i_size n' - offset)) (length out) = length buf" using w(10) out by (auto simp: unat_sub)
  have disk: "\<And>lb b. ?phys lb = Some b \<Longrightarrow> unat b * spb s + spb s \<le> count" using f unfolding small_file_def by blast
  have "\<exists>buf' s''. read_loop ?bs n' (unat offset) (length buf) 0 out s1 = Some (Inr buf', s'') \<and> fs_ok D ok s'' \<and> fs_same store s1 s'' \<and> length buf' = length out \<and>
    (\<forall>j<length out. buf' ! j = (if 0 \<le> j \<and> j < length buf then file_byte store s1 ?phys (unat offset + j) else out ! j))"
    by (rule read_loop_total) (use root_leaf_maps [OF w(8), unfolded w(9)] s1 buf(2) disk w(5) out in auto)
  then obtain buf' s'' where r: "read_loop ?bs n' (unat offset) (length buf) 0 out s1 = Some (Inr buf', s'')" "fs_same store s1 s''" "length buf' = length out"
    "\<forall>j<length out. buf' ! j = (if 0 \<le> j \<and> j < length buf then file_byte store s1 ?phys (unat offset + j) else out ! j)" by auto
  have "buf' = buf" by (rule nth_equalityI) (use r out w(11) file_byte_same [OF w(6)] in auto)
  moreover have "read_file ino offset out s' = Some (Inr (length buf, buf'), s'')"
    using buf(1) out w(4,7) off tk r(1) s1(1) by (auto simp: read_file_def then_fs_def Let_def)
  ultimately show ?thesis using w(1,2,11,12) fs_same_trans [OF w(6) r(2)] by (intro exI [of _ s'] exI [of _ s'']) auto
qed

end

end
