(* ===== verification/Fs.thy ===== *)
theory Fs
  imports Gpt Ext4_Content
begin

text \<open>
  The persistent mount (\<^verbatim>\<open>src/fs.rs\<close>): finding the first Linux partition of disk 0 that mounts, and running operations on it.

  The statics of the storage stack are one record.  The driver's own state is the one in \<open>fs_ahci\<close>: a mounted file system works
  on it through its borrowed partition, so \<open>with\<close> hands it over and takes it back.  Messages to the log are left out.
\<close>

record 'h fs_state =
  fs_ahci :: "'h ahci"
  fs_disks :: gpt_disks
  PART :: GptPartition
  MOUNT :: "'h ahci Ext4 option"

fun mount_first :: "'h hba_ops \<Rightarrow> nat list \<Rightarrow> 'h fs_state \<Rightarrow> (bool \<times> 'h fs_state) option" where
  "mount_first H [] st = Some (False, st)"
| "mount_first H (i # is) st = (case partition 0 i (fs_disks st) of
      None \<Rightarrow> mount_first H is st
    | Some entry \<Rightarrow>
        if \<not> type_is_linux entry then mount_first H is st
        else do {
          (r, a) \<leftarrow> mount (gpt_device H entry) (fs_ahci st);
          let st = st\<lparr>PART := entry, fs_ahci := a\<rparr>;
          case r of
            Inr fs \<Rightarrow> Some (True, st\<lparr>MOUNT := Some fs\<rparr>)
          | Inl e \<Rightarrow> mount_first H is st
        })"

definition init :: "'h hba_ops \<Rightarrow> 'h fs_state \<Rightarrow> (bool \<times> 'h fs_state) option" where
  "init H st =
     (if disk_count (fs_ahci st) = 0 then Some (False, st)
      else do {
        (found, a, g) \<leftarrow> detect H 0 (fs_ahci st, fs_disks st);
        let st = st\<lparr>fs_ahci := a, fs_disks := g\<rparr>;
        if \<not> found then Some (False, st) else mount_first H [0..<partition_count 0 g] st
      })"

definition is_mounted :: "'h fs_state \<Rightarrow> bool" where "is_mounted st \<longleftrightarrow> MOUNT st \<noteq> None"

definition with_mount :: "('h ahci, 'a) fs \<Rightarrow> 'h fs_state \<Rightarrow> ((FsError + 'a) option \<times> 'h fs_state) option" where
  "with_mount f st = (case MOUNT st of
      None \<Rightarrow> Some (None, st)
    | Some m \<Rightarrow> do {
        (r, m) \<leftarrow> f (m\<lparr>fs_dev := fs_ahci st\<rparr>);
        Some (Some r, st\<lparr>MOUNT := Some m, fs_ahci := fs_dev m\<rparr>)
      })"

definition fs_root :: "'h fs_state \<Rightarrow> u32 option" where "fs_root st = map_option (\<lambda>_. ROOT_INO) (MOUNT st)"
definition fs_read_inode :: "u32 \<Rightarrow> 'h fs_state \<Rightarrow> ((FsError + Inode) option \<times> 'h fs_state) option" where
  "fs_read_inode ino = with_mount (read_inode ino)"

definition fs_read_dir :: "u32 \<Rightarrow> nat \<Rightarrow> 'h fs_state \<Rightarrow> ((FsError + nat \<times> DirEnt list) option \<times> 'h fs_state) option" where
  "fs_read_dir ino cap = with_mount (read_dir ino cap)"

definition fs_lookup :: "u32 \<Rightarrow> u8 list \<Rightarrow> 'h fs_state \<Rightarrow> ((FsError + u32 option) option \<times> 'h fs_state) option" where
  "fs_lookup dir nm = with_mount (lookup dir nm)"

definition fs_read_file :: "u32 \<Rightarrow> u64 \<Rightarrow> u8 list \<Rightarrow> 'h fs_state \<Rightarrow> ((FsError + nat \<times> u8 list) option \<times> 'h fs_state) option" where
  "fs_read_file ino offset buf = with_mount (read_file ino offset buf)"

definition fs_write_file :: "u32 \<Rightarrow> u64 \<Rightarrow> u8 list \<Rightarrow> 'h fs_state \<Rightarrow> ((FsError + unit) option \<times> 'h fs_state) option" where
  "fs_write_file ino offset buf = with_mount (write_file ino offset buf)"

definition fs_create_file :: "u32 \<Rightarrow> u8 list \<Rightarrow> 'h fs_state \<Rightarrow> ((FsError + u32) option \<times> 'h fs_state) option" where
  "fs_create_file dir nm = with_mount (create_file dir nm)"

definition fs_create_dir :: "u32 \<Rightarrow> u8 list \<Rightarrow> 'h fs_state \<Rightarrow> ((FsError + u32) option \<times> 'h fs_state) option" where
  "fs_create_dir dir nm = with_mount (create_dir dir nm)"

definition fs_sync :: "'h fs_state \<Rightarrow> ((FsError + unit) option \<times> 'h fs_state) option" where "fs_sync = with_mount sync"


section \<open>A small volume\<close>

text \<open>
  A volume of 32 blocks of 1024 bytes in the sample partition: one group with its descriptor in block 2, bitmaps in blocks 3 and 4, sixteen
  inodes in blocks 5 and 6, and a file, inode 12, with one block of data in block 8.
\<close>

definition sample_inode :: "u8 list" where
  "sample_inode = [0xA4, 0x81, 0, 0] @ to_le_bytes 4 (5 :: u32) @ replicate 20 0 @ to_le_bytes 4 (2 :: u32) @ to_le_bytes 4 INO_FLAG_EXTENTS @ replicate 4 0 @
     hdr_bytes 1 4 0 @ extent_bytes 0 1 8 @ replicate 64 0"

definition sample_sector :: "nat \<Rightarrow> u8 list" where
  "sample_sector i = (if i = 68 then [3, 0, 0, 0, 4, 0, 0, 0, 5, 0, 0, 0] else if i = 72 then [0xFF, 0x0F]
     else if i = 76 then replicate 384 0 @ sample_inode else if i = 80 then [0x68, 0x65, 0x6C, 0x6C, 0x6F]
     else if i = 82 then hdr_bytes 1 84 0 @ extent_bytes 0 1 8 else if i = 84 then hdr_bytes 1 84 1 @ index_bytes 0 10 else [])"

definition sample_fs :: "ram_hba ahci Ext4" where
  "sample_fs = \<lparr>fs_ops = gpt_device ram_ops sample_partition,
     fs_dev = sample_ahci\<lparr>hw := (hw sample_ahci)\<lparr>ram_disk := \<lambda>_ _. sample_sector\<rparr>\<rparr>,
     fs_bs = 1024, fs_bpg = 8192, fs_ipg = 16, fs_inode_size = 128, fs_desc_size = 32, fs_num_groups = 1, fs_first_data_block = 1,
     fs_gdt_fsb = 2, fs_reserved_gdt_blocks = 0, fs_uuid = replicate 16 0, fs_volume_name = replicate 16 0, fs_csum_seed = 0,
     fs_meta_csum = False, fs_has_64bit = False, fs_blocks_total = 32, fs_inodes_total = 16, fs_free_blocks = 20, fs_free_inodes = 4\<rparr>"

abbreviation "sample_store \<equiv> gpt_store ram_media sample_partition"
abbreviation "sample_device \<equiv> gpt_device ram_ops sample_partition"
abbreviation "sample_good \<equiv> gpt_ok ram_ops (\<lambda>_. True) ram_media sample_partition"

lemma sample_fs_fields:
  "fs_ops sample_fs = sample_device" "fs_bs sample_fs = 1024" "fs_bpg sample_fs = 8192" "fs_ipg sample_fs = 16" "fs_inode_size sample_fs = 128"
  "fs_desc_size sample_fs = 32" "fs_num_groups sample_fs = 1" "fs_first_data_block sample_fs = 1" "fs_gdt_fsb sample_fs = 2"
  "fs_meta_csum sample_fs = False" "fs_has_64bit sample_fs = False" "spb sample_fs = 2" "gpt_sectors sample_partition = 64"
  by (simp_all add: sample_fs_def spb_def gpt_sectors_def sample_partition_def EMPTY_PARTITION_def)

lemma sample_fs_ok: "fs_ok sample_device sample_good sample_fs"
  using sample_partition_ok by (auto simp: fs_ok_def fs_wf_def sample_fs_def gpt_ok_def ram_conforms)

lemma sample_block:
  "fs_block sample_store sample_fs b =
     take 512 (sample_sector (64 + 2 * unat b) @ replicate 512 0) @ take 512 (sample_sector (65 + 2 * unat b) @ replicate 512 0)"
proof -
  have "device (disk sample_partition) (fs_dev sample_fs) = Some \<lparr>is_present = True, hba = 0xFEBF1000, port = 0, sectors = 2048, lba48 = True\<rparr>"
    by (simp add: device_def sample_fs_def sample_ahci_def ahci_start_def sample_partition_def EMPTY_PARTITION_def)
  then have "sample_store (fs_dev sample_fs) i = take 512 (sample_sector (64 + i) @ replicate 512 0)" for i
    by (simp add: gpt_store_def ram_media_def sample_fs_def sample_partition_def EMPTY_PARTITION_def)
  then show ?thesis by (simp add: fs_block_def sample_fs_fields load_sectors_def mult.commute)
qed

lemma sample_place: "group_place sample_fs 0 = Some (2, 0)"
  by (simp add: group_place_def sample_fs_fields cmul_def cadd_def)

lemma sample_desc: "\<exists>gd. gdesc sample_store sample_fs 0 = Some gd \<and> gd_u32 sample_fs gd GD_BLOCK_BITMAP_LO GD_BLOCK_BITMAP_HI = Some 3 \<and>
    gd_u32 sample_fs gd GD_INODE_BITMAP_LO GD_INODE_BITMAP_HI = Some 4 \<and> gd_u32 sample_fs gd GD_INODE_TABLE_LO GD_INODE_TABLE_HI = Some 5"
  by (simp add: gdesc_def sample_place sample_fs_fields sample_block sample_sector_def rd_def gd_u32_def le32_def GD_BLOCK_BITMAP_LO_def GD_INODE_BITMAP_LO_def GD_INODE_TABLE_LO_def)

lemma sample_here: "inode_here sample_store (gpt_sectors sample_partition) sample_fs 12 2 6 384"
proof -
  have "itable_at sample_store sample_fs 0 = Some 5" using sample_desc by (auto simp: itable_at_def)
  then show ?thesis by (simp add: inode_here_def sample_fs_fields sample_place cmul_def cadd_def)
qed


definition sample_file :: Inode where
  "sample_file = \<lparr>i_ino = 12, i_mode = 0x81A4, i_size = 5, i_blocks = 2, i_flags = INO_FLAG_EXTENTS, i_raw = sample_inode @ replicate 128 0\<rparr>"

lemma sample_parse: "parse_inode sample_fs 12 (take (unat (fs_inode_size sample_fs)) (drop 384 (fs_block sample_store sample_fs 6))) = Some sample_file"
proof -
  have "take 128 (drop 384 (fs_block sample_store sample_fs 6)) = sample_inode"
    by (simp add: sample_block sample_sector_def sample_inode_def)
  then show ?thesis
    by (simp add: sample_fs_fields parse_inode_def sample_file_def sample_inode_def le16_def le32_def rd_def INO_MODE_def INO_SIZE_LO_def INO_SIZE_HIGH_def
        INO_BLOCKS_LO_def INO_BLOCKS_HIGH_def INO_FLAGS_def MAX_INODE_SIZE_def)
qed

lemma sample_root:
  "rd_hdr (i_raw sample_file) INO_IBLOCK = Some (1, 4, 0)" "rd_extent (i_raw sample_file) INO_IBLOCK 0 = Some (0, 1, 8)"
  by (rule rd_records, simp_all add: rd_def sample_file_def sample_inode_def INO_IBLOCK_def)+

lemma sample_phys: "root_phys sample_file lb = (if lb = 0 then Some 8 else None)"
proof -
  have "node_extents (i_raw sample_file) INO_IBLOCK [0..<unat (1 :: u16)] = [(0, 1, 8)]"
    using sample_root(2) by (simp add: node_extents_def map_filter_simps)
  moreover have "of_nat lb = (0 :: u32) \<longleftrightarrow> lb = 0" if "lb < 2 ^ 32" using that unat_of_nat_bounded [of lb, where ?'a = 32] by (auto simp: word_unat_eq_iff)
  ultimately show ?thesis using sample_root(1) find_in_single [of 0 8 "of_nat lb"] by (auto simp: root_phys_def simp del: find_in.simps)
qed

lemma sample_small_file: "small_file sample_store (gpt_sectors sample_partition) sample_fs 12 sample_file 2 6 384"
  using sample_here sample_parse sample_root sample_phys
  by (auto simp: small_file_def root_leaf_def leaf_ok_def is_file_def sample_fs_fields sample_file_def S_IFMT_def S_IFREG_def split: if_splits)

interpretation vol: volume "gpt_device H p" "gpt_ok H idle media p" "gpt_store media p" "gpt_sectors p" for H idle media p
  by unfold_locales






lemma sample_alloc: "\<exists>s'. alloc_bit True sample_fs = Some (Inr 13, s')"
proof -
  obtain gd where gd: "gdesc sample_store sample_fs 0 = Some gd" "gd_u32 sample_fs gd GD_INODE_BITMAP_LO GD_INODE_BITMAP_HI = Some 4" using sample_desc by auto
  have "unat (2 :: u64) * spb sample_fs + spb sample_fs \<le> gpt_sectors sample_partition" "(0 :: u32) < fs_num_groups sample_fs" by (simp_all add: sample_fs_fields)
  from vol.group_slice_total [OF sample_fs_ok this(2) sample_place gd(1) this(1)] obtain s1 where
    s1: "group_slice 0 sample_fs = Some (Inr gd, s1)" "fs_ok sample_device sample_good s1" "fs_same sample_store sample_fs s1" by blast
  obtain d1 where d1: "s1 = sample_fs\<lparr>fs_dev := d1\<rparr>" using s1(3) by (auto simp: fs_same_def)
  have "fs_block sample_store s1 4 = [0xFF, 0x0F] @ replicate 1022 0"
    unfolding fs_same_block [OF s1(3)] by (simp add: sample_block sample_sector_def flip: replicate_add)
  moreover have "drop 1024 zero_block = replicate 3072 0" by (simp add: zero_block_def MAX_BLOCK_SIZE_def)
  ultimately obtain s2 where s2: "read_fsb 4 zero_block s1 = Some (Inr ([0xFF, 0x0F] @ replicate 4094 0), s2)" "fs_ok sample_device sample_good s2" "fs_same sample_store s1 s2"
    using vol.read_fsb_total [OF s1(2), of 4 zero_block] d1 by (auto simp: sample_fs_fields zero_block_def MAX_BLOCK_SIZE_def simp flip: replicate_add)
  obtain d2 where d2: "s2 = sample_fs\<lparr>fs_dev := d2\<rparr>" using s2(3) d1 by (auto simp: fs_same_def)
  let ?bm = "[0xFF, 0x0F] @ replicate 4094 (0 :: u8)"
  obtain s3 where s3: "write_fsb 4 (?bm[1 := 0x0F OR push_bit 4 1]) s2 = Some (Inr (), s3)"
    using vol.write_fsb_total [OF s2(2), of 4 "?bm[1 := 0x0F OR push_bit 4 1]"] d2 by (auto simp: sample_fs_fields)
  have up: "[0..<8] = [0, 1, 2, 3, 4, 5, 6, 7 :: nat]" "[0..<2] = [0, 1 :: nat]" by (simp_all add: upt_rec)
  have "alloc_bits True 0 4 ?bm 1 [0..<8] s2 = Some (Inr (Some 13), s3)"
    unfolding up using s3 d2 by (simp add: sample_fs_fields Let_def mark_bit_def then_fs_def)
  then have "alloc_bytes True 0 4 ?bm [0..<2] s2 = Some (Inr (Some 13), s3)"
    unfolding up(2) by (simp add: then_fs_def)
  then have "alloc_groups True [0] sample_fs = Some (Inr 13, s3)"
    using s1(1) gd(2) s2(1) d1 by (simp add: read_bitmap_def then_fs_def sample_fs_fields)
  then show ?thesis by (simp add: alloc_bit_def sample_fs_fields)
qed





text \<open>Block 9 is a leaf, block 10 an index that names itself.\<close>

definition sample_index :: "u64 \<Rightarrow> Inode" where
  "sample_index child = sample_file\<lparr>i_raw := replicate 40 0 @ hdr_bytes 1 4 1 @ index_bytes 0 child @ replicate 192 0\<rparr>"

lemma sample_index_root:
  "rd_hdr (i_raw (sample_index c)) INO_IBLOCK = Some (1, 4, 1)" "c < push_bit 48 1 \<Longrightarrow> rd_index (i_raw (sample_index c)) INO_IBLOCK 0 = Some (0, c)"
  by (rule rd_records, simp_all add: rd_def sample_index_def INO_IBLOCK_def)+

lemma sample_nodes:
  "rd_hdr (node_of sample_store sample_fs 9) 0 = Some (1, 84, 0)" "rd_extent (node_of sample_store sample_fs 9) 0 0 = Some (0, 1, 8)"
  "rd_hdr (node_of sample_store sample_fs 10) 0 = Some (1, 84, 1)" "rd_index (node_of sample_store sample_fs 10) 0 0 = Some (0, 10)"
  by (rule rd_records, simp_all add: rd_def node_of_def sample_block sample_sector_def)+

text \<open>
  C23: The walk through an extent tree returns.  On a conforming disk, for an inode whose tree is well formed to some depth (every index names a
  block of the volume, every node parses), the lookup of every logical block ends with an answer and leaves the disk as it was.
\<close>

theorem map_block_terminates:
  assumes "fs_ok (gpt_device H p) (gpt_ok H idle media p) s"
    and "\<And>e m d. rd_hdr (i_raw n) INO_IBLOCK = Some (e, m, d) \<Longrightarrow> tree_ok (gpt_store media p) (gpt_sectors p) s k (i_raw n) INO_IBLOCK e d"
  shows "\<exists>r s'. map_block n lb s = Some (Inr r, s') \<and> fs_same (gpt_store media p) s s'"
  using vol.map_block_returns [OF assms(1), of n k lb] assms(2) by blast

theorem map_block_terminates_witness: "\<exists>r s'. map_block (sample_index 9) 0 sample_fs = Some (Inr r, s')"
proof -
  have "leaf_ok (node_of sample_store sample_fs 9) 0 1" using sample_nodes(2) by (simp add: leaf_ok_def)
  then have "tree_ok sample_store (gpt_sectors sample_partition) sample_fs 1 (i_raw (sample_index 9)) INO_IBLOCK 1 1"
    using sample_index_root(2) [of 9] sample_nodes(1) by (simp add: sample_fs_fields)
  then show ?thesis using map_block_terminates [OF sample_fs_ok, of "sample_index 9" 1 0] sample_index_root(1) by auto
qed

text \<open>A damaged tree: from an index that names itself the walk never returns.\<close>

lemma map_block_hangs: "map_block (sample_index 10) 0 sample_fs = None"
proof (rule vol.map_block_cycle [OF sample_fs_ok sample_index_root(1) _ _ _ _ sample_nodes(3)])
  show "choose_index (i_raw (sample_index 10)) INO_IBLOCK 0 (unat (1 :: u16)) [0..<unat (1 :: u16)] = Some 10" using sample_index_root(2) [of 10] by simp
  show "choose_index (node_of sample_store sample_fs 10) 0 0 (unat (1 :: u16)) [0..<unat (1 :: u16)] = Some 10" using sample_nodes(4) by simp
qed (simp_all add: sample_fs_fields)

section \<open>Reading leaves the disk as it was\<close>

definition keeps :: "('h \<Rightarrow> bool) \<Rightarrow> ('h \<Rightarrow> u64 \<Rightarrow> u8 \<Rightarrow> nat \<Rightarrow> u8 list) \<Rightarrow> 'h ahci \<Rightarrow> 'h ahci \<Rightarrow> bool" where
  "keeps idle media a a' \<longleftrightarrow> (\<exists>h. a' = a\<lparr>hw := h\<rparr> \<and> idle h \<and> media h = media (hw a))"

lemma keeps_refl: "idle (hw a) \<Longrightarrow> keeps idle media a a" by (auto simp: keeps_def intro: exI [of _ "hw a"])
lemma keeps_trans: "keeps idle media a b \<Longrightarrow> keeps idle media b c \<Longrightarrow> keeps idle media a c" by (auto simp: keeps_def)
lemma keepsD: "keeps idle media a a' \<Longrightarrow> idle (hw a') \<and> AHCI_DMA_PHYS a' = AHCI_DMA_PHYS a \<and> device d a' = device d a \<and> media (hw a') = media (hw a)"
  by (auto simp: keeps_def device_def)

lemma ahci_read_keeps:
  assumes conf: "hba_conforms H (AHCI_DMA_PHYS a) idle media" and idle: "idle (hw a)" and r: "ahci_read H d lba buf a = Some (b, x, a')"
  shows "keeps idle media a a'"
proof (cases "b \<or> a' = a")
  case True
  then show ?thesis using ahci_read_True [OF conf idle, of d lba buf x a'] r keeps_refl [of idle a media] idle by (auto simp: keeps_def)
next
  case False
  then have legal: "legal_length (length buf)" using ahci_read_illegal [OF _ r] by blast
  from False r obtain dev where dev: "device d a = Some dev" "lba_out_of_range lba (length buf) dev = Some False"
    by (auto simp: ahci_read_def split: option.splits if_splits)
  from ahci_read_ok [OF conf idle dev(1) legal lba_on_disk [OF dev(2) legal]] show ?thesis using r False by auto
qed

lemma scan_sectors_keeps:
  assumes "scan_sectors H d lba num esize ss st a = Some (r, a')" "hba_conforms H (AHCI_DMA_PHYS a) idle media" "idle (hw a)"
  shows "keeps idle media a a'"
  using assms
proof (induction ss arbitrary: st a)
  case Nil
  then show ?case by (cases st) (auto intro: keeps_refl)
next
  case (Cons s ss)
  obtain acc i ps where st: "st = (acc, i, ps)" by (cases st)
  from Cons.prems(1) obtain at b esec a1 where rd: "ahci_read H d at (replicate 512 0) a = Some (b, esec, a1)"
    and rest: "a' = a1 \<or> (\<exists>st. scan_sectors H d lba num esize ss st a1 = Some (r, a'))"
    unfolding st by (auto split: if_splits; blast)
  note k = ahci_read_keeps [OF Cons.prems(2,3) rd]
  then show ?case using rest Cons.IH [of _ a1] Cons.prems(2) keepsD [OF k] keeps_trans [OF k] by auto
qed

lemma detect_keeps:
  assumes det: "detect H d (a, g) = Some (found, a', g')" and conf: "hba_conforms H (AHCI_DMA_PHYS a) idle media" "idle (hw a)"
  shows "keeps idle media a a'"
proof (cases "d \<ge> 8")
  case True
  then show ?thesis using det conf(2) by (auto simp: detect_def intro: keeps_refl)
next
  case False
  then obtain b sector a1 where rd: "ahci_read H d 1 (replicate 512 0) a = Some (b, sector, a1)" using det by (auto simp: detect_def)
  have "a' = a1 \<or> (\<exists>lba num es ss st r. scan_sectors H d lba num es ss st a1 = Some (r, a'))"
    using det False rd unfolding detect_def by (auto simp: Let_def split: if_splits option.splits; blast)
  then show ?thesis using ahci_read_keeps [OF conf rd] scan_sectors_keeps conf keepsD keeps_trans by metis
qed

text \<open>Mounting only reads: what every read keeps, it keeps.\<close>

lemma mount_reads:
  assumes "mount D d = Some (r, d')" "P d" "\<And>lba buf d r d'. read_blocks D lba buf d = Some (r, d') \<Longrightarrow> P d \<Longrightarrow> P d'"
  shows "P d'"
proof (cases "block_size D d = 512")
  case True
  then obtain r1 d1 where r1: "read_blocks D 2 (replicate 1024 0) d = Some (r1, d1)"
    using assms(1) by (auto simp: mount_def Let_def)
  have "d' = d1 \<or> (\<exists>lba buf r2. read_blocks D lba buf d1 = Some (r2, d'))"
  proof (cases r1)
    case (Inl e)
    then show ?thesis using assms(1) True r1 by (auto simp: mount_def Let_def split: if_splits)
  next
    case (Inr x)
    then show ?thesis using assms(1) True r1 by (auto simp: mount_def Let_def split: if_splits sum.split_asm; metis sumE)
  qed
  then show ?thesis using assms(2,3) r1 by blast
qed (use assms in \<open>auto simp: mount_def\<close>)

lemma gpt_read_keeps:
  assumes "read_blocks (gpt_device H p) lba buf d = Some (r, d')" "hba_conforms H (AHCI_DMA_PHYS a) idle media" "keeps idle media a d"
  shows "keeps idle media a d'"
proof -
  have "d' = d \<or> (\<exists>at b x. ahci_read H (disk p) at buf d = Some (b, x, d'))"
    using assms(1) by (auto simp: gpt_device_def gpt_read_blocks_def split: if_splits)
  then show ?thesis using ahci_read_keeps [of H d idle media] assms(2,3) keepsD [OF assms(3)] keeps_trans [OF assms(3)] by auto
qed

section \<open>The mount at boot\<close>

definition on_disk :: "'h ahci \<Rightarrow> GptPartition \<Rightarrow> bool" where
  "on_disk a p \<longleftrightarrow> start_lba p \<le> last_lba p \<and> last_lba p < push_bit 48 1 \<and> (\<exists>dev. device (disk p) a = Some dev \<and> last_lba p < sectors dev)"

definition mounted_ok :: "'h hba_ops \<Rightarrow> ('h \<Rightarrow> bool) \<Rightarrow> ('h \<Rightarrow> u64 \<Rightarrow> u8 \<Rightarrow> nat \<Rightarrow> u8 list) \<Rightarrow> 'h fs_state \<Rightarrow> bool" where
  "mounted_ok H idle media st \<longleftrightarrow> (\<exists>m. MOUNT st = Some m \<and> fs_ok (gpt_device H (PART st)) (gpt_ok H idle media (PART st)) m \<and> fs_dev m = fs_ahci st) \<and>
     type_is_linux (PART st) \<and> (\<exists>i<partition_count 0 (fs_disks st). partition 0 i (fs_disks st) = Some (PART st))"

lemma mount_first_step:
  assumes "mount_first H (i # js) st = Some (r, st')" "partition 0 i (fs_disks st) = Some p" "type_is_linux p"
  obtains x a where "mount (gpt_device H p) (fs_ahci st) = Some (x, a)"
    "case x of Inr fs \<Rightarrow> r \<and> st' = st\<lparr>PART := p, fs_ahci := a, MOUNT := Some fs\<rparr>
       | Inl e \<Rightarrow> mount_first H js (st\<lparr>PART := p, fs_ahci := a\<rparr>) = Some (r, st')"
proof (cases "mount (gpt_device H p) (fs_ahci st)")
  case (Some y)
  obtain x a where "y = (x, a)" by (cases y)
  then show ?thesis using that [of x a] assms Some by (cases x) auto
qed (use assms in simp)

lemma mount_first_disks: "mount_first H is st = Some (r, st') \<Longrightarrow> fs_disks st' = fs_disks st"
proof (induction "is" arbitrary: st)
  case (Cons i js)
  show ?case
  proof (cases "\<exists>p. partition 0 i (fs_disks st) = Some p \<and> type_is_linux p")
    case True
    then obtain p where "partition 0 i (fs_disks st) = Some p" "type_is_linux p" by blast
    from mount_first_step [OF Cons.prems this] obtain x a where "mount (gpt_device H p) (fs_ahci st) = Some (x, a)" and rest: "case x of Inr fs \<Rightarrow> r \<and> st' = st\<lparr>PART := p, fs_ahci := a, MOUNT := Some fs\<rparr>
        | Inl e \<Rightarrow> mount_first H js (st\<lparr>PART := p, fs_ahci := a\<rparr>) = Some (r, st')" .
    then show ?thesis using Cons.IH [of "st\<lparr>PART := p, fs_ahci := a\<rparr>"] by (cases x) auto
  qed (use Cons in \<open>auto split: option.splits\<close>)
qed simp

lemma mount_first_mounts:
  assumes "mount_first H is st = Some (r, st')" "hba_conforms H (AHCI_DMA_PHYS (fs_ahci st)) idle media" "idle (hw (fs_ahci st))"
    "\<And>i p. partition 0 i (fs_disks st) = Some p \<Longrightarrow> on_disk (fs_ahci st) p" "\<forall>i\<in>set is. i < partition_count 0 (fs_disks st)"
  shows "keeps idle media (fs_ahci st) (fs_ahci st') \<and> fs_disks st' = fs_disks st \<and> (if r then mounted_ok H idle media st' else MOUNT st' = MOUNT st)"
  using assms
proof (induction "is" arbitrary: st)
  case Nil
  then show ?case by (auto intro: keeps_refl)
next
  case (Cons i js)
  show ?case
  proof (cases "\<exists>p. partition 0 i (fs_disks st) = Some p \<and> type_is_linux p")
    case False
    then show ?thesis using Cons.IH [of st] Cons.prems by (auto split: option.splits)
  next
    case True
    then obtain p where p: "partition 0 i (fs_disks st) = Some p" "type_is_linux p" by blast
    from mount_first_step [OF Cons.prems(1) p] obtain x a where m: "mount (gpt_device H p) (fs_ahci st) = Some (x, a)"
      and rest: "case x of Inr fs \<Rightarrow> r \<and> st' = st\<lparr>PART := p, fs_ahci := a, MOUNT := Some fs\<rparr>
        | Inl e \<Rightarrow> mount_first H js (st\<lparr>PART := p, fs_ahci := a\<rparr>) = Some (r, st')" .
    have k: "keeps idle media (fs_ahci st) a"
      by (rule mount_reads [OF m]) (use Cons.prems(2,3) in \<open>auto intro: keeps_refl gpt_read_keeps\<close>)
    have ok: "gpt_ok H idle media p (fs_ahci st)" using Cons.prems(2-4) p(1) by (auto simp: gpt_ok_def on_disk_def)
    note M = vol.mount_inv [OF ok m]
    show ?thesis
    proof (cases x)
      case (Inr m')
      then show ?thesis using rest M k p Cons.prems(5) by (auto simp: mounted_ok_def)
    next
      case (Inl e)
      have "on_disk a q" if "partition 0 j (fs_disks st) = Some q" for j q
        using Cons.prems(4) [OF that] keepsD [OF k] by (auto simp: on_disk_def)
      then show ?thesis using Cons.IH [of "st\<lparr>PART := p, fs_ahci := a\<rparr>"] rest Inl Cons.prems(2,5) keepsD [OF k] keeps_trans [OF k] by auto
    qed
  qed
qed


text \<open>A disk with one Linux partition and a superblock in it.\<close>

definition sample_super :: "u8 list" where
  "sample_super = [16, 0, 0, 0, 32, 0, 0, 0, 0, 0, 0, 0, 20, 0, 0, 0, 4, 0, 0, 0, 1, 0, 0, 0] @ replicate 8 0 @ [0, 32, 0, 0] @ replicate 4 0 @ [16, 0, 0, 0] @
     replicate 12 0 @ [0x53, 0xEF] @ replicate 18 0 @ [1, 0, 0, 0] @ replicate 8 0 @ [128, 0] @ replicate 6 0 @ [0x42, 0, 0, 0] @ replicate 412 0"

definition sample_boot :: "ram_hba fs_state" where
  "sample_boot = \<lparr>fs_ahci = sample_gpt_disk (\<lambda>i. if i = 66 then sample_super else []), fs_disks = GPT_DISKS, PART = EMPTY_PARTITION 0, MOUNT = None\<rparr>"

abbreviation "boot_part \<equiv> parse_entry 0 sample_entry"

lemma boot_part: "start_lba boot_part = 64" "last_lba boot_part = 127" "disk boot_part = 0" "type_is_linux boot_part"
  by (simp_all add: parse_entry_def sample_entry_def entry_start_def entry_last_def type_is_linux_def)

lemma boot_device: "device 0 (sample_gpt_disk f) = Some \<lparr>is_present = True, hba = 0xFEBF1000, port = 0, sectors = 2048, lba48 = True\<rparr>"
  by (simp add: device_def sample_gpt_disk_def sample_ahci_def ahci_start_def)

lemma from_le_zero [simp]: "from_le_bytes (replicate n 0) = 0" by (induction n) simp_all

lemmas sb_defs = SB_INODES_COUNT_def SB_BLOCKS_PER_GROUP_def SB_INODES_PER_GROUP_def SB_REV_LEVEL_def SB_INODE_SIZE_def SB_FEATURE_INCOMPAT_def
  SB_FEATURE_RO_COMPAT_def SB_DESC_SIZE_def SB_BLOCKS_COUNT_LO_def SB_FREE_BLOCKS_LO_def SB_BLOCKS_COUNT_HI_def SB_FREE_BLOCKS_HI_def
  SB_FREE_INODES_def SB_FIRST_DATA_BLOCK_def SB_RESERVED_GDT_BLOCKS_def SB_UUID_def SB_VOLUME_NAME_def SB_CHECKSUM_SEED_def SB_CHECKSUM_def
  SB_MAGIC_def SB_LOG_BLOCK_SIZE_def SB_LOG_CLUSTER_SIZE_def

lemma sample_super_fields:
  fixes buf defines "buf \<equiv> sample_super @ replicate 512 0 @ drop 1024 zero_block"
  shows "le32 buf SB_INODES_COUNT = Some 16" "le32 buf SB_BLOCKS_PER_GROUP = Some 8192" "le32 buf SB_INODES_PER_GROUP = Some 16" "le32 buf SB_REV_LEVEL = Some 1"
    "le16 buf SB_INODE_SIZE = Some 128" "le32 buf SB_FEATURE_INCOMPAT = Some 0x42" "le32 buf SB_FEATURE_RO_COMPAT = Some 0" "le16 buf SB_DESC_SIZE = Some 0"
    "le32 buf SB_BLOCKS_COUNT_LO = Some 32" "le32 buf SB_FREE_BLOCKS_LO = Some 20" "le32 buf SB_BLOCKS_COUNT_HI = Some 0" "le32 buf SB_FREE_BLOCKS_HI = Some 0"
    "le32 buf SB_FREE_INODES = Some 4" "le32 buf SB_FIRST_DATA_BLOCK = Some 1" "le16 buf SB_RESERVED_GDT_BLOCKS = Some 0" "rd buf SB_UUID 16 = Some (replicate 16 0)"
    "rd buf SB_VOLUME_NAME 16 = Some (replicate 16 0)" "le32 buf SB_CHECKSUM_SEED = Some 0" "le32 buf SB_CHECKSUM = Some 0" "rd buf 0 0x3FC \<noteq> None"
    "le16 buf SB_MAGIC = Some EXT4_MAGIC" "le32 buf SB_LOG_BLOCK_SIZE = Some 0" "le32 buf SB_LOG_CLUSTER_SIZE = Some 0"
  by (simp_all add: buf_def sample_super_def le32_def le16_def rd_def zero_block_def MAX_BLOCK_SIZE_def sb_defs EXT4_MAGIC_def)

lemma sample_mount_super: "\<exists>fs. mount_super D d 1024 (sample_super @ replicate 512 0 @ drop 1024 zero_block) = Some (Inr fs)"
proof -
  obtain c where "rd (sample_super @ replicate 512 0 @ drop 1024 zero_block) 0 0x3FC = Some c" using sample_super_fields(20) by blast
  then show ?thesis
  by (simp add: mount_super_def sample_super_fields cadd_def csub_def Let_def GOOD_OLD_INODE_SIZE_def MAX_INODE_SIZE_def INCOMPAT_64BIT_def INCOMPAT_CSUM_SEED_def
      INCOMPAT_FILETYPE_def INCOMPAT_EXTENTS_def INCOMPAT_FLEX_BG_def)
qed

lemma sample_mounts:
  assumes h: "ram_media h = ram_media (hw (fs_ahci sample_boot))"
  shows "\<exists>fs a. mount (gpt_device ram_ops boot_part) ((fs_ahci sample_boot)\<lparr>hw := h\<rparr>) = Some (Inr fs, a)"
proof -
  let ?a = "(fs_ahci sample_boot)\<lparr>hw := h\<rparr>"
  have dev: "device 0 ?a = device 0 (fs_ahci sample_boot)" by (simp add: device_def)
  have ok: "gpt_ok ram_ops (\<lambda>_. True) ram_media boot_part ?a"
    by (simp add: gpt_ok_def boot_part dev ram_conforms) (simp add: sample_boot_def boot_device)
  have st: "gpt_store ram_media boot_part ?a i = (if i = 2 then sample_super else replicate 512 0)" if "i \<in> {2, 3}" for i
    using that h by (auto simp: gpt_store_def boot_part dev sample_boot_def boot_device ram_media_def sample_gpt_disk_def sample_super_def)
  have "length (replicate 1024 (0 :: u8)) = 512 * 2" "2 + 2 \<le> gpt_sectors boot_part" by (simp_all add: gpt_sectors_def boot_part)
  from gp.read_ok [OF ok this(1) _ _ this(2)] obtain d where
    d: "read_blocks (gpt_device ram_ops boot_part) 2 (replicate 1024 0) ?a = Some (Inr (sample_super @ replicate 512 0), d)"
    using st by (auto simp: load_sectors_def upt_rec)
  obtain fs where "mount_super (gpt_device ram_ops boot_part) d 1024 (sample_super @ replicate 512 0 @ drop 1024 zero_block) = Some (Inr fs)"
    using sample_mount_super [of "gpt_device ram_ops boot_part" d] by blast
  then show ?thesis using d gp.sector_size [of ram_ops boot_part] by (simp add: mount_def Let_def sample_super_fields)
qed


end
