(* ===== verification/Graphics.thy ===== *)
theory Graphics
  imports Font
begin

text \<open>
  Drawing on the framebuffer (\<^verbatim>\<open>src/graphics.rs\<close>).

  The video memory is the function \<open>pixels\<close> from the index of a 32-bit cell behind the framebuffer's address to its colour; the
  record holds the fields of Limine's structure the kernel reads.  The record is extended by the terminal, so the operations are
  defined on the scheme.
\<close>

record LimineFramebuffer =
  fb_address :: u64
  fb_width :: u64
  fb_height :: u64
  fb_pitch :: u64
  fb_bpp :: u16

record screen =
  FB :: "LimineFramebuffer option"
  pixels :: "nat \<Rightarrow> u32"

section \<open>Operations\<close>

definition graphics_init :: "LimineFramebuffer option \<Rightarrow> 'a screen_scheme \<Rightarrow> 'a screen_scheme" where
  "graphics_init fb s = s\<lparr>FB := fb\<rparr>"

definition draw_pixel :: "u64 \<Rightarrow> u64 \<Rightarrow> u32 \<Rightarrow> 'a screen_scheme \<Rightarrow> 'a screen_scheme option" where
  "draw_pixel x y color s = (case FB s of
      None \<Rightarrow> Some s
    | Some fb \<Rightarrow>
        if x \<ge> fb_width fb \<or> y \<ge> fb_height fb then Some s
        else do {
          row \<leftarrow> cmul y (fb_pitch fb div 4);
          i \<leftarrow> cadd row x;
          Some (s\<lparr>pixels := (pixels s)(unat i := color)\<rparr>)
        })"

definition draw_char :: "u8 \<Rightarrow> u64 \<Rightarrow> u64 \<Rightarrow> u32 \<Rightarrow> 'a screen_scheme \<Rightarrow> 'a screen_scheme option" where
  "draw_char c x y color =
     (let bitmap = FONT8X8_BASIC ! unat (c AND 0x7F) in
      for_each [0..<8] (\<lambda>row s. let bits = bitmap ! row in
        if bits = 0 then Some s
        else for_each [0..<8] (\<lambda>col s.
          if bits AND push_bit col 1 \<noteq> 0 then do {
            px \<leftarrow> cadd x (of_nat col);
            py \<leftarrow> cadd y (of_nat row);
            draw_pixel px py color s
          } else Some s) s))"

definition framebuffer_width :: "'a screen_scheme \<Rightarrow> u64" where
  "framebuffer_width s = (case FB s of None \<Rightarrow> 0 | Some fb \<Rightarrow> fb_width fb)"

definition framebuffer_height :: "'a screen_scheme \<Rightarrow> u64" where
  "framebuffer_height s = (case FB s of None \<Rightarrow> 0 | Some fb \<Rightarrow> fb_height fb)"

definition framebuffer_address :: "'a screen_scheme \<Rightarrow> u64" where
  "framebuffer_address s = (case FB s of None \<Rightarrow> 0 | Some fb \<Rightarrow> fb_address fb)"

definition framebuffer_pitch :: "'a screen_scheme \<Rightarrow> u64" where
  "framebuffer_pitch s = (case FB s of None \<Rightarrow> 0 | Some fb \<Rightarrow> fb_pitch fb)"

definition framebuffer_bpp :: "'a screen_scheme \<Rightarrow> u64" where
  "framebuffer_bpp s = (case FB s of None \<Rightarrow> 0 | Some fb \<Rightarrow> ucast (fb_bpp fb))"

text \<open>The loop of \<^verbatim>\<open>draw_string\<close>, with its cursor.\<close>

fun draw_bytes :: "u8 list \<Rightarrow> u64 \<Rightarrow> u64 \<Rightarrow> u64 \<Rightarrow> u64 \<Rightarrow> u32 \<Rightarrow> 'a screen_scheme \<Rightarrow> 'a screen_scheme option" where
  "draw_bytes [] cursor_x cursor_y x width color s = Some s"
| "draw_bytes (byte # bs) cursor_x cursor_y x width color s = do {
     fin \<leftarrow> cadd cursor_x 8;
     (cx, cy) \<leftarrow> (if fin > width then do { cy \<leftarrow> cadd cursor_y 8; Some (x, cy) } else Some (cursor_x, cursor_y));
     s \<leftarrow> draw_char byte cx cy color s;
     cx \<leftarrow> cadd cx 8;
     draw_bytes bs cx cy x width color s
   }"

definition draw_string :: "u8 list \<Rightarrow> u64 \<Rightarrow> u64 \<Rightarrow> u32 \<Rightarrow> 'a screen_scheme \<Rightarrow> 'a screen_scheme option" where
  "draw_string str x y color s = draw_bytes str x y x (framebuffer_width s) color s"

definition clear_screen :: "u32 \<Rightarrow> 'a screen_scheme \<Rightarrow> 'a screen_scheme option" where
  "clear_screen color s = (case FB s of
      None \<Rightarrow> Some s
    | Some fb \<Rightarrow>
        for_each [0..<unat (fb_height fb)] (\<lambda>y.
          for_each [0..<unat (fb_width fb)] (\<lambda>x. draw_pixel (of_nat x) (of_nat y) color)) s)"

definition scroll_framebuffer :: "u64 \<Rightarrow> u32 \<Rightarrow> 'a screen_scheme \<Rightarrow> 'a screen_scheme option" where
  "scroll_framebuffer rows fill_color s = (case FB s of
      None \<Rightarrow> Some s
    | Some fb \<Rightarrow> let height = fb_height fb; rows = min rows height; pitch_pixels = fb_pitch fb div 4 in do {
        copy_pixels \<leftarrow> cmul (height - rows) pitch_pixels;
        s \<leftarrow> for_each [0..<unat copy_pixels] (\<lambda>i s. do {
               shift \<leftarrow> cmul rows pitch_pixels;
               from \<leftarrow> cadd (of_nat i) shift;
               Some (s\<lparr>pixels := (pixels s)(i := pixels s (unat from))\<rparr>)
             }) s;
        for_each [unat (height - rows)..<unat height] (\<lambda>y.
          for_each [0..<unat pitch_pixels] (\<lambda>x s. do {
            row \<leftarrow> cmul (of_nat y) pitch_pixels;
            i \<leftarrow> cadd row (of_nat x);
            Some (s\<lparr>pixels := (pixels s)(unat i := fill_color)\<rparr>)
          })) s
      })"

section \<open>Geometry\<close>

text \<open>A framebuffer whose rows fit their pitch and whose pixels can be counted in 64 bits.\<close>

definition fb_ok :: "LimineFramebuffer \<Rightarrow> bool" where
  "fb_ok fb \<longleftrightarrow> fb_width fb \<le> fb_pitch fb div 4 \<and> unat (fb_height fb) * unat (fb_pitch fb div 4) < 2 ^ 64"

text \<open>The number of cells of the video memory, and the index of a pixel in it.\<close>

definition fb_cells :: "LimineFramebuffer \<Rightarrow> nat" where
  "fb_cells fb = unat (fb_height fb) * unat (fb_pitch fb div 4)"

definition pixel_at :: "LimineFramebuffer \<Rightarrow> nat \<Rightarrow> nat \<Rightarrow> nat" where
  "pixel_at fb x y = y * unat (fb_pitch fb div 4) + x"

lemma pixel_in_cells:
  assumes "y < h" "x < p"
  shows "y * p + x < h * (p :: nat)"
proof -
  have "y * p + x < Suc y * p" using assms(2) by simp
  also have "\<dots> \<le> h * p" using assms(1) by (intro mult_le_mono1) simp
  finally show ?thesis .
qed

text \<open>On such a framebuffer a pixel inside is stored in its cell and one outside is clipped.\<close>

lemma draw_pixel_eq:
  assumes "FB s = Some fb" "fb_ok fb"
  shows "draw_pixel x y color s = Some (if x < fb_width fb \<and> y < fb_height fb
    then s\<lparr>pixels := (pixels s)(pixel_at fb (unat x) (unat y) := color)\<rparr> else s)"
proof (cases "x < fb_width fb \<and> y < fb_height fb")
  case True
  let ?p = "fb_pitch fb div 4"
  have "unat x < unat ?p" "unat y < unat (fb_height fb)" using True assms(2) by (auto simp: fb_ok_def word_less_nat_alt word_le_nat_alt)
  then have b: "unat y * unat ?p + unat x < 2 ^ 64" using pixel_in_cells [of "unat y" "unat (fb_height fb)" "unat x" "unat ?p"] assms(2)
    by (simp add: fb_ok_def)
  then have "cmul y ?p = Some (y * ?p)" "unat (y * ?p) = unat y * unat ?p" by (simp_all add: cmul_def unat_mult_bounded)
  then have "cadd (y * ?p) x = Some (y * ?p + x)" "unat (y * ?p + x) = pixel_at fb (unat x) (unat y)"
    using b by (simp_all add: cadd_def unat_add_bounded pixel_at_def)
  then show ?thesis using True assms(1) \<open>cmul y ?p = Some (y * ?p)\<close> by (auto simp: draw_pixel_def)
qed (use assms(1) in \<open>auto simp: draw_pixel_def not_less\<close>)


lemma draw_pixel_confined:
  assumes "FB s = Some fb" "fb_ok fb"
  shows "\<exists>px. draw_pixel x y color s = Some (s\<lparr>pixels := px\<rparr>) \<and> (\<forall>i\<ge>fb_cells fb. px i = pixels s i)"
proof -
  have "pixel_at fb (unat x) (unat y) < fb_cells fb" if "x < fb_width fb" "y < fb_height fb"
    using that assms(2) unfolding pixel_at_def fb_cells_def
    by (intro pixel_in_cells) (auto simp: fb_ok_def word_less_nat_alt word_le_nat_alt)
  then show ?thesis unfolding draw_pixel_eq [OF assms]
    by (intro exI [of _ "if x < fb_width fb \<and> y < fb_height fb then (pixels s)(pixel_at fb (unat x) (unat y) := color) else pixels s"]) auto
qed

text \<open>What a drawing operation may do: change pixels of the framebuffer, and nothing else.\<close>

definition drew :: "LimineFramebuffer \<Rightarrow> 'a screen_scheme \<Rightarrow> 'a screen_scheme \<Rightarrow> bool" where
  "drew fb s s' \<longleftrightarrow> (\<exists>px. s' = s\<lparr>pixels := px\<rparr> \<and> (\<forall>i\<ge>fb_cells fb. px i = pixels s i))"

lemma drew_refl [simp]: "drew fb s s" by (auto simp: drew_def intro: exI [of _ "pixels s"])

lemma drew_trans: "drew fb s t \<Longrightarrow> drew fb t u \<Longrightarrow> drew fb s u" by (auto simp: drew_def)

lemma drewD: "drew fb s s' \<Longrightarrow> FB s' = FB s" by (auto simp: drew_def)

lemma draw_pixel_drew: "FB s = Some fb \<Longrightarrow> fb_ok fb \<Longrightarrow> \<exists>s'. draw_pixel x y color s = Some s' \<and> drew fb s s'"
  using draw_pixel_confined [of s fb x y color] by (auto simp: drew_def)

lemma for_each_drew:
  assumes "\<And>x t. x \<in> set xs \<Longrightarrow> FB t = Some fb \<Longrightarrow> \<exists>t'. f x t = Some t' \<and> drew fb t t'" "FB s = Some fb"
  shows "\<exists>s'. for_each xs f s = Some s' \<and> drew fb s s'"
proof (rule for_each_inv)
  fix x t
  assume x: "x \<in> set xs" and t: "drew fb s t"
  then show "\<exists>t'. f x t = Some t' \<and> drew fb s t'" using assms(1) [OF x, of t] drewD [OF t] assms(2) drew_trans [OF t] by auto
qed simp

lemma draw_char_drew:
  assumes "FB s = Some fb" "fb_ok fb" "unat x + 8 < 2 ^ 64" "unat y + 8 < 2 ^ 64"
  shows "\<exists>s'. draw_char c x y color s = Some s' \<and> drew fb s s'"
proof -
  have c: "cadd z (of_nat k) = Some (z + of_nat k)" if "unat z + 8 < 2 ^ 64" "k < 8" for z :: u64 and k
    using that by (simp add: cadd_def unat_of_nat_bounded)
  show ?thesis unfolding draw_char_def Let_def
  proof (rule for_each_drew, goal_cases)
    case (1 row t)
    show ?case
    proof (cases "FONT8X8_BASIC ! unat (c AND 0x7F) ! row = 0")
      case False
      have "\<exists>t'. for_each [0..<8] (\<lambda>col s. if FONT8X8_BASIC ! unat (c AND 0x7F) ! row AND push_bit col 1 \<noteq> 0
          then do { px \<leftarrow> cadd x (of_nat col); py \<leftarrow> cadd y (of_nat row); draw_pixel px py color s } else Some s) t = Some t' \<and> drew fb t t'"
        by (rule for_each_drew) (use 1 c [OF assms(3)] c [OF assms(4), of row] draw_pixel_drew [OF _ assms(2)] in auto)
      then show ?thesis using False by simp
    qed simp
  qed (rule assms)
qed


section \<open>Scrolling\<close>

text \<open>The cells after scrolling up by \<open>r\<close> of \<open>h\<close> rows of \<open>p\<close> cells.\<close>

definition scrolled :: "nat \<Rightarrow> nat \<Rightarrow> nat \<Rightarrow> u32 \<Rightarrow> (nat \<Rightarrow> u32) \<Rightarrow> nat \<Rightarrow> u32" where
  "scrolled h p r fill px i = (if i < (h - r) * p then px (i + r * p) else if i < h * p then fill else px i)"

lemma copy_loop:
  fixes k :: u64
  assumes "\<forall>i<n. \<exists>w. cadd (of_nat i) k = Some w \<and> unat w = i + unat k"
  shows "for_each [0..<n] (\<lambda>i s. do { from \<leftarrow> cadd (of_nat i) k; Some (s\<lparr>pixels := (pixels s)(i := pixels s (unat from))\<rparr>) }) s =
    Some (s\<lparr>pixels := \<lambda>i. if i < n then pixels s (i + unat k) else pixels s i\<rparr>)"
proof -
  let ?P = "\<lambda>n t. t = s\<lparr>pixels := \<lambda>i. if i < n then pixels s (i + unat k) else pixels s i\<rparr>"
  have "\<exists>t. for_each [0..<n] (\<lambda>i s. do { from \<leftarrow> cadd (of_nat i) k; Some (s\<lparr>pixels := (pixels s)(i := pixels s (unat from))\<rparr>) }) s = Some t \<and> ?P n t"
  proof (rule for_each_upt)
    fix i t
    assume i: "i < n" and t: "?P i t"
    obtain w where "cadd (of_nat i) k = Some w" "unat w = i + unat k" using assms i by blast
    then show "\<exists>t'. (do { from \<leftarrow> cadd (of_nat i) k; Some (t\<lparr>pixels := (pixels t)(i := pixels t (unat from))\<rparr>) }) = Some t' \<and> ?P (Suc i) t'"
      using t by (auto simp: fun_eq_iff intro!: arg_cong [where f = "\<lambda>px. s\<lparr>pixels := px\<rparr>"])
  qed simp_all
  then show ?thesis by simp
qed

lemma fill_loop:
  fixes p :: u64
  assumes ok: "h * unat p < 2 ^ 64" and "m \<le> h"
  shows "for_each [m..<h] (\<lambda>y. for_each [0..<unat p] (\<lambda>x s. do { row \<leftarrow> cmul (of_nat y) p; i \<leftarrow> cadd row (of_nat x);
      Some (s\<lparr>pixels := (pixels s)(unat i := fill)\<rparr>) })) s =
    Some (s\<lparr>pixels := \<lambda>i. if m * unat p \<le> i \<and> i < h * unat p then fill else pixels s i\<rparr>)"
proof -
  let ?st = "\<lambda>n. s\<lparr>pixels := \<lambda>i. if m * unat p \<le> i \<and> i < n then fill else pixels s i\<rparr>"
  let ?f = "\<lambda>y x s. do { row \<leftarrow> cmul (of_nat y) p; i \<leftarrow> cadd row (of_nat x); Some (s\<lparr>pixels := (pixels s)(unat i := fill)\<rparr>) }"
  have cell: "\<exists>row i. cmul (of_nat y) p = Some row \<and> cadd row (of_nat x) = Some i \<and> unat i = y * unat p + x" if "y < h" "x < unat p" for x y
  proof -
    have b: "y * unat p + x < 2 ^ 64" using pixel_in_cells [OF that] ok by simp
    have "y \<le> y * unat p" using that(2) by (cases "unat p") simp_all
    then have "y < 2 ^ 64" using b by linarith
    then have y: "unat (of_nat y :: u64) = y" by (intro unat_of_nat_bounded) simp
    have x: "unat (of_nat x :: u64) = x" using b by (intro unat_of_nat_bounded) simp
    show ?thesis using b x y by (simp add: cmul_def cadd_def unat_mult_bounded unat_add_bounded)
  qed
  have "\<exists>t. for_each [m..<h] (\<lambda>y. for_each [0..<unat p] (?f y)) s = Some t \<and> t = ?st (h * unat p)"
  proof (rule for_each_upt [where P = "\<lambda>y t. t = ?st (y * unat p)"])
    fix y t
    assume y: "m \<le> y" "y < h" and t: "t = ?st (y * unat p)"
    have "\<exists>t'. for_each [0..<unat p] (?f y) t = Some t' \<and> t' = ?st (y * unat p + unat p)"
    proof (rule for_each_upt [where P = "\<lambda>x t. t = ?st (y * unat p + x)"])
      fix x u
      assume "x < unat p" and u: "u = ?st (y * unat p + x)"
      from cell [OF y(2) this(1)] obtain row i where "cmul (of_nat y) p = Some row" "cadd row (of_nat x) = Some i" "unat i = y * unat p + x" by blast
      moreover have "m * unat p \<le> y * unat p + x" using y(1) by (simp add: trans_le_add1)
      ultimately show "\<exists>t'. ?f y x u = Some t' \<and> t' = ?st (y * unat p + Suc x)"
        using u by (auto simp: fun_eq_iff intro!: arg_cong [where f = "\<lambda>px. s\<lparr>pixels := px\<rparr>"])
    qed (use t in simp_all)
    then show "\<exists>t'. for_each [0..<unat p] (?f y) t = Some t' \<and> t' = ?st (Suc y * unat p)" by (simp add: add.commute)
  qed (use assms(2) in \<open>cases s, auto simp: fun_eq_iff\<close>)
  then show ?thesis by simp
qed

lemma scroll_framebuffer_eq:
  assumes fb: "FB s = Some fb" and ok: "fb_ok fb"
  shows "scroll_framebuffer rows fill s =
    Some (s\<lparr>pixels := scrolled (unat (fb_height fb)) (unat (fb_pitch fb div 4)) (min (unat rows) (unat (fb_height fb))) fill (pixels s)\<rparr>)"
proof -
  let ?h = "fb_height fb" and ?p = "fb_pitch fb div 4" and ?r = "min rows (fb_height fb)"
  have r: "unat ?r = min (unat rows) (unat ?h)" "?r \<le> ?h" by (simp_all add: min_def word_le_nat_alt)
  have hp: "unat ?h * unat ?p < 2 ^ 64" using ok by (simp add: fb_ok_def)
  have hr: "unat (?h - ?r) = unat ?h - unat ?r" using r(2) by (simp add: unat_sub)
  have sum: "(unat ?h - unat ?r) * unat ?p + unat ?r * unat ?p = unat ?h * unat ?p"
    using r(2) by (simp add: word_le_nat_alt flip: add_mult_distrib)
  have copy: "cmul (?h - ?r) ?p = Some ((?h - ?r) * ?p)" "unat ((?h - ?r) * ?p) = (unat ?h - unat ?r) * unat ?p"
    using sum hp hr by (simp_all add: cmul_def unat_mult_bounded)
  have shift: "cmul ?r ?p = Some (?r * ?p)" "unat (?r * ?p) = unat ?r * unat ?p"
    using sum hp by (simp_all add: cmul_def unat_mult_bounded)
  have "\<exists>w. cadd (of_nat i) (?r * ?p) = Some w \<and> unat w = i + unat (?r * ?p)" if "i < unat ((?h - ?r) * ?p)" for i
  proof -
    have "i + unat (?r * ?p) < 2 ^ 64" using that sum hp copy(2) shift(2) by simp
    moreover from this have "unat (of_nat i :: u64) = i" by (intro unat_of_nat_bounded) simp
    ultimately show ?thesis by (simp add: cadd_def unat_add_bounded)
  qed
  then have "\<forall>i<unat ((?h - ?r) * ?p). \<exists>w. cadd (of_nat i) (?r * ?p) = Some w \<and> unat w = i + unat (?r * ?p)" by blast
  note L1 = copy_loop [OF this]
  have le: "unat (?h - ?r) \<le> unat ?h" by (simp add: hr)
  have "scroll_framebuffer rows fill s = Some (s\<lparr>pixels := \<lambda>i. if unat (?h - ?r) * unat ?p \<le> i \<and> i < unat ?h * unat ?p then fill
      else if i < unat ((?h - ?r) * ?p) then pixels s (i + unat (?r * ?p)) else pixels s i\<rparr>)"
    unfolding scroll_framebuffer_def Let_def fb option.case copy(1) shift(1) bind.bind_lunit
    unfolding L1 bind.bind_lunit fill_loop [OF hp le] by (simp cong: if_cong)
  also have "\<dots> = Some (s\<lparr>pixels := scrolled (unat ?h) (unat ?p) (min (unat rows) (unat ?h)) fill (pixels s)\<rparr>)"
    using sum unfolding copy(2) shift(2) hr r(1) [symmetric] by (auto simp: scrolled_def fun_eq_iff intro!: arg_cong [where f = "\<lambda>px. s\<lparr>pixels := px\<rparr>"])
  finally show ?thesis .
qed

lemma scrolled_outside: "h * p \<le> i \<Longrightarrow> scrolled h p r fill px i = px i"
proof -
  assume "h * p \<le> i"
  moreover have "(h - r) * p \<le> h * p" by (rule mult_le_mono1) simp
  ultimately have "\<not> i < (h - r) * p" by linarith
  with \<open>h * p \<le> i\<close> show ?thesis by (simp add: scrolled_def)
qed

lemma scroll_framebuffer_drew: "FB s = Some fb \<Longrightarrow> fb_ok fb \<Longrightarrow> \<exists>s'. scroll_framebuffer rows fill s = Some s' \<and> drew fb s s'"
  using scroll_framebuffer_eq [of s fb rows fill] by (auto simp: drew_def fb_cells_def scrolled_outside intro!: exI [of _ "scrolled _ _ _ _ _"])

end
