(* ===== verification/Terminal.thy ===== *)
theory Terminal
  imports Graphics
begin

text \<open>
  The text terminal (\<^verbatim>\<open>src/terminal.rs\<close>): a cursor on top of the screen.  \<^verbatim>\<open>core::fmt\<close> turns a format string and its
  arguments into bytes; \<open>print\<close> takes those bytes.  \<^verbatim>\<open>halt\<close> and \<^verbatim>\<open>panic\<close> never return, which is the \<open>None\<close> every
  definition of the development ends with when the kernel stops.
\<close>

definition LINE_HEIGHT :: u64 where "LINE_HEIGHT = 30"
definition FONT_WIDTH :: u64 where "FONT_WIDTH = 8"
definition SCROLL_COLOR :: u32 where "SCROLL_COLOR = 0"
definition TEXT_COLOR :: u32 where "TEXT_COLOR = 0xFFFFFF"

record terminal = screen +
  CURSOR_X :: u64
  CURSOR_Y :: u64

type_synonym 'a tty = "'a terminal_scheme"

section \<open>Operations\<close>

definition set_cursor_raw :: "u64 \<Rightarrow> u64 \<Rightarrow> 'a tty \<Rightarrow> 'a tty" where
  "set_cursor_raw x y s = s\<lparr>CURSOR_X := x, CURSOR_Y := y\<rparr>"

definition get_cursor_x :: "'a tty \<Rightarrow> u64" where "get_cursor_x s = CURSOR_X s"
definition get_cursor_y :: "'a tty \<Rightarrow> u64" where "get_cursor_y s = CURSOR_Y s"
definition set_cursor :: "u64 \<Rightarrow> u64 \<Rightarrow> 'a tty \<Rightarrow> 'a tty" where "set_cursor = set_cursor_raw"

definition newline :: "'a tty \<Rightarrow> 'a tty option" where
  "newline s = do {
     y \<leftarrow> cadd (CURSOR_Y s) LINE_HEIGHT;
     if y \<ge> framebuffer_height s then do {
       s \<leftarrow> scroll_framebuffer LINE_HEIGHT SCROLL_COLOR s;
       y \<leftarrow> csub (framebuffer_height s) LINE_HEIGHT;
       Some (set_cursor_raw 0 y s)
     } else Some (set_cursor_raw 0 y s)
   }"

definition saturating_sub :: "'a::len word \<Rightarrow> 'a word \<Rightarrow> 'a word" where
  "saturating_sub a b = (if b \<le> a then a - b else 0)"

definition advance :: "'a tty \<Rightarrow> 'a tty option" where
  "advance s = do {
     x \<leftarrow> cadd (CURSOR_X s) FONT_WIDTH;
     if x > saturating_sub (framebuffer_width s) FONT_WIDTH then newline s
     else Some (set_cursor_raw x (CURSOR_Y s) s)
   }"

definition clear :: "u32 \<Rightarrow> 'a tty \<Rightarrow> 'a tty option" where
  "clear color s = clear_screen color (set_cursor_raw 0 0 s)"

definition putc_color :: "u8 \<Rightarrow> u32 \<Rightarrow> 'a tty \<Rightarrow> 'a tty option" where
  "putc_color c color s =
     (if c = 0x0A then newline s
      else do { s \<leftarrow> draw_char c (CURSOR_X s) (CURSOR_Y s) color s; advance s })"

definition putc :: "u8 \<Rightarrow> 'a tty \<Rightarrow> 'a tty option" where
  "putc c s =
     (if c = 0x0A then newline s
      else do { s \<leftarrow> draw_char c (CURSOR_X s) (CURSOR_Y s) TEXT_COLOR s; advance s })"

definition puts :: "u8 list \<Rightarrow> 'a tty \<Rightarrow> 'a tty option" where
  "puts bs = for_each bs putc"

definition print :: "u8 list \<Rightarrow> 'a tty \<Rightarrow> 'a tty option" where
  "print args = puts args"

definition draw_bar :: "u32 \<Rightarrow> 'a tty \<Rightarrow> 'a tty option" where
  "draw_bar color s = for_each [0..<8] (\<lambda>i t. do {
     x \<leftarrow> cadd (CURSOR_X s) (of_nat i);
     y \<leftarrow> cadd (CURSOR_Y s) 8;
     draw_pixel x y color t
   }) s"

definition draw_cursor :: "'a tty \<Rightarrow> 'a tty option" where "draw_cursor = draw_bar TEXT_COLOR"
definition erase_cursor :: "'a tty \<Rightarrow> 'a tty option" where "erase_cursor = draw_bar SCROLL_COLOR"

definition hex_digits :: "u8 list" where
  "hex_digits = [0x30, 0x31, 0x32, 0x33, 0x34, 0x35, 0x36, 0x37, 0x38, 0x39, 0x41, 0x42, 0x43, 0x44, 0x45, 0x46]"

definition printf_hex :: "u32 \<Rightarrow> 'a tty \<Rightarrow> 'a tty option" where
  "printf_hex v = puts ([0x30, 0x78] @ map (\<lambda>i. hex_digits ! unat (drop_bit (28 - i * 4) v AND 0xF)) [0..<8])"

section \<open>The cursor stays on the screen\<close>

text \<open>
  The terminal's invariant: a framebuffer at least one line high and one glyph wide, whose pixels can be counted, and a cursor
  whose glyph cell starts inside it.
\<close>

definition term_fb :: "LimineFramebuffer \<Rightarrow> bool" where
  "term_fb fb \<longleftrightarrow> fb_ok fb \<and> LINE_HEIGHT \<le> fb_height fb \<and> FONT_WIDTH \<le> fb_width fb"

definition term_ok :: "LimineFramebuffer \<Rightarrow> 'a tty \<Rightarrow> bool" where
  "term_ok fb s \<longleftrightarrow> FB s = Some fb \<and> CURSOR_X s \<le> fb_width fb - FONT_WIDTH \<and> CURSOR_Y s < fb_height fb"

text \<open>What printing may change: pixels of the framebuffer and the cursor.\<close>

definition printed :: "LimineFramebuffer \<Rightarrow> 'a tty \<Rightarrow> 'a tty \<Rightarrow> bool" where
  "printed fb s s' \<longleftrightarrow> s' = s\<lparr>pixels := pixels s', CURSOR_X := CURSOR_X s', CURSOR_Y := CURSOR_Y s'\<rparr> \<and>
     (\<forall>i\<ge>fb_cells fb. pixels s' i = pixels s i)"

lemma printed_refl [simp]: "printed fb s s"
  by (simp add: printed_def)

lemma printed_trans: "printed fb s t \<Longrightarrow> printed fb t u \<Longrightarrow> printed fb s u"
  unfolding printed_def by (cases s, cases t, cases u) auto

lemma drew_printed: "drew fb s t \<Longrightarrow> printed fb s (set_cursor_raw x y t)"
  by (auto simp: drew_def printed_def set_cursor_raw_def)

lemma drew_printed_same: "drew fb s t \<Longrightarrow> printed fb s t"
  by (auto simp: drew_def printed_def)

lemma term_fb_bounds:
  assumes "term_fb fb"
  shows "unat (fb_height fb) \<le> 2 ^ 61" "unat (fb_width fb) \<le> 2 ^ 62" "30 \<le> unat (fb_height fb)" "8 \<le> unat (fb_width fb)"
proof -
  let ?p = "unat (fb_pitch fb div 4)" and ?h = "unat (fb_height fb)"
  have w: "8 \<le> unat (fb_width fb)" "30 \<le> ?h" "unat (fb_width fb) \<le> ?p" "?h * ?p < 2 ^ 64"
    using assms by (simp_all add: term_fb_def fb_ok_def LINE_HEIGHT_def FONT_WIDTH_def word_le_nat_alt)
  have "?p \<le> 2 ^ 62" using unat_u64 [of "fb_pitch fb"] by (simp add: unat_div)
  then show "unat (fb_width fb) \<le> 2 ^ 62" using w(3) by simp
  have "?h * 8 \<le> ?h * ?p" using w by (intro mult_le_mono2) simp
  then have "?h * 8 < 2 ^ 64" using w(4) by linarith
  then show "?h \<le> 2 ^ 61" by simp
qed (use assms in \<open>simp_all add: term_fb_def LINE_HEIGHT_def FONT_WIDTH_def word_le_nat_alt\<close>)

lemma newline_ok:
  assumes "term_fb fb" "FB s = Some fb" "CURSOR_Y s < fb_height fb"
  shows "\<exists>s'. newline s = Some s' \<and> printed fb s s' \<and> term_ok fb s'"
proof -
  note b = term_fb_bounds [OF assms(1)]
  have fb: "fb_ok fb" "LINE_HEIGHT \<le> fb_height fb" using assms(1) by (simp_all add: term_fb_def)
  have y: "cadd (CURSOR_Y s) LINE_HEIGHT = Some (CURSOR_Y s + LINE_HEIGHT)"
    using assms(3) b(1) by (simp add: cadd_def LINE_HEIGHT_def word_less_nat_alt)
  obtain t where t: "scroll_framebuffer LINE_HEIGHT SCROLL_COLOR s = Some t" "drew fb s t" using scroll_framebuffer_drew [OF assms(2) fb(1)] by blast
  have ft: "FB t = Some fb" using drewD [OF t(2)] assms(2) by simp
  have "fb_height fb - LINE_HEIGHT < fb_height fb" using fb(2) b(3) by (simp add: LINE_HEIGHT_def word_less_nat_alt unat_sub)
  then show ?thesis using y t ft assms(2) fb(2) drew_printed [OF t(2)] drew_printed [OF drew_refl, of fb s]
    by (auto simp: newline_def framebuffer_height_def csub_def term_ok_def set_cursor_raw_def not_le)
qed

lemma advance_ok:
  assumes "term_fb fb" "term_ok fb s"
  shows "\<exists>s'. advance s = Some s' \<and> printed fb s s' \<and> term_ok fb s'"
proof -
  note b = term_fb_bounds [OF assms(1)]
  have s: "FB s = Some fb" "CURSOR_Y s < fb_height fb" "FONT_WIDTH \<le> fb_width fb" "CURSOR_X s \<le> fb_width fb - FONT_WIDTH"
    using assms by (simp_all add: term_fb_def term_ok_def)
  have "unat (CURSOR_X s) \<le> unat (fb_width fb)" using s(3,4) by (simp add: word_le_nat_alt unat_sub)
  then have "cadd (CURSOR_X s) FONT_WIDTH = Some (CURSOR_X s + FONT_WIDTH)" using b(2) by (simp add: cadd_def FONT_WIDTH_def)
  then show ?thesis using newline_ok [OF assms(1) s(1,2)] s drew_printed [OF drew_refl, of fb s "CURSOR_X s + FONT_WIDTH" "CURSOR_Y s"]
    by (auto simp: advance_def saturating_sub_def framebuffer_width_def term_ok_def set_cursor_raw_def not_less)
qed

lemma putc_ok:
  assumes "term_fb fb" "term_ok fb s"
  shows "\<exists>s'. putc c s = Some s' \<and> printed fb s s' \<and> term_ok fb s'"
proof (cases "c = 0x0A")
  case True
  then show ?thesis using newline_ok [OF assms(1), of s] assms(2) by (simp add: putc_def term_ok_def)
next
  case False
  note b = term_fb_bounds [OF assms(1)]
  have fb: "FB s = Some fb" "fb_ok fb" using assms by (simp_all add: term_ok_def term_fb_def)
  have "unat (CURSOR_X s) + 8 < 2 ^ 64" "unat (CURSOR_Y s) + 8 < 2 ^ 64"
    using assms b by (auto simp: term_ok_def term_fb_def word_le_nat_alt word_less_nat_alt unat_sub FONT_WIDTH_def)
  from draw_char_drew [OF fb this] obtain t where t: "draw_char c (CURSOR_X s) (CURSOR_Y s) TEXT_COLOR s = Some t" "drew fb s t" by blast
  then have "term_ok fb t" using assms(2) by (auto simp: drew_def term_ok_def)
  from advance_ok [OF assms(1) this] show ?thesis using False t printed_trans [OF drew_printed_same [OF t(2)]]
    by (auto simp: putc_def)
qed

lemma puts_ok:
  assumes "term_fb fb" "term_ok fb s"
  shows "\<exists>s'. puts bs s = Some s' \<and> printed fb s s' \<and> term_ok fb s'"
proof -
  have "\<exists>t'. putc c t = Some t' \<and> printed fb s t' \<and> term_ok fb t'" if "printed fb s t \<and> term_ok fb t" for c t
    using putc_ok [OF assms(1), of t c] that printed_trans by blast
  from for_each_inv [of "\<lambda>t. printed fb s t \<and> term_ok fb t" s bs putc, OF _ this] show ?thesis using assms(2) by (simp add: puts_def)
qed


section \<open>Properties\<close>


definition sample_tty :: terminal where
  "sample_tty = \<lparr>FB = Some \<lparr>fb_address = 0xFFFF8000FD000000, fb_width = 640, fb_height = 480, fb_pitch = 2560, fb_bpp = 32\<rparr>,
     pixels = (\<lambda>_. 0), CURSOR_X = 632, CURSOR_Y = 450\<rparr>"


end
