(* ===== verification/Klog.thy ===== *)
theory Klog
  imports Terminal
begin

text \<open>
  Log levels and the run-time threshold (\<^verbatim>\<open>src/klog.rs\<close>), and the build script that chooses the first threshold (\<^verbatim>\<open>build.rs\<close>).
  The Cargo features that decide what is compiled are the record \<open>features\<close>, an argument of the macros and of \<open>emit\<close>.
  \<^verbatim>\<open>Level::None\<close> is \<open>Silent\<close> here.
\<close>

datatype Level = Trace | Debug | Info | Warn | Error | Silent

text \<open>The discriminants of the enumeration, \<^verbatim>\<open>level as i32\<close>.\<close>

primrec level_code :: "Level \<Rightarrow> int" where
  "level_code Trace = 0"
| "level_code Debug = 1"
| "level_code Info = 2"
| "level_code Warn = 3"
| "level_code Error = 4"
| "level_code Silent = 5"

text \<open>The derived order of the enumeration.\<close>

instantiation Level :: linorder
begin

definition less_eq_Level :: "Level \<Rightarrow> Level \<Rightarrow> bool" where "less_eq_Level a b \<longleftrightarrow> level_code a \<le> level_code b"
definition less_Level :: "Level \<Rightarrow> Level \<Rightarrow> bool" where "less_Level a b \<longleftrightarrow> level_code a < level_code b"

instance
proof
  fix x y :: Level
  show "x \<le> y \<Longrightarrow> y \<le> x \<Longrightarrow> x = y" by (cases x; cases y) (simp_all add: less_eq_Level_def)
qed (auto simp: less_eq_Level_def less_Level_def)

end

record console = terminal +
  THRESHOLD :: int

record features =
  debug :: bool
  debug_pci :: bool
  debug_heap :: bool
  log_tags :: bool

definition default_features :: features where
  "default_features = \<lparr>debug = True, debug_pci = True, debug_heap = True, log_tags = True\<rparr>"

section \<open>Operations\<close>

definition NAMES :: "(string \<times> Level) list" where
  "NAMES = [(''trace'', Trace), (''debug'', Debug), (''info'', Info), (''warn'', Warn), (''error'', Error), (''none'', Silent)]"

definition enabled :: "Level \<Rightarrow> 'a console_scheme \<Rightarrow> bool" where
  "enabled level s = (if THRESHOLD s \<ge> level_code Silent then False else level_code level \<ge> THRESHOLD s)"

definition level_name :: "Level \<Rightarrow> string" where
  "level_name level = (case find (\<lambda>(nm, v). v = level) NAMES of Some (nm, v) \<Rightarrow> nm | None \<Rightarrow> ''unknown'')"

definition level_parse :: "string \<Rightarrow> Level option" where
  "level_parse nm = map_option snd (find (\<lambda>(candidate, v). candidate = nm) NAMES)"

definition set_level :: "Level \<Rightarrow> 'a console_scheme \<Rightarrow> 'a console_scheme" where
  "set_level level s = s\<lparr>THRESHOLD := level_code level\<rparr>"

definition get_level :: "'a console_scheme \<Rightarrow> Level" where
  "get_level s =
     (if THRESHOLD s = 0 then Trace
      else if THRESHOLD s = 1 then Debug
      else if THRESHOLD s = 2 then Info
      else if THRESHOLD s = 3 then Warn
      else if THRESHOLD s = 4 then Error
      else Silent)"

definition klog_init :: "string \<Rightarrow> 'a console_scheme \<Rightarrow> 'a console_scheme" where
  "klog_init PINX_LOG_LEVEL = (case level_parse PINX_LOG_LEVEL of Some level \<Rightarrow> set_level level | None \<Rightarrow> set_level Info)"

text \<open>Text as the bytes the terminal prints.\<close>

definition ascii :: "string \<Rightarrow> u8 list" where "ascii = map of_char"

definition emit :: "features \<Rightarrow> Level \<Rightarrow> u8 list \<Rightarrow> 'a console_scheme \<Rightarrow> 'a console_scheme option" where
  "emit F level args s = do {
     s \<leftarrow> (if log_tags F then print (ascii ''['' @ ascii (level_name level) @ ascii ''] '') s else Some s);
     print args s
   }"

definition klog_at :: "features \<Rightarrow> Level \<Rightarrow> u8 list \<Rightarrow> 'a console_scheme \<Rightarrow> 'a console_scheme option" where
  "klog_at F level args s = (if enabled level s then emit F level args s else Some s)"

definition klog_error :: "features \<Rightarrow> u8 list \<Rightarrow> 'a console_scheme \<Rightarrow> 'a console_scheme option" where
  "klog_error F args = emit F Error args"

definition ktrace :: "features \<Rightarrow> u8 list \<Rightarrow> 'a console_scheme \<Rightarrow> 'a console_scheme option" where
  "ktrace F args s = (if debug F then klog_at F Trace args s else Some s)"

definition kdebug :: "features \<Rightarrow> u8 list \<Rightarrow> 'a console_scheme \<Rightarrow> 'a console_scheme option" where
  "kdebug F args s = (if debug F then klog_at F Debug args s else Some s)"

definition kinfo :: "features \<Rightarrow> u8 list \<Rightarrow> 'a console_scheme \<Rightarrow> 'a console_scheme option" where
  "kinfo F args s = (if debug F then klog_at F Info args s else Some s)"

definition kerror :: "features \<Rightarrow> u8 list \<Rightarrow> 'a console_scheme \<Rightarrow> 'a console_scheme option" where
  "kerror F args s = klog_at F Error args s"

definition kpci :: "features \<Rightarrow> u8 list \<Rightarrow> 'a console_scheme \<Rightarrow> 'a console_scheme option" where
  "kpci F args s = (if debug F \<and> debug_pci F then klog_at F Info args s else Some s)"

definition kheap :: "features \<Rightarrow> u8 list \<Rightarrow> 'a console_scheme \<Rightarrow> 'a console_scheme option" where
  "kheap F args s = (if debug F \<and> debug_heap F then klog_at F Warn args s else Some s)"

text \<open>The build script: the level of the environment, or \<open>info\<close>; a word it does not know fails the build.\<close>

definition LEVELS :: "string list" where "LEVELS = [''trace'', ''debug'', ''info'', ''warn'', ''error'', ''none'']"

definition build_level :: "string option \<Rightarrow> string option" where
  "build_level env = (let level = (case env of Some l \<Rightarrow> l | None \<Rightarrow> ''info'') in if level \<in> set LEVELS then Some level else None)"

section \<open>Names and thresholds\<close>

lemma level_parse_name: "level_parse (level_name l) = Some l"
  by (cases l) (simp_all add: level_parse_def level_name_def NAMES_def)

lemma level_name_parse: "level_parse nm = Some l \<longleftrightarrow> nm = level_name l"
  by (cases l) (auto simp: level_parse_def level_name_def NAMES_def split: if_splits)

lemma get_set_level: "get_level (set_level l s) = l"
  by (cases l) (simp_all add: get_level_def set_level_def)

lemma enabled_set_level: "enabled l (set_level t s) \<longleftrightarrow> t \<noteq> Silent \<and> t \<le> l"
  by (cases t) (simp_all add: enabled_def set_level_def less_eq_Level_def)

lemma levels_named: "nm \<in> set LEVELS \<longleftrightarrow> (\<exists>l. nm = level_name l)"
proof -
  have "LEVELS = map level_name [Trace, Debug, Info, Warn, Error, Silent]" by (simp add: LEVELS_def level_name_def NAMES_def)
  moreover have "l \<in> set [Trace, Debug, Info, Warn, Error, Silent]" for l by (cases l) simp_all
  ultimately show ?thesis by (metis image_iff list.set_map)
qed

section \<open>Properties\<close>

text \<open>
  The threshold chosen at build time is the one in force.  Whatever the build script accepts names a level; after initialisation that level is the
  threshold the kernel reports, and a message is printed exactly when its level is at or above the threshold and the threshold is
  not \<open>none\<close>.
\<close>

lemma klog_threshold:
  assumes "build_level env = Some nm"
  shows "\<exists>t. nm = level_name t \<and> get_level (klog_init nm s) = t \<and>
    (\<forall>F l args. klog_at F l args (klog_init nm s) = (if t \<noteq> Silent \<and> t \<le> l then emit F l args (klog_init nm s) else Some (klog_init nm s)))"
proof -
  have "nm \<in> set LEVELS" using assms by (auto simp: build_level_def Let_def split: if_splits)
  then obtain t where t: "nm = level_name t" using levels_named by blast
  have "klog_init nm s = set_level t s" by (simp add: klog_init_def t level_parse_name)
  then show ?thesis using t by (intro exI [of _ t]) (simp add: get_set_level klog_at_def enabled_set_level)
qed

end
