(* ===== verification/Apic.thy ===== *)
theory Apic
  imports Smp Scheduler Spinlock
begin

text \<open>
  The local APIC, the IOAPIC and the timer (\<^verbatim>\<open>src/apic.rs\<close>), and the delays built on it (\<^verbatim>\<open>src/delay.rs\<close>).

  What the driver writes to the hardware is the list \<open>io\<close> of its instructions in order: \<^verbatim>\<open>wrmsr\<close> with its three registers, \<^verbatim>\<open>out\<close> and the
  volatile stores to the IOAPIC window.  What it reads (\<^verbatim>\<open>rdmsr\<close> and \<^verbatim>\<open>cpuid\<close>) are parameters.
\<close>

definition IOAPIC_BASE :: u64 where "IOAPIC_BASE = 0xFEC00000"
definition IOAPIC_VIRT :: u64 where "IOAPIC_VIRT = 0xFFFFC00000000000"
definition IOAPIC_IOREGSEL :: u64 where "IOAPIC_IOREGSEL = 0x00"
definition IOAPIC_IOWIN :: u64 where "IOAPIC_IOWIN = 0x10"
definition IOAPIC_REDIR_DEST_ID_SHIFT :: nat where "IOAPIC_REDIR_DEST_ID_SHIFT = 24"
definition IOAPIC_REDIR_BASE :: u32 where "IOAPIC_REDIR_BASE = 0x10"
definition PIC1_CMD :: u16 where "PIC1_CMD = 0x21"
definition PIC2_CMD :: u16 where "PIC2_CMD = 0xA1"
definition X2APIC_MSR_BASE :: u32 where "X2APIC_MSR_BASE = 0x800"
definition X2APIC_MSR_EOI :: u32 where "X2APIC_MSR_EOI = X2APIC_MSR_BASE + 0x0B"
definition X2APIC_MSR_APICID :: u32 where "X2APIC_MSR_APICID = X2APIC_MSR_BASE + 0x02"
definition X2APIC_MSR_SPIVR :: u32 where "X2APIC_MSR_SPIVR = X2APIC_MSR_BASE + 0x0F"
definition X2APIC_MSR_LVT_TIMER :: u32 where "X2APIC_MSR_LVT_TIMER = X2APIC_MSR_BASE + 0x32"
definition X2APIC_MSR_LVT_LINT0 :: u32 where "X2APIC_MSR_LVT_LINT0 = X2APIC_MSR_BASE + 0x35"
definition X2APIC_MSR_LVT_LINT1 :: u32 where "X2APIC_MSR_LVT_LINT1 = X2APIC_MSR_BASE + 0x36"
definition X2APIC_MSR_LVT_ERROR :: u32 where "X2APIC_MSR_LVT_ERROR = X2APIC_MSR_BASE + 0x37"
definition X2APIC_MSR_TMRINITCNT :: u32 where "X2APIC_MSR_TMRINITCNT = X2APIC_MSR_BASE + 0x38"
definition X2APIC_MSR_TMRDIV :: u32 where "X2APIC_MSR_TMRDIV = X2APIC_MSR_BASE + 0x3E"
definition IA32_APIC_BASE_MSR :: u32 where "IA32_APIC_BASE_MSR = 0x1B"
definition APIC_LVT_MASKED :: u32 where "APIC_LVT_MASKED = push_bit 16 1"
definition APIC_LVT_PERIODIC :: u32 where "APIC_LVT_PERIODIC = push_bit 17 1"
definition SPURIOUS_VECTOR :: u8 where "SPURIOUS_VECTOR = 0xFF"
definition IRQ_VECTOR :: u8 where "IRQ_VECTOR = 33"

datatype apic_io = Wrmsr u32 u32 u32 | Outb u16 u8 | Mmio u64 u32

record apic =
  APIC_TICKS :: u32
  UPTIME_MS :: u64
  TSC_FREQ :: u32
  io :: "apic_io list"

text \<open>The registers the driver reads: \<^verbatim>\<open>rdmsr\<close> returns \<^verbatim>\<open>eax\<close> and \<^verbatim>\<open>edx\<close>, and leaf 1 of \<^verbatim>\<open>cpuid\<close> its \<^verbatim>\<open>ecx\<close>.\<close>

record apic_hw =
  msr :: "u32 \<Rightarrow> u32 \<times> u32"
  cpuid1_ecx :: u32

section \<open>Operations\<close>

definition apic_start :: apic where "apic_start = \<lparr>APIC_TICKS = 0, UPTIME_MS = 0, TSC_FREQ = 0, io = []\<rparr>"

definition put_io :: "apic_io \<Rightarrow> apic \<Rightarrow> apic" where "put_io e s = s\<lparr>io := io s @ [e]\<rparr>"

definition rdmsr :: "apic_hw \<Rightarrow> u32 \<Rightarrow> u64" where
  "rdmsr H m = (let (low, high) = msr H m in push_bit 32 (ucast high) OR ucast low)"

definition wrmsr :: "u32 \<Rightarrow> u64 \<Rightarrow> apic \<Rightarrow> apic" where
  "wrmsr m v = put_io (Wrmsr m (ucast v) (ucast (drop_bit 32 v)))"

definition x2apic_write :: "u32 \<Rightarrow> u32 \<Rightarrow> apic \<Rightarrow> apic" where
  "x2apic_write reg val = wrmsr reg (ucast val)"

definition ioapic_addr :: "u64 \<Rightarrow> u64" where "ioapic_addr reg = IOAPIC_VIRT + reg"

definition ioapic_write :: "u32 \<Rightarrow> u32 \<Rightarrow> apic \<Rightarrow> apic" where
  "ioapic_write reg val s = put_io (Mmio (ioapic_addr IOAPIC_IOWIN) val) (put_io (Mmio (ioapic_addr IOAPIC_IOREGSEL) reg) s)"

definition cpuid_has_x2apic :: "apic_hw \<Rightarrow> bool" where
  "cpuid_has_x2apic H \<longleftrightarrow> drop_bit 21 (cpuid1_ecx H) AND 1 \<noteq> 0"

definition apic_get_id :: "apic_hw \<Rightarrow> u32" where
  "apic_get_id H = ucast (rdmsr H X2APIC_MSR_APICID AND 0xFFFFFFFF)"

definition local_id :: "apic_hw \<Rightarrow> u32" where "local_id H = apic_get_id H"

text \<open>The mode, polarity, trigger and mask fields of the low half are all zero.\<close>

definition ioapic_route_pin :: "apic_hw \<Rightarrow> u8 \<Rightarrow> u8 \<Rightarrow> apic \<Rightarrow> apic" where
  "ioapic_route_pin H pin vector s =
     (let reg_low = IOAPIC_REDIR_BASE + 2 * ucast pin; reg_high = reg_low + 1; low = ucast vector;
          high = push_bit IOAPIC_REDIR_DEST_ID_SHIFT (apic_get_id H AND 0xFF)
      in ioapic_write reg_high high (ioapic_write reg_low low s))"

definition apic_init_cpu :: "apic_hw \<Rightarrow> apic \<Rightarrow> apic option" where
  "apic_init_cpu H s =
     (if \<not> cpuid_has_x2apic H then None
      else let base = (rdmsr H IA32_APIC_BASE_MSR AND NOT (push_bit 11 1)) OR (push_bit 10 1 OR push_bit 11 1);
               s = wrmsr IA32_APIC_BASE_MSR base s;
               s = x2apic_write X2APIC_MSR_LVT_LINT0 APIC_LVT_MASKED s;
               s = x2apic_write X2APIC_MSR_LVT_LINT1 APIC_LVT_MASKED s;
               s = x2apic_write X2APIC_MSR_LVT_ERROR APIC_LVT_MASKED s
           in Some (x2apic_write X2APIC_MSR_SPIVR (ucast SPURIOUS_VECTOR OR push_bit 8 1) s))"

definition apic_init_ap :: "apic_hw \<Rightarrow> apic \<Rightarrow> apic option" where "apic_init_ap = apic_init_cpu"

definition init_bsp :: "apic_hw \<Rightarrow> apic \<times> mm \<Rightarrow> (apic \<times> mm) option" where
  "init_bsp H = (\<lambda>(s, m). do {
     s \<leftarrow> apic_init_cpu H s;
     let s = put_io (Outb PIC2_CMD 0xFF) (put_io (Outb PIC1_CMD 0xFF) s);
     m \<leftarrow> vmm_map_mmio IOAPIC_VIRT IOAPIC_BASE m;
     Some (ioapic_route_pin H 1 IRQ_VECTOR s, m)
   })"

definition send_eoi :: "apic \<Rightarrow> apic" where "send_eoi = x2apic_write X2APIC_MSR_EOI 0"

definition timer_init :: "u32 \<Rightarrow> apic \<Rightarrow> apic option" where
  "timer_init tsc_freq s =
     (let s = x2apic_write X2APIC_MSR_LVT_TIMER (ucast TIMER_VECTOR OR APIC_LVT_MASKED OR APIC_LVT_PERIODIC) s;
          s = x2apic_write X2APIC_MSR_TMRDIV 0x03 s;
          ticks_per_ms = tsc_freq div (16 * 1000)
      in if ticks_per_ms = 0 then None
         else Some (x2apic_write X2APIC_MSR_LVT_TIMER (ucast TIMER_VECTOR OR APIC_LVT_PERIODIC)
                (x2apic_write X2APIC_MSR_TMRINITCNT ticks_per_ms s)))"

definition set_tsc_freq :: "u32 \<Rightarrow> apic \<Rightarrow> apic" where "set_tsc_freq f s = s\<lparr>TSC_FREQ := f\<rparr>"

definition timer_init_cpu :: "apic \<Rightarrow> apic option" where
  "timer_init_cpu s = (if TSC_FREQ s = 0 then None else timer_init (TSC_FREQ s) s)"

text \<open>The timer interrupt on the CPU with index \<open>c\<close>; \<^verbatim>\<open>fetch_add\<close> wraps around.\<close>

definition timer_irq :: "nat \<Rightarrow> apic \<Rightarrow> apic" where
  "timer_irq c s =
     (let s = s\<lparr>APIC_TICKS := APIC_TICKS s + 1\<rparr> in if c = 0 then s\<lparr>UPTIME_MS := UPTIME_MS s + 1\<rparr> else s)"

definition get_ticks :: "apic \<Rightarrow> u32" where "get_ticks s = APIC_TICKS s"
definition uptime_ms :: "apic \<Rightarrow> u64" where "uptime_ms s = UPTIME_MS s"

section \<open>Delays\<close>

definition delay_init :: "u32 \<Rightarrow> apic \<Rightarrow> apic option" where "delay_init tsc_freq = timer_init tsc_freq"

text \<open>
  \<^verbatim>\<open>sleep_ms\<close>.  Between two loads of the tick counter the CPU halts and interrupts advance it, so the loop runs over the values the loads return, in
  order; it yields how many loads it took, and nothing while the last value still says to wait.
\<close>

fun sleep_loop :: "u32 \<Rightarrow> u32 \<Rightarrow> u32 list \<Rightarrow> nat option" where
  "sleep_loop start ms [] = None"
| "sleep_loop start ms (t # ts) = (if t - start < ms then map_option Suc (sleep_loop start ms ts) else Some 1)"

definition sleep_ms :: "u32 \<Rightarrow> u32 \<Rightarrow> u32 list \<Rightarrow> u64 \<Rightarrow> (nat \<times> u64) option" where
  "sleep_ms ms start loads rf =
     (let (flags, rf) = irq_save rf; rf = irq_enable rf
      in map_option (\<lambda>n. (n, irq_restore flags rf)) (sleep_loop start ms loads))"


section \<open>Waiting across the wrap of the counter\<close>

lemma elapsed_ticks:
  fixes start :: u32
  assumes "T0 \<le> T" "T - T0 < 2 ^ 32"
  shows "unat (of_nat T - of_nat T0 :: u32) = T - T0"
proof -
  have "(of_nat T :: u32) - of_nat T0 = of_nat (T - T0)" using assms(1) by simp
  then show ?thesis using assms(2) by (simp add: unat_of_nat_bounded)
qed

lemma sleep_loop_first:
  assumes "\<forall>t\<in>set Ts. T0 \<le> t \<and> t - T0 < 2 ^ 32" "\<exists>t\<in>set Ts. unat ms \<le> t - T0"
  shows "\<exists>i<length Ts. sleep_loop (of_nat T0) ms (map of_nat Ts) = Some (Suc i) \<and> unat ms \<le> Ts ! i - T0 \<and> (\<forall>j<i. Ts ! j - T0 < unat ms)"
  using assms
proof (induction Ts)
  case (Cons t ts)
  have e: "(of_nat t - of_nat T0 :: u32) < ms \<longleftrightarrow> t - T0 < unat ms" using Cons.prems(1) elapsed_ticks [of T0 t] by (simp add: word_less_nat_alt)
  show ?case
  proof (cases "t - T0 < unat ms")
    case True
    then obtain i where "i < length ts" "sleep_loop (of_nat T0) ms (map of_nat ts) = Some (Suc i)" "unat ms \<le> ts ! i - T0" "\<forall>j<i. ts ! j - T0 < unat ms"
      using Cons by auto
    then show ?thesis using True e by (intro exI [of _ "Suc i"]) (auto simp: nth_Cons' less_Suc_eq_0_disj)
  next
    case False
    then show ?thesis using e by (intro exI [of _ 0]) simp
  qed
qed simp

section \<open>Properties\<close>



end
