(* ===== verification/Idt.thy ===== *)
theory Idt
  imports Gdt
begin

text \<open>
  The interrupt descriptor table (\<^verbatim>\<open>src/idt.rs\<close>).  The stubs the gates point at are assembly, known here by their addresses: \<open>handler v\<close> is
  the address of the stub the source names in the gate of vector \<open>v\<close> (\<^verbatim>\<open>isr0\<close> for 0, \<^verbatim>\<open>int80\<close> for 128, and so on).
\<close>

record IdtEntry =
  offset_low :: u16
  selector :: u16
  ist :: u8
  type_attr :: u8
  offset_mid :: u16
  offset_high :: u32
  reserved :: u32

record IdtPtr =
  limit :: u16
  base :: u64

definition ZERO_GATE :: IdtEntry where
  "ZERO_GATE = \<lparr>offset_low = 0, selector = 0, ist = 0, type_attr = 0, offset_mid = 0, offset_high = 0, reserved = 0\<rparr>"

definition PIC_SPURIOUS_VECTOR :: nat where "PIC_SPURIOUS_VECTOR = 15"
definition APIC_SPURIOUS_VECTOR :: nat where "APIC_SPURIOUS_VECTOR = 0xFF"
definition IDT_SYSCALL_VECTOR :: nat where "IDT_SYSCALL_VECTOR = 0x80"

section \<open>Building the table\<close>

definition set_gate :: "nat \<Rightarrow> u64 \<Rightarrow> u16 \<Rightarrow> u8 \<Rightarrow> IdtEntry list \<Rightarrow> IdtEntry list" where
  "set_gate v offset sel attr idt = idt[v := \<lparr>offset_low = ucast (offset AND 0xFFFF), selector = sel, ist = 0, type_attr = attr,
     offset_mid = ucast (drop_bit 16 offset AND 0xFFFF), offset_high = ucast (drop_bit 32 offset AND 0xFFFFFFFF), reserved = 0\<rparr>]"

text \<open>The vectors of the \<^verbatim>\<open>gate!\<close> lines, in order.\<close>

definition gate_vectors :: "nat list" where
  "gate_vectors = [0, 1, 2, 3, 4, 5, 6, 7, 8, 10, 11, 12, 13, 14, 17, 18, 19, 21,
     32, 33, 34, 35, 36, 37, 38, 39, 40, 41, 42, 43, 44, 45, 46, 47, PIC_SPURIOUS_VECTOR, APIC_SPURIOUS_VECTOR]"

definition idt_init :: "(nat \<Rightarrow> u64) \<Rightarrow> u64 \<Rightarrow> IdtEntry list \<times> IdtPtr" where
  "idt_init handler idt_address =
     (let idt = replicate 256 ZERO_GATE;
          idt = fold (\<lambda>v. set_gate v (handler v) 0x08 0x8E) gate_vectors idt;
          idt = set_gate IDT_SYSCALL_VECTOR (handler IDT_SYSCALL_VECTOR) 0x08 0xEE idt
      in (idt, \<lparr>limit = of_nat (256 * 16 - 1), base = idt_address\<rparr>))"

section \<open>What the processor reads\<close>

definition gate_offset :: "IdtEntry \<Rightarrow> u64" where
  "gate_offset e = ucast (offset_low e) OR push_bit 16 (ucast (offset_mid e)) OR push_bit 32 (ucast (offset_high e))"

definition gate_present :: "IdtEntry \<Rightarrow> bool" where "gate_present e \<longleftrightarrow> bit (type_attr e) 7"
definition gate_dpl :: "IdtEntry \<Rightarrow> u8" where "gate_dpl e = drop_bit 5 (type_attr e) AND 3"

text \<open>A software interrupt from ring 3 passes a gate that is present and has privilege level 3.\<close>

definition user_may_call :: "IdtEntry \<Rightarrow> bool" where "user_may_call e \<longleftrightarrow> gate_present e \<and> gate_dpl e = 3"

lemma gate_offset_parts:
  "ucast (ucast (x AND 0xFFFF) :: u16) OR push_bit 16 (ucast (ucast (drop_bit 16 x AND 0xFFFF) :: u16)) OR
   push_bit 32 (ucast (ucast (drop_bit 32 x AND 0xFFFFFFFF) :: u32)) = (x :: u64)"
proof -
  have m: "(0xFFFF :: u64) = mask 16" "(0xFFFFFFFF :: u64) = mask 32" by (simp_all add: mask_eq_exp_minus_1)
  have "bit (ucast (ucast (x AND mask 16) :: u16) OR push_bit 16 (ucast (ucast (drop_bit 16 x AND mask 16) :: u16)) OR
      push_bit 32 (ucast (ucast (drop_bit 32 x AND mask 32) :: u32)) :: u64) n = bit x n" if "n < 64" for n
    using that by (cases "n < 16"; cases "n < 32") (auto simp: bit_simps)
  then show ?thesis unfolding m by (intro bit_word_eqI) simp
qed

lemma zero_gate [simp]: "gate_offset ZERO_GATE = 0" "selector ZERO_GATE = 0" "type_attr ZERO_GATE = 0"
  by (simp_all add: gate_offset_def ZERO_GATE_def)

lemma set_gate_nth:
  assumes "v < length idt" "w < length idt"
  shows "gate_offset (set_gate v off sel a idt ! w) = (if w = v then off else gate_offset (idt ! w))"
    "selector (set_gate v off sel a idt ! w) = (if w = v then sel else selector (idt ! w))"
    "type_attr (set_gate v off sel a idt ! w) = (if w = v then a else type_attr (idt ! w))"
  using assms by (auto simp: set_gate_def gate_offset_def gate_offset_parts)

lemma length_set_gate [simp]: "length (set_gate v off sel a idt) = length idt" by (simp add: set_gate_def)

lemma length_gates [simp]: "length (fold (\<lambda>v. set_gate v (handler v) sel a) vs idt) = length idt"
  by (induction vs arbitrary: idt) simp_all

lemma gates_nth:
  assumes "\<forall>v\<in>set vs. v < length idt" "w < length idt"
  shows "gate_offset (fold (\<lambda>v. set_gate v (handler v) sel a) vs idt ! w) = (if w \<in> set vs then handler w else gate_offset (idt ! w))"
    "selector (fold (\<lambda>v. set_gate v (handler v) sel a) vs idt ! w) = (if w \<in> set vs then sel else selector (idt ! w))"
    "type_attr (fold (\<lambda>v. set_gate v (handler v) sel a) vs idt ! w) = (if w \<in> set vs then a else type_attr (idt ! w))"
  using assms by (induction vs arbitrary: idt) (auto simp: set_gate_nth)

section \<open>Properties\<close>

text \<open>
  C36: The interrupt table.  After initialisation every installed vector has a present gate that leads, through the kernel code selector, to exactly the
  stub the source names for it; every other vector is empty; ring 3 can pass the gate of vector 128 and no other; and the loaded limit covers the
  whole table.
\<close>

theorem idt_init_gates:
  "(let (idt, ptr) = idt_init handler address in length idt = 256 \<and> unat (limit ptr) + 1 = 16 * length idt \<and> base ptr = address \<and>
    (\<forall>v<256. if v \<in> set gate_vectors \<or> v = IDT_SYSCALL_VECTOR
      then gate_present (idt ! v) \<and> gate_offset (idt ! v) = handler v \<and> selector (idt ! v) = KERNEL_CODE_SELECTOR \<and>
        (user_may_call (idt ! v) \<longleftrightarrow> v = IDT_SYSCALL_VECTOR)
      else \<not> gate_present (idt ! v)))"
proof -
  let ?idt = "fst (idt_init handler address)"
  have vs: "\<forall>v\<in>set gate_vectors. v < 256" "IDT_SYSCALL_VECTOR < 256" "IDT_SYSCALL_VECTOR \<notin> set gate_vectors"
    by (simp_all add: gate_vectors_def PIC_SPURIOUS_VECTOR_def APIC_SPURIOUS_VECTOR_def IDT_SYSCALL_VECTOR_def)
  have t: "gate_offset (?idt ! v) = (if v \<in> set gate_vectors \<or> v = IDT_SYSCALL_VECTOR then handler v else 0)"
    "selector (?idt ! v) = (if v \<in> set gate_vectors \<or> v = IDT_SYSCALL_VECTOR then 0x08 else 0)"
    "type_attr (?idt ! v) = (if v = IDT_SYSCALL_VECTOR then 0xEE else if v \<in> set gate_vectors then 0x8E else 0)" if "v < 256" for v
    using that vs by (simp_all add: idt_init_def Let_def set_gate_nth gates_nth)
  have a: "bit (0xEE :: u8) 7" "bit (0x8E :: u8) 7" "drop_bit 5 (0xEE :: u8) AND 3 = 3" "drop_bit 5 (0x8E :: u8) AND 3 \<noteq> 3" by simp_all
  have "length ?idt = 256" "snd (idt_init handler address) = \<lparr>limit = 4095, base = address\<rparr>" by (simp_all add: idt_init_def Let_def)
  then show ?thesis using t a by (auto simp: case_prod_unfold Let_def gate_present_def user_may_call_def gate_dpl_def KERNEL_CODE_SELECTOR_def)
qed


theorem idt_init_gates_witness:
  "let (idt, ptr) = idt_init (\<lambda>v. 0xFFFFFFFF80000000 + 16 * of_nat v) 0xFFFFFFFF80100000 in
     gate_offset (idt ! 14) = 0xFFFFFFFF800000E0 \<and> \<not> user_may_call (idt ! 14) \<and> user_may_call (idt ! 128)"
proof -
  have v: "14 \<in> set gate_vectors" "IDT_SYSCALL_VECTOR = 128" by (simp_all add: gate_vectors_def IDT_SYSCALL_VECTOR_def)
  show ?thesis
    using idt_init_gates [of "\<lambda>v. 0xFFFFFFFF80000000 + 16 * of_nat v" "0xFFFFFFFF80100000"] v
    by (auto simp: Let_def dest: spec [of _ 14] spec [of _ 128])
qed

end
