(* ===== verification/Memory.thy ===== *)
theory Memory
  imports Vmm
begin

text \<open>
  Bytes of memory and what a program's addresses mean.  The store of theory \<open>Vmm\<close> holds 64-bit cells, addressed through the direct map; a byte
  is one eighth of its cell, so that byte copies and page-table entries alias exactly as in the machine.  \<open>load_byte\<close> and \<open>store_byte\<close> are what
  the processor does with an access to a virtual address: walk the tables, then touch the byte.  An access to an unmapped page stops the kernel.
\<close>

section \<open>Bytes of cells\<close>

definition get_byte :: "(u64 \<Rightarrow> u64) \<Rightarrow> u64 \<Rightarrow> u8" where
  "get_byte m a = ucast (drop_bit (8 * unat (a AND 7)) (m (a AND NOT 7)))"

definition put_byte :: "u64 \<Rightarrow> u8 \<Rightarrow> (u64 \<Rightarrow> u64) \<Rightarrow> u64 \<Rightarrow> u64" where
  "put_byte a b m = (let c = a AND NOT 7; k = 8 * unat (a AND 7) in
     m(c := (m c AND NOT (push_bit k 0xFF)) OR push_bit k (ucast b)))"

fun copy_bytes :: "u64 \<Rightarrow> u8 list \<Rightarrow> (u64 \<Rightarrow> u64) \<Rightarrow> u64 \<Rightarrow> u64" where
  "copy_bytes a [] m = m"
| "copy_bytes a (b # bs) m = copy_bytes (a + 1) bs (put_byte a b m)"

definition phys_to_virt :: "mm \<Rightarrow> u64 \<Rightarrow> u64 option" where
  "phys_to_virt s physical = do { h \<leftarrow> hhdm s; cadd physical h }"

definition hhdm_offset :: "mm \<Rightarrow> u64 option" where "hhdm_offset s = hhdm s"

definition load_byte :: "u64 \<Rightarrow> mm \<Rightarrow> u8 option" where
  "load_byte va s = do {
     p \<leftarrow> vmm_virt_to_phys va s;
     if p = VMM_NO_PHYS then None
     else do { a \<leftarrow> phys_to_virt s p; Some (get_byte (mem s) a) }
   }"

definition store_byte :: "u64 \<Rightarrow> u8 \<Rightarrow> mm \<Rightarrow> mm option" where
  "store_byte va b s = do {
     p \<leftarrow> vmm_virt_to_phys va s;
     if p = VMM_NO_PHYS then None
     else do { a \<leftarrow> phys_to_virt s p; Some (s\<lparr>mem := put_byte a b (mem s)\<rparr>) }
   }"

lemma cell_mask: "(7 :: u64) = mask 3" "(0xFF :: u64) = mask 8" by (simp_all add: mask_eq_exp_minus_1)

lemma low_bits_less: "unat (a AND 7 :: u64) < 8"
  using unat_align_low [of a 3] by (simp add: cell_mask)

lemma split_low: "a = b \<longleftrightarrow> a AND NOT 7 = b AND NOT 7 \<and> a AND 7 = b AND (7 :: u64)"
proof
  assume e: "a AND NOT 7 = b AND NOT 7 \<and> a AND 7 = b AND 7"
  have "x = (x AND NOT 7) OR (x AND 7)" for x :: u64 by (rule bit_word_eqI) (auto simp: bit_simps)
  then show "a = b" using e by metis
qed simp

lemma get_put_byte: "get_byte (put_byte a b m) c = (if c = a then b else get_byte m c)"
proof (cases "c AND NOT 7 = a AND NOT 7")
  case True
  let ?i = "unat (a AND 7)" and ?j = "unat (c AND 7)"
  have ij: "?i < 8" "?j < 8" by (rule low_bits_less)+
  have eq: "c = a \<longleftrightarrow> ?i = ?j" using True split_low [of c a] word_eq_unatI by metis
  have "ucast (drop_bit (8 * ?j) ((w AND NOT (push_bit (8 * ?i) (mask 8))) OR push_bit (8 * ?i) (ucast b))) = (if ?i = ?j then b else ucast (drop_bit (8 * ?j) w))"
    for w :: u64
  proof (rule bit_word_eqI)
    fix n assume n: "n < LENGTH(8)"
    have k: "8 * ?j + n < 64" "8 * ?i \<le> 8 * ?j + n \<and> 8 * ?j + n - 8 * ?i < 8 \<longleftrightarrow> ?i = ?j" using n ij by (auto simp: le_less_Suc_eq)
    show "bit (ucast (drop_bit (8 * ?j) ((w AND NOT (push_bit (8 * ?i) (mask 8))) OR push_bit (8 * ?i) (ucast b))) :: u8) n =
        bit (if ?i = ?j then b else ucast (drop_bit (8 * ?j) w)) n"
      using n k ij by (auto simp: bit_simps dest: bit_imp_le_length)
  qed
  then show ?thesis using True eq by (simp add: get_byte_def put_byte_def Let_def cell_mask(2))
qed (auto simp: get_byte_def put_byte_def Let_def)

lemma get_copy_bytes:
  assumes "unat a + length bs \<le> 2 ^ 64"
  shows "get_byte (copy_bytes a bs m) c = (if unat a \<le> unat c \<and> unat c < unat a + length bs then bs ! (unat c - unat a) else get_byte m c)"
  using assms
proof (induction bs arbitrary: a m)
  case (Cons b bs)
  show ?case
  proof (cases "bs = []")
    case True
    then show ?thesis by (auto simp: get_put_byte word_unat_eq_iff)
  next
    case False
    then have u: "unat (a + 1) = unat a + 1" using Cons.prems by (subst unat_add_bounded) (cases bs, simp_all)
    from Cons.IH [of "a + 1" "put_byte a b m"] Cons.prems show ?thesis
      by (auto simp: u get_put_byte word_unat_eq_iff nth_Cons' Suc_diff_le)
  qed
qed auto

section \<open>Pages\<close>

definition pg :: "u64 \<Rightarrow> u64" where "pg a = a AND NOT 0xFFF"

lemma unat_pg: "unat (pg a) = unat a div 4096 * 4096"
  using unat_align_down [of a 12] by (simp add: pg_def page_mask)

lemma unat_offset_bits: "unat (a AND 0xFFF :: u64) = unat a mod 4096"
  using unat_align_low [of a 12] by (simp add: page_mask)

lemma pg_plus: "pg a + (a AND 0xFFF) = a"
proof (rule word_eq_unatI)
  have "unat (pg a) + unat (a AND 0xFFF) = unat a" unfolding unat_pg unat_offset_bits by simp
  then show "unat (pg a + (a AND 0xFFF)) = unat a" using unat_u64 [of a] by (subst unat_add_bounded) simp_all
qed

lemma aligned_or: "f AND 0xFFF = 0 \<Longrightarrow> f OR (v AND 0xFFF) = f + (v AND 0xFFF)" for f v :: u64
proof -
  assume f: "f AND 0xFFF = 0"
  have "pg (f OR (v AND 0xFFF)) = f" "(f OR (v AND 0xFFF)) AND 0xFFF = v AND 0xFFF"
  proof -
    have b: "\<not> bit f n" if "n < 12" for n
      using f that bit_and_iff [of f "0xFFF" n] unfolding page_mask by (simp add: bit_simps)
    show "pg (f OR (v AND 0xFFF)) = f" "(f OR (v AND 0xFFF)) AND 0xFFF = v AND 0xFFF"
      unfolding pg_def page_mask by (rule bit_word_eqI; use b in \<open>auto simp: bit_simps\<close>)+
  qed
  then show ?thesis using pg_plus [of "f OR (v AND 0xFFF)"] by metis
qed

lemma pg_add:
  assumes "t AND 0xFFF = 0" "unat d < 4096"
  shows "pg (t + d) = t" "(t + d) AND 0xFFF = d"
proof -
  have t: "4096 dvd unat t" using assms(1) by (simp add: aligned_dvd)
  have b: "unat t + unat d < 2 ^ 64" using aligned_unat [OF t] assms(2) by (cases "t = 0") auto
  obtain k where k: "unat t = 4096 * k" using t by (elim dvdE)
  have u: "unat (t + d) = 4096 * k + unat d" using b k by (simp add: unat_add_bounded)
  show "pg (t + d) = t" by (rule word_eq_unatI) (use assms(2) k in \<open>simp add: unat_pg u\<close>)
  show "(t + d) AND 0xFFF = d" by (rule word_eq_unatI) (use assms(2) in \<open>simp add: unat_offset_bits u\<close>)
qed

lemma in_page: "t AND 0xFFF = 0 \<Longrightarrow> a - t < 4096 \<longleftrightarrow> pg a = t"
proof
  assume t: "t AND 0xFFF = 0" and "a - t < 4096"
  then show "pg a = t" using pg_add(1) [OF t, of "a - t"] by (simp add: word_less_nat_alt)
next
  assume "pg a = t"
  then have "a - t = a AND 0xFFF" using pg_plus [of a] by (metis add_diff_cancel_left')
  then show "a - t < 4096" by (simp add: word_less_nat_alt unat_offset_bits)
qed

lemma pg_cell: "pg (a AND NOT 7) = pg a" "(a AND NOT 7) AND 7 = 0"
  unfolding pg_def by (rule bit_word_eqI; auto simp: bit_simps cell_mask page_mask)+

lemma pg_aligned [simp]: "pg a AND 0xFFF = 0"
  unfolding pg_def by (rule bit_word_eqI) (auto simp: bit_simps)

lemma pg_idem: "a AND 0xFFF = 0 \<Longrightarrow> pg a = a"
  using pg_plus [of a] by simp

lemma aligned_add: "a AND 0xFFF = 0 \<Longrightarrow> b AND 0xFFF = 0 \<Longrightarrow> (a + b) AND 0xFFF = 0" for a b :: u64
  unfolding aligned_dvd by (simp add: unat_word_ariths dvd_mod)


section \<open>Stores outside the page tables\<close>

definition tables :: "mm \<Rightarrow> u64 set" where
  "tables s = {t. \<exists>p. path_ok p \<and> table_of s p = Some t}"

text \<open>The direct map starts on a page boundary.\<close>

definition vmm_ok :: "u64 \<Rightarrow> mm \<Rightarrow> bool" where
  "vmm_ok h s \<longleftrightarrow> vmm_inv s \<and> hhdm s = Some h \<and> h AND 0xFFF = 0"

lemma vmm_okD:
  assumes "vmm_ok h s"
  shows "vmm_inv s" "hhdm s = Some h" "h AND 0xFFF = 0" "t \<in> tables s \<Longrightarrow> t AND 0xFFF = 0" "t \<in> tables s \<Longrightarrow> t - h \<notin> free_frames (frames s)"
proof -
  show i: "vmm_inv s" "hhdm s = Some h" "h AND 0xFFF = 0" using assms by (simp_all add: vmm_ok_def)
  show "t AND 0xFFF = 0" if "t \<in> tables s"
  proof -
    have "(t - h) AND 0xFFF = 0" using that vmm_invD(1) [OF i(1,2)] by (auto simp: tables_def)
    from aligned_add [OF this i(3)] show ?thesis by simp
  qed
  show "t - h \<notin> free_frames (frames s)" if "t \<in> tables s" using that vmm_invD(2) [OF i(1,2)] by (auto simp: tables_def)
qed

lemma pg_cell_table: "t AND 0xFFF = 0 \<Longrightarrow> i < 512 \<Longrightarrow> pg (cell t i) = t"
  using cell_own_table(1) [of i t] in_page by blast

text \<open>A memory that agrees on all table entries.\<close>

definition agree_tables :: "(u64 \<Rightarrow> u64) \<Rightarrow> mm \<Rightarrow> bool" where
  "agree_tables m s \<longleftrightarrow> (\<forall>p t i. path_ok p \<longrightarrow> table_of s p = Some t \<longrightarrow> i < 512 \<longrightarrow> m (cell t i) = mem s (cell t i))"

lemma agree_tablesD: "agree_tables m s \<Longrightarrow> path_ok p \<Longrightarrow> table_of s p = Some t \<Longrightarrow> i < 512 \<Longrightarrow> m (cell t i) = mem s (cell t i)"
  by (simp add: agree_tables_def)

lemma table_of_agree:
  assumes "agree_tables m s"
  shows "path_ok p \<Longrightarrow> table_of (s\<lparr>mem := m\<rparr>) p = table_of s p"
proof (induction p)
  case (Cons i p)
  have "phys_to_ptr (s\<lparr>mem := m\<rparr>) = phys_to_ptr s" by (rule phys_to_ptr_cong) simp
  then show ?case using Cons agree_tablesD [OF assms, of p _ i] by (simp add: Let_def split: option.split)
qed simp

lemma xlate_agree:
  assumes "agree_tables m s"
  shows "l \<le> 3 \<Longrightarrow> table_of s (drop l (vpath va)) = Some w \<Longrightarrow> xlate (s\<lparr>mem := m\<rparr>) va l w = xlate s va l w"
proof (induction l arbitrary: w)
  case 0
  then show ?case using agree_tablesD [OF assms, of "vpath va" w "vindex 0 va"] by simp
next
  case (Suc l)
  let ?q = "drop (Suc l) (vpath va)" and ?j = "vindex (Suc l) va"
  have d: "drop l (vpath va) = ?j # ?q" using Suc.prems(1) by (auto simp: vpath_def numeral_3_eq_3 numeral_2_eq_2 le_Suc_eq)
  have q: "path_ok ?q" using set_drop_subset [of "Suc l" "vpath va"] path_ok_vpath [of va] by (auto simp: path_ok_def)
  have m: "m (cell w ?j) = mem s (cell w ?j)" using agree_tablesD [OF assms q Suc.prems(2)] by simp
  have ptr: "phys_to_ptr (s\<lparr>mem := m\<rparr>) = phys_to_ptr s" by (rule phys_to_ptr_cong) simp
  have "xlate (s\<lparr>mem := m\<rparr>) va l w' = xlate s va l w'"
    if "present (mem s (cell w ?j))" "\<not> huge (mem s (cell w ?j))" "phys_to_ptr s (mem s (cell w ?j) AND PTE_ADDR_MASK) = Some w'" for w'
    using that Suc.prems by (intro Suc.IH) (auto simp: d table_of_Cons)
  then show ?case by (simp add: m ptr Let_def split: Option.bind_split)
qed

lemma store_outside_tables:
  assumes ok: "vmm_ok h s" and out: "\<And>a. m a \<noteq> mem s a \<Longrightarrow> pg a \<notin> tables s"
  shows "vmm_ok h (s\<lparr>mem := m\<rparr>)" "tables (s\<lparr>mem := m\<rparr>) = tables s" "vmm_virt_to_phys va (s\<lparr>mem := m\<rparr>) = vmm_virt_to_phys va s"
    "walk_clear va (s\<lparr>mem := m\<rparr>) = walk_clear va s"
proof -
  note i = vmm_okD [OF ok]
  have "m (cell t j) = mem s (cell t j)" if "path_ok p" "table_of s p = Some t" "j < 512" for p t j
  proof -
    have "t \<in> tables s" using that by (auto simp: tables_def)
    then have "pg (cell t j) \<in> tables s" using pg_cell_table [OF i(4) that(3)] by simp
    then show ?thesis using out by blast
  qed
  then have ag: "agree_tables m s" by (simp add: agree_tables_def)
  note t = table_of_agree [OF ag]
  show "tables (s\<lparr>mem := m\<rparr>) = tables s" using t by (auto simp: tables_def)
  have sm: "hhdm (s\<lparr>mem := m\<rparr>) = hhdm s" "pml4 (s\<lparr>mem := m\<rparr>) = pml4 s" "frames (s\<lparr>mem := m\<rparr>) = frames s" by simp_all
  have "vmm_inv (s\<lparr>mem := m\<rparr>)" using i(1) t unfolding vmm_inv_def sm by (metis (no_types))
  then show "vmm_ok h (s\<lparr>mem := m\<rparr>)" using i(2,3) by (simp add: vmm_ok_def)
  show "vmm_virt_to_phys va (s\<lparr>mem := m\<rparr>) = vmm_virt_to_phys va s"
    using xlate_agree [OF ag, of 3 va "pml4 s"] by (simp add: virt_to_phys_xlate)
  have "pte (Suc l) va (s\<lparr>mem := m\<rparr>) = pte (Suc l) va s" "table_of (s\<lparr>mem := m\<rparr>) (drop l (vpath va)) = table_of s (drop l (vpath va))" for l
  proof -
    have p: "path_ok (drop k (vpath va))" for k using set_drop_subset [of k "vpath va"] path_ok_vpath [of va] by (auto simp: path_ok_def)
    show "table_of (s\<lparr>mem := m\<rparr>) (drop l (vpath va)) = table_of s (drop l (vpath va))" by (rule t [OF p])
    show "pte (Suc l) va (s\<lparr>mem := m\<rparr>) = pte (Suc l) va s" using agree_tablesD [OF ag p] t [OF p] by (auto simp: pte_def map_option_case split: option.split)
  qed
  then show "walk_clear va (s\<lparr>mem := m\<rparr>) = walk_clear va s" by (simp add: walk_clear_def)
qed

section \<open>What mapping a page stores\<close>

text \<open>Mapping stores only to tables: those there were, and frames it takes from the allocator and makes tables.\<close>

definition maps_in :: "u64 \<Rightarrow> mm \<Rightarrow> mm \<Rightarrow> bool" where
  "maps_in h s s' \<longleftrightarrow> vmm_ok h s' \<and> tables s \<subseteq> tables s' \<and> (\<forall>a. mem s' a \<noteq> mem s a \<longrightarrow> pg a \<in> tables s') \<and>
     (\<forall>t\<in>tables s'. t \<in> tables s \<or> t - h \<in> free_frames (frames s)) \<and> free_frames (frames s') \<subseteq> free_frames (frames s)"

lemma maps_in_trans: "maps_in h s t \<Longrightarrow> maps_in h t u \<Longrightarrow> maps_in h s u"
  unfolding maps_in_def by (metis (no_types, lifting) subset_iff)

lemma vmm_descend_stores:
  assumes ok: "vmm_ok h s" and p: "path_ok (i # p)" "table_of s p = Some t" and d: "vmm_descend t i flags s = Some (u, s')"
  shows "maps_in h s s'"
proof -
  note i = vmm_okD [OF ok]
  note e = vmm_descend_effect [OF i(1,2) p d]
  have ok': "vmm_ok h s'" using e(1) i(3) by (simp add: vmm_ok_def)
  have sub: "tables s \<subseteq> tables s'" using e(3) by (auto simp: tables_def)
  have t: "t \<in> tables s" "t \<in> tables s'" using p e(3) [of p t] by (auto simp: tables_def)
  have u: "u \<in> tables s'" using p(1) e(2) unfolding tables_def by blast
  have cell: "pg (cell t i) = t" using pg_cell_table [OF i(4) [OF t(1)]] p(1) by simp
  from i(1,2) p d show ?thesis
  proof (cases rule: vmm_descend_cases)
    case follow
    have "present (mem s (cell t i))" using follow(2) p(2) by (auto simp: table_of_Cons Let_def split: if_splits)
    then have "mem s' a \<noteq> mem s a \<Longrightarrow> a = cell t i" for a using d by (auto simp: vmm_descend_def Let_def present_def split: if_splits)
    moreover have "tables s' = tables s" by (simp add: tables_def user_bits_table_of [OF follow(1)])
    moreover have "frames s' = frames s" using follow(1) by (simp add: user_bits_set_def)
    ultimately show ?thesis using ok' t cell unfolding maps_in_def by auto
  next
    case (fresh e fr)
    have "mem s' a \<noteq> mem s a \<Longrightarrow> a = cell t i \<or> a - u < 4096" for a
      unfolding fresh(2) attach_def zero_table_def by (auto split: if_splits)
    then have "mem s' a \<noteq> mem s a \<Longrightarrow> pg a \<in> tables s'" for a
      using cell t(2) u in_page [OF vmm_okD(4) [OF ok' u]] by metis
    moreover have "w \<in> tables s \<or> w - h \<in> free_frames (frames s)" if w: "w \<in> tables s'" for w
    proof -
      obtain q where q: "path_ok q" "table_of s' q = Some w" using w by (auto simp: tables_def)
      have "table_of s q = Some w \<or> w = u" using attach_table_of [OF fresh(1) q(1), of fr] q(2) unfolding fresh(2) by (auto split: if_splits)
      then show ?thesis using q(1) fresh(1) by (auto simp: tables_def attachable_def)
    qed
    moreover have "free_frames (frames s') \<subseteq> free_frames (frames s)" using fresh(4) by (auto simp: fresh(2))
    ultimately show ?thesis using ok' sub unfolding maps_in_def by blast
  qed
qed

lemma vmm_map_stores:
  assumes ok: "vmm_ok h s" and m: "vmm_map_page_flags va physical flags s = Some s'"
  shows "maps_in h s s'"
proof -
  obtain pdpt s1 pd s2 pt s3 where
    d: "vmm_descend (pml4 s) (vindex 3 va) flags s = Some (pdpt, s1)" "vmm_descend pdpt (vindex 2 va) flags s1 = Some (pd, s2)"
      "vmm_descend pd (vindex 1 va) flags s2 = Some (pt, s3)"
    and s': "s' = set_leaf pt va ((physical AND PTE_ADDR_MASK) OR PTE_PRESENT OR flags) s3"
    using m by (auto simp: vmm_map_page_flags_def set_leaf_def split: if_splits)
  have p: "path_ok [vindex 3 va]" "path_ok [vindex 2 va, vindex 3 va]" "path_ok (vpath va)" by (simp_all add: vpath_def)
  note m1 = vmm_descend_stores [OF ok p(1) table_of.simps(1) d(1)]
  have ok1: "vmm_ok h s1" using m1 by (simp add: maps_in_def)
  note t1 = vmm_descend_effect(2) [OF vmm_okD(1,2) [OF ok] p(1) table_of.simps(1) d(1)]
  note m2 = vmm_descend_stores [OF ok1 p(2) t1 d(2)]
  have ok2: "vmm_ok h s2" using m2 by (simp add: maps_in_def)
  note t2 = vmm_descend_effect(2) [OF vmm_okD(1,2) [OF ok1] p(2) t1 d(2)]
  note m3 = vmm_descend_stores [OF ok2 p(3) [unfolded vpath_def] t2 d(3)]
  have ok3: "vmm_ok h s3" using m3 by (simp add: maps_in_def)
  have t3: "table_of s3 (vpath va) = Some pt" using vmm_descend_effect(2) [OF vmm_okD(1,2) [OF ok2] p(3) [unfolded vpath_def] t2 d(3)] by (simp add: vpath_def)
  have pt: "pt \<in> tables s3" using t3 p(3) unfolding tables_def by blast
  have same: "tables s' = tables s3" using set_leaf_table_of [OF vmm_okD(1) [OF ok3] t3] by (auto simp: tables_def s')
  have "vmm_ok h s'" using set_leaf_inv [OF vmm_okD(1) [OF ok3] t3] ok3 by (simp add: s' vmm_ok_def)
  moreover have "pg a \<in> tables s3" if "mem s' a \<noteq> mem s3 a" for a
    using that pt pg_cell_table [OF vmm_okD(4) [OF ok3 pt], of "vindex 0 va"] by (auto simp: s' set_leaf_def split: if_splits)
  ultimately have "maps_in h s3 s'" unfolding maps_in_def same by (auto simp: s')
  then show ?thesis using m1 m2 m3 maps_in_trans by blast
qed

lemma vmm_map_keeps_clear:
  assumes ok: "vmm_ok h s" and m: "vmm_map_page_flags va physical flags s = Some s'" and cl: "walk_clear vb s" "frames_mapped s"
  shows "walk_clear vb s'" "frames_mapped s'" "card (free_frames (frames s)) \<le> card (free_frames (frames s')) + 3"
proof -
  obtain pdpt s1 pd s2 pt s3 where
    d: "vmm_descend (pml4 s) (vindex 3 va) flags s = Some (pdpt, s1)" "vmm_descend pdpt (vindex 2 va) flags s1 = Some (pd, s2)"
      "vmm_descend pd (vindex 1 va) flags s2 = Some (pt, s3)"
    and s': "s' = set_leaf pt va ((physical AND PTE_ADDR_MASK) OR PTE_PRESENT OR flags) s3"
    using m by (auto simp: vmm_map_page_flags_def set_leaf_def split: if_splits)
  have p: "path_ok [vindex 3 va]" "path_ok [vindex 2 va, vindex 3 va]" "path_ok (vpath va)" by (simp_all add: vpath_def)
  note i = vmm_okD(1,2) [OF ok]
  note e1 = vmm_descend_effect [OF i p(1) table_of.simps(1) d(1)]
  note i1 = e1(1) [THEN conjunct1] e1(1) [THEN conjunct2, THEN conjunct1]
  note e2 = vmm_descend_effect [OF i1 p(2) e1(2) d(2)]
  note i2 = e2(1) [THEN conjunct1] e2(1) [THEN conjunct2, THEN conjunct1]
  note e3 = vmm_descend_effect [OF i2 p(3) [unfolded vpath_def] e2(2) d(3)]
  note i3 = e3(1) [THEN conjunct1] e3(1) [THEN conjunct2, THEN conjunct1]
  have t3: "table_of s3 (vpath va) = Some pt" using e3(2) by (simp add: vpath_def)
  note k1 = vmm_descend_keeps_clear [OF i p(1) table_of.simps(1) d(1) cl]
  note k2 = vmm_descend_keeps_clear [OF i1 p(2) e1(2) d(2) k1(1,2)]
  note k3 = vmm_descend_keeps_clear [OF i2 p(3) [unfolded vpath_def] e2(2) d(3) k2(1,2)]
  have leaf: "walk_clear w s' = walk_clear w s3" for w
  proof -
    have "pte (Suc l) w s' = pte (Suc l) w s3" "table_of s' (drop l (vpath w)) = table_of s3 (drop l (vpath w))" for l
    proof -
      have q: "path_ok (drop k (vpath w))" for k using set_drop_subset [of k "vpath w"] path_ok_vpath [of w] by (auto simp: path_ok_def)
      have "length (drop (Suc l) (vpath w)) < 3" by simp
      then have "drop (Suc l) (vpath w) \<noteq> vpath va" by (metis less_irrefl path_ok_vpath(2))
      then show "pte (Suc l) w s' = pte (Suc l) w s3" using set_leaf_table_of [OF i3(1) t3 q] set_leaf_mem [OF i3(1) t3 q]
        by (auto simp: pte_def s' map_option_case split: option.split)
      show "table_of s' (drop l (vpath w)) = table_of s3 (drop l (vpath w))" using set_leaf_table_of [OF i3(1) t3 q] by (simp add: s')
    qed
    then show ?thesis by (simp add: walk_clear_def)
  qed
  show "walk_clear vb s'" using k3(1) leaf by blast
  show "frames_mapped s'" using k3(2) by (simp add: frames_mapped_def s')
  show "card (free_frames (frames s)) \<le> card (free_frames (frames s')) + 3" using k1(3) k2(3) k3(3) by (simp add: s')
qed

section \<open>User address space\<close>

text \<open>\<^verbatim>\<open>USER_ADDRESS_MAX\<close> of \<^verbatim>\<open>syscall.rs\<close>: the split between user and kernel addresses.\<close>

definition USER_ADDRESS_MAX :: u64 where "USER_ADDRESS_MAX = 0x0000800000000000"

definition unmapped :: "mm \<Rightarrow> u64 \<Rightarrow> bool" where
  "unmapped s va \<longleftrightarrow> vmm_virt_to_phys va s = Some VMM_NO_PHYS"

definition maps_to :: "mm \<Rightarrow> u64 \<Rightarrow> u64 \<Rightarrow> bool" where
  "maps_to s va f \<longleftrightarrow> f AND PTE_ADDR_MASK = f \<and> vmm_virt_to_phys va s = Some (f OR (va AND 0xFFF))"

text \<open>A frame that belongs to a user page: inside the direct map, not a page table and not free.\<close>

definition owned :: "u64 \<Rightarrow> mm \<Rightarrow> u64 \<Rightarrow> bool" where
  "owned h s f \<longleftrightarrow> phys_to_ptr s f \<noteq> None \<and> f + h \<notin> tables s \<and> f \<notin> free_frames (frames s)"

text \<open>
  The user half of the address space: every page is unmapped or has a frame of its own, and no huge page is in the way of a new mapping.
\<close>

definition user_ok :: "u64 \<Rightarrow> mm \<Rightarrow> bool" where
  "user_ok h s \<longleftrightarrow> vmm_ok h s \<and> frames_mapped s \<and>
     (\<forall>va<USER_ADDRESS_MAX. walk_clear va s \<and> (unmapped s va \<or> (\<exists>f. maps_to s va f \<and> owned h s f))) \<and>
     (\<forall>va<USER_ADDRESS_MAX. \<forall>vb<USER_ADDRESS_MAX. \<forall>f. maps_to s va f \<longrightarrow> maps_to s vb f \<longrightarrow> same_page va vb)"

lemma user_okD:
  assumes "user_ok h s"
  shows "vmm_ok h s" "frames_mapped s" "va < USER_ADDRESS_MAX \<Longrightarrow> walk_clear va s"
    "va < USER_ADDRESS_MAX \<Longrightarrow> unmapped s va \<or> (\<exists>f. maps_to s va f \<and> owned h s f)"
    "va < USER_ADDRESS_MAX \<Longrightarrow> vb < USER_ADDRESS_MAX \<Longrightarrow> maps_to s va f \<Longrightarrow> maps_to s vb f \<Longrightarrow> same_page va vb"
  using assms by (auto simp: user_ok_def)

text \<open>The addresses of a frame.\<close>

lemma frame_bit: "f AND PTE_ADDR_MASK = f \<Longrightarrow> \<not> bit f 63"
proof
  assume "f AND PTE_ADDR_MASK = f" "bit f 63"
  then have "bit (f AND PTE_ADDR_MASK) 63" by simp
  then have "bit PTE_ADDR_MASK 63" by (simp add: bit_and_iff)
  then show False by (simp add: PTE_ADDR_MASK_def)
qed

lemma maps_to_mapped: "maps_to s va f \<Longrightarrow> vmm_virt_to_phys va s = Some (f + (va AND 0xFFF)) \<and> f + (va AND 0xFFF) \<noteq> VMM_NO_PHYS"
proof -
  assume m: "maps_to s va f"
  then have f: "f AND PTE_ADDR_MASK = f" by (simp add: maps_to_def)
  have o: "f OR (va AND 0xFFF) = f + (va AND 0xFFF)" using masked_frame_bits(4) [OF f] by (rule aligned_or)
  have "\<not> bit (f OR (va AND 0xFFF)) 63" using frame_bit [OF f] by (simp add: bit_simps)
  then have "f OR (va AND 0xFFF) \<noteq> VMM_NO_PHYS" by (auto simp: VMM_NO_PHYS_def)
  then show ?thesis using m o by (simp add: maps_to_def)
qed

lemma frame_addr:
  assumes "vmm_ok h s" "f AND PTE_ADDR_MASK = f" "phys_to_ptr s f \<noteq> None"
  shows "(f + h) AND 0xFFF = 0" "phys_to_virt s (f + (va AND 0xFFF)) = Some (f + h + (va AND 0xFFF))" "phys_to_virt s f = Some (f + h)"
    "unat (f + h) + 4096 \<le> 2 ^ 64"
proof -
  note i = vmm_okD [OF assms(1)]
  show a: "(f + h) AND 0xFFF = 0" using aligned_add [OF masked_frame_bits(4) [OF assms(2)] i(3)] .
  obtain y where y: "cadd f h = Some y" using assms(3) i(2) by (auto simp: phys_to_ptr_def)
  then have u: "unat f + unat h < 2 ^ 64" "unat (f + h) = unat f + unat h" using cadd_unat [OF y] by (simp_all add: cadd_Some)
  then show b: "unat (f + h) + 4096 \<le> 2 ^ 64"
    using a aligned_unat [of "f + h"] by (cases "f + h = 0") (simp_all add: aligned_dvd)
  show "phys_to_virt s f = Some (f + h)" using assms(3) i(2) y by (simp add: phys_to_ptr_def phys_to_virt_def cadd_Some)
  have o: "unat (va AND 0xFFF) < 4096" by (simp add: unat_offset_bits)
  then have "unat (f + (va AND 0xFFF)) = unat f + unat (va AND 0xFFF)" using b u by (subst unat_add_bounded) simp_all
  then have "cadd (f + (va AND 0xFFF)) h = Some (f + (va AND 0xFFF) + h)" using b u o by (simp add: cadd_def)
  then show "phys_to_virt s (f + (va AND 0xFFF)) = Some (f + h + (va AND 0xFFF))" using i(2) by (simp add: phys_to_virt_def add_ac)
qed

lemma load_mapped:
  assumes "vmm_ok h s" "maps_to s va f" "phys_to_ptr s f \<noteq> None"
  shows "load_byte va s = Some (get_byte (mem s) (f + h + (va AND 0xFFF)))"
proof -
  have "f AND PTE_ADDR_MASK = f" using assms(2) by (simp add: maps_to_def)
  from frame_addr(2) [OF assms(1) this assms(3)] maps_to_mapped [OF assms(2)] show ?thesis by (simp add: load_byte_def)
qed

lemma load_unmapped: "unmapped s va \<Longrightarrow> load_byte va s = None"
  by (simp add: unmapped_def load_byte_def)

section \<open>Writing and mapping user pages\<close>

lemma copy_cells: "copy_bytes a bs m c \<noteq> m c \<Longrightarrow> \<exists>i<length bs. c = (a + of_nat i) AND NOT 7"
proof (induction bs arbitrary: a m)
  case (Cons b bs)
  show ?case
  proof (cases "copy_bytes (a + 1) bs (put_byte a b m) c = put_byte a b m c")
    case True
    then have "c = a AND NOT 7" using Cons.prems by (auto simp: put_byte_def Let_def split: if_splits)
    then show ?thesis by (intro exI [of _ 0]) simp
  next
    case False
    from Cons.IH [OF this] obtain i where "i < length bs" "c = (a + 1 + of_nat i) AND NOT 7" by blast
    then show ?thesis by (intro exI [of _ "Suc i"]) (simp add: add_ac)
  qed
qed simp

lemma copy_outside:
  assumes "t AND 0xFFF = 0" "ofs + length bs \<le> 4096" "copy_bytes (t + of_nat ofs) bs m a \<noteq> m a"
  shows "pg a = t"
proof -
  obtain i where i: "i < length bs" "a = (t + of_nat (ofs + i)) AND NOT 7" using copy_cells [OF assms(3)] by (auto simp: add.assoc)
  have "pg a = pg (t + of_nat (ofs + i))" unfolding i(2) by (rule pg_cell)
  also have "\<dots> = t" using i(1) assms(2) by (intro pg_add(1) [OF assms(1)]) (simp add: unat_of_nat_bounded del: of_nat_add)
  finally show ?thesis .
qed

text \<open>An address range inside a page.\<close>

lemma pg_range:
  assumes "t AND 0xFFF = 0" "unat t \<le> unat a" "unat a < unat t + 4096"
  shows "pg a = t"
proof (rule word_eq_unatI)
  obtain k where k: "unat t = 4096 * k" using assms(1) by (auto simp: aligned_dvd elim: dvdE)
  then have "unat a div 4096 = k" using assms(2,3) by (intro div_nat_eqI) auto
  then show "unat (pg a) = unat t" using k by (simp add: unat_pg)
qed

text \<open>All addresses of a page translate alike.\<close>

lemma xlate_page:
  assumes p: "p AND 0xFFF = 0"
  shows "(\<exists>g. g AND 0xFFF = 0 \<and> (\<forall>w. pg w = p \<longrightarrow> xlate s w l t = Some (g OR (w AND 0xFFF)))) \<or>
   (\<forall>w. pg w = p \<longrightarrow> xlate s w l t = Some VMM_NO_PHYS) \<or> (\<forall>w. pg w = p \<longrightarrow> xlate s w l t = None)"
proof (induction l arbitrary: t)
  case 0
  have v: "vindex 0 w = vindex 0 p" if "pg w = p" for w using vindex_page [of 0 w] that by (auto simp: pg_def)
  have m: "(e AND PTE_ADDR_MASK) AND 0xFFF = 0" for e by (simp add: and.assoc PTE_ADDR_MASK_def)
  show ?case using v m [of "mem s (cell t (vindex 0 p))"] by (cases "present (mem s (cell t (vindex 0 p)))") (auto simp: Let_def)
next
  case (Suc l)
  have v: "vindex (Suc l) w = vindex (Suc l) p" if "pg w = p" for w using vindex_page [of "Suc l" w] that by (auto simp: pg_def)
  let ?e = "mem s (cell t (vindex (Suc l) p))"
  have m: "((e AND PTE_ADDR_MASK_1G) OR (x AND 0x3FFFFFFF)) AND 0xFFF = 0" "((e AND PTE_ADDR_MASK_2M) OR (x AND 0x1FFFFF)) AND 0xFFF = 0"
    if "x AND 0xFFF = 0" for e x :: u64
  proof -
    have "(x AND 0x3FFFFFFF) AND 0xFFF = x AND 0xFFF" "(x AND 0x1FFFFF) AND 0xFFF = x AND 0xFFF" by (simp_all add: and.assoc)
    then show "((e AND PTE_ADDR_MASK_1G) OR (x AND 0x3FFFFFFF)) AND 0xFFF = 0" "((e AND PTE_ADDR_MASK_2M) OR (x AND 0x1FFFFF)) AND 0xFFF = 0"
      unfolding and_or_numeral using that by (simp_all add: and.assoc pte_defs)
  qed
  have h: "(\<exists>g. g AND 0xFFF = 0 \<and> (\<forall>w. pg w = p \<longrightarrow> huge_target (Suc l) e w = g OR (w AND 0xFFF))) \<or> (\<forall>w. huge_target (Suc l) e w = VMM_NO_PHYS)" for e
  proof -
    consider "Suc l = 2" | "Suc l = 1" | "Suc l \<noteq> 2" "Suc l \<noteq> 1" by blast
    then show ?thesis
    proof cases
      case 1
      then show ?thesis using m(1) [OF p, of e] unfolding huge_target_def pg_def [symmetric]
        by (intro disjI1 exI [of _ "(e AND PTE_ADDR_MASK_1G) OR (p AND 0x3FFFFFFF)"]) (auto simp: or.assoc)
    next
      case 2
      then show ?thesis using m(2) [OF p, of e] unfolding huge_target_def pg_def [symmetric]
        by (intro disjI1 exI [of _ "(e AND PTE_ADDR_MASK_2M) OR (p AND 0x1FFFFF)"]) (auto simp: or.assoc)
    qed (simp add: huge_target_def)
  qed
  show ?case
  proof (cases "present ?e \<and> \<not> huge ?e")
    case True
    then show ?thesis using Suc v by (cases "phys_to_ptr s (?e AND PTE_ADDR_MASK)") (auto simp: Let_def)
  next
    case False
    then show ?thesis using v h [of ?e] by (cases "present ?e") (auto simp: Let_def)
  qed
qed

lemma user_same_page:
  assumes "va < USER_ADDRESS_MAX" "vb < USER_ADDRESS_MAX"
  shows "same_page va vb \<longleftrightarrow> pg va = pg vb"
proof -
  have "unat va div 4096 < 2 ^ 36" "unat vb div 4096 < 2 ^ 36" using assms by (simp_all add: USER_ADDRESS_MAX_def word_less_nat_alt less_mult_imp_div_less)
  then have "same_page va vb \<longleftrightarrow> unat va div 4096 = unat vb div 4096" by (simp add: same_page_unat)
  also have "\<dots> \<longleftrightarrow> unat (pg va) = unat (pg vb)" by (simp add: unat_pg)
  finally show ?thesis by (metis word_eq_unatI)
qed

lemma aligned_or_eq: "f AND 0xFFF = 0 \<Longrightarrow> g AND 0xFFF = 0 \<Longrightarrow> f OR (v AND 0xFFF) = g OR (v AND 0xFFF) \<Longrightarrow> f = g" for f g v :: u64
  by (simp add: aligned_or)

lemma maps_to_page:
  assumes i: "vmm_inv s" and m: "maps_to s va f" and p: "pg vb = pg va"
  shows "maps_to s vb f"
proof -
  have f: "f AND PTE_ADDR_MASK = f" "f AND 0xFFF = 0" using m masked_frame_bits(4) by (auto simp: maps_to_def)
  have x: "xlate s va 3 (pml4 s) = Some (f OR (va AND 0xFFF))" "f OR (va AND 0xFFF) \<noteq> VMM_NO_PHYS"
    using m maps_to_mapped [OF m] i by (auto simp: maps_to_def virt_to_phys_xlate vmm_inv_def aligned_or f)
  then obtain g where g: "g AND 0xFFF = 0" "\<forall>w. pg w = pg va \<longrightarrow> xlate s w 3 (pml4 s) = Some (g OR (w AND 0xFFF))"
    using xlate_page [OF pg_aligned, of va s 3 "pml4 s"] by fastforce
  then have "g = f" using x(1) aligned_or_eq [OF g(1) f(2)] by simp
  then show ?thesis using g p f(1) i by (simp add: maps_to_def virt_to_phys_xlate vmm_inv_def)
qed

lemma unmapped_page:
  assumes ok: "user_ok h s" and m: "unmapped s va" and p: "pg vb = pg va" and vb: "vb < USER_ADDRESS_MAX"
  shows "unmapped s vb"
proof (rule ccontr)
  assume "\<not> unmapped s vb"
  then obtain f where "maps_to s vb f" using user_okD(4) [OF ok vb] by blast
  from maps_to_page [OF vmm_okD(1) [OF user_okD(1) [OF ok]] this p [symmetric]] show False
    using m maps_to_mapped by (fastforce simp: unmapped_def)
qed

text \<open>Writing bytes of one user page changes what its addresses read and nothing else.\<close>

definition copied :: "u64 \<Rightarrow> u64 \<Rightarrow> nat \<Rightarrow> u8 list \<Rightarrow> mm \<Rightarrow> mm" where
  "copied h f ofs bs s = s\<lparr>mem := copy_bytes (f + h + of_nat ofs) bs (mem s)\<rparr>"

lemma copied_simps [simp]: "frames (copied h f ofs bs s) = frames s" "phys_to_ptr (copied h f ofs bs s) = phys_to_ptr s" "hhdm (copied h f ofs bs s) = hhdm s"
  "phys_to_virt (copied h f ofs bs s) = phys_to_virt s"
  by (simp_all add: copied_def phys_to_ptr_def phys_to_virt_def fun_eq_iff)

lemma copied_keeps:
  assumes ok: "vmm_ok h s" and f: "f AND PTE_ADDR_MASK = f" and t: "f + h \<notin> tables s" and len: "ofs + length bs \<le> 4096"
  shows "vmm_ok h (copied h f ofs bs s)" "tables (copied h f ofs bs s) = tables s"
    "vmm_virt_to_phys vb (copied h f ofs bs s) = vmm_virt_to_phys vb s" "walk_clear vb (copied h f ofs bs s) = walk_clear vb s"
proof -
  have al: "(f + h) AND 0xFFF = 0" using aligned_add [OF masked_frame_bits(4) [OF f] vmm_okD(3) [OF ok]] .
  have out: "copy_bytes (f + h + of_nat ofs) bs (mem s) a \<noteq> mem s a \<Longrightarrow> pg a \<notin> tables s" for a
    using copy_outside [OF al len] t by simp
  show "vmm_ok h (copied h f ofs bs s)" "tables (copied h f ofs bs s) = tables s"
    "vmm_virt_to_phys vb (copied h f ofs bs s) = vmm_virt_to_phys vb s" "walk_clear vb (copied h f ofs bs s) = walk_clear vb s"
    unfolding copied_def by (rule store_outside_tables [OF ok out]; assumption)+
qed

lemma user_ok_cong:
  assumes "user_ok h s" "vmm_ok h s'" "tables s' = tables s" "\<And>va. vmm_virt_to_phys va s' = vmm_virt_to_phys va s"
    "\<And>va. walk_clear va s' = walk_clear va s" "frames s' = frames s" "phys_to_ptr s' = phys_to_ptr s"
  shows "user_ok h s'"
proof -
  have "maps_to s' = maps_to s" "unmapped s' = unmapped s" "owned h s' = owned h s" "frames_mapped s' = frames_mapped s"
    by (simp_all add: fun_eq_iff maps_to_def unmapped_def owned_def frames_mapped_def assms(3-7))
  then show ?thesis using assms(1,2,5) by (simp add: user_ok_def)
qed

lemma user_copied:
  assumes "user_ok h s" "maps_to s va f" "owned h s f" "ofs + length bs \<le> 4096"
  shows "user_ok h (copied h f ofs bs s)"
  using copied_keeps [OF user_okD(1) [OF assms(1)] _ _ assms(4)] assms
  by (intro user_ok_cong [OF assms(1)]) (simp_all add: maps_to_def owned_def)

text \<open>Which byte of a frame a copy changes.\<close>

lemma get_copied:
  assumes al: "(f + h) AND 0xFFF = 0" "(g + h) AND 0xFFF = 0" and b: "unat (f + h) + 4096 \<le> 2 ^ 64" "unat (g + h) + 4096 \<le> 2 ^ 64"
    and len: "ofs + length bs \<le> 4096" and k: "unat v < 4096"
  shows "get_byte (mem (copied h f ofs bs s)) (g + h + v) =
    (if g = f \<and> ofs \<le> unat v \<and> unat v < ofs + length bs then bs ! (unat v - ofs) else get_byte (mem s) (g + h + v))"
proof (cases "bs = []")
  case False
  have a: "unat (f + h + of_nat ofs) = unat (f + h) + ofs"
    using len b(1) False by (subst unat_add_bounded) (cases bs, simp_all add: unat_of_nat_bounded)
  have ug: "unat (g + h + v) = unat (g + h) + unat v" using b(2) k by (subst unat_add_bounded) simp_all
  have other: "\<not> (unat (f + h) + ofs \<le> unat (g + h) + unat v \<and> unat (g + h) + unat v < unat (f + h) + ofs + length bs)" if "g \<noteq> f"
  proof
    assume "unat (f + h) + ofs \<le> unat (g + h) + unat v \<and> unat (g + h) + unat v < unat (f + h) + ofs + length bs"
    then have "pg (g + h + v) = f + h" using len ug by (intro pg_range [OF al(1)]) simp_all
    then show False using pg_add(1) [OF al(2) k] that by simp
  qed
  have "unat (f + h + of_nat ofs) + length bs \<le> 2 ^ 64" using a len b(1) by simp
  note c = get_copy_bytes [OF this, of "mem s" "g + h + v"]
  show ?thesis
  proof (cases "g = f")
    case True
    then show ?thesis using c a ug by (simp add: copied_def)
  next
    case False
    then show ?thesis using c a ug other by (simp add: copied_def)
  qed
qed (auto simp: copied_def)

lemma user_copied_load:
  assumes ok: "user_ok h s" and va: "va < USER_ADDRESS_MAX" "maps_to s va f" and ow: "owned h s f" and len: "ofs + length bs \<le> 4096"
    and vb: "vb < USER_ADDRESS_MAX"
  shows "load_byte vb (copied h f ofs bs s) =
       (let k = unat (vb AND 0xFFF) in if pg vb = pg va \<and> ofs \<le> k \<and> k < ofs + length bs then Some (bs ! (k - ofs)) else load_byte vb s)"
proof -
  note u = user_okD [OF ok]
  note inv = vmm_okD(1) [OF u(1)]
  have f: "f AND PTE_ADDR_MASK = f" "phys_to_ptr s f \<noteq> None" using va(2) ow by (simp_all add: maps_to_def owned_def)
  note fa = frame_addr [OF u(1) f]
  have vt: "vmm_virt_to_phys w (copied h f ofs bs s) = vmm_virt_to_phys w s" for w
    using copied_keeps(3) [OF u(1) f(1) _ len] ow by (simp add: owned_def)
  show ?thesis
  proof (cases "unmapped s vb")
    case True
    then have "pg vb \<noteq> pg va" using unmapped_page [OF ok True _ va(1)] maps_to_mapped [OF va(2)] by (force simp: unmapped_def)
    then show ?thesis using True by (simp add: load_unmapped unmapped_def vt)
  next
    case False
    then obtain g where g: "maps_to s vb g" "owned h s g" using u(4) [OF vb] by blast
    have gp: "g AND PTE_ADDR_MASK = g" "phys_to_ptr s g \<noteq> None" using g by (simp_all add: owned_def maps_to_def)
    note ga = frame_addr [OF u(1) gp]
    have c: "maps_to (copied h f ofs bs s) vb g" "vmm_ok h (copied h f ofs bs s)"
      using g(1) user_okD(1) [OF user_copied [OF ok va(2) ow len]] by (simp_all add: maps_to_def vt)
    have l: "load_byte vb (copied h f ofs bs s) = Some (get_byte (mem (copied h f ofs bs s)) (g + h + (vb AND 0xFFF)))"
      using load_mapped [OF c(2,1)] gp(2) by simp
    have same: "pg vb = pg va \<longleftrightarrow> g = f"
    proof
      assume "pg vb = pg va"
      then have "maps_to s vb f" using maps_to_page [OF inv va(2)] by simp
      then have "g OR (vb AND 0xFFF) = f OR (vb AND 0xFFF)" using g(1) by (simp add: maps_to_def)
      then show "g = f" by (rule aligned_or_eq [OF masked_frame_bits(4) [OF gp(1)] masked_frame_bits(4) [OF f(1)]])
    qed (use u(5) [OF va(1) vb va(2)] g(1) user_same_page [OF va(1) vb] in simp)
    have "unat (vb AND 0xFFF) < 4096" by (simp add: unat_offset_bits)
    from get_copied [OF fa(1) ga(1) fa(4) ga(4) len this] show ?thesis
      using l same load_mapped [OF u(1) g(1) gp(2)] by (simp add: Let_def)
  qed
qed

text \<open>
  The block that \<^verbatim>\<open>map_segment\<close>, \<^verbatim>\<open>map_user_stack\<close> and \<^verbatim>\<open>sys_mmap\<close> repeat: take a frame, clear it, map it for the user.  The callers look at the frame
  to see whether there was one.
\<close>

definition map_zeroed_page :: "u64 \<Rightarrow> mm \<Rightarrow> (u64 \<times> mm) option" where
  "map_zeroed_page page s =
     (let (frame, fr) = pmm_alloc_page (frames s); s = s\<lparr>frames := fr\<rparr> in
      if frame = PMM_NO_PAGE then Some (frame, s)
      else do {
        dst \<leftarrow> phys_to_virt s frame;
        s \<leftarrow> vmm_map_user_page page frame (s\<lparr>mem := copy_bytes dst (replicate (unat PAGE_SIZE) 0) (mem s)\<rparr>);
        Some (frame, s)
      })"

text \<open>A frame taken from the allocator is no page's and no table; clearing it disturbs nothing.\<close>

lemma cleared_frame:
  assumes ok: "user_ok h s" and f: "f \<in> free_frames (frames s)" and fr: "free_frames fr = free_frames (frames s) - {f}" "pmm_alloc_page (frames s) = (f, fr)"
    and s1: "s1 = copied h f 0 (replicate 4096 0) (s\<lparr>frames := fr\<rparr>)"
  shows "vmm_ok h s1" "tables s1 = tables s" "vmm_virt_to_phys vb s1 = vmm_virt_to_phys vb s" "walk_clear vb s1 = walk_clear vb s"
    "phys_to_ptr s1 = phys_to_ptr s" "f + h \<notin> tables s" "f AND PTE_ADDR_MASK = f" "frames_mapped s1"
proof -
  note u = user_okD [OF ok]
  note i = vmm_okD [OF u(1)]
  show fm: "f AND PTE_ADDR_MASK = f" using i(1) f by (simp add: vmm_inv_def)
  show nt: "f + h \<notin> tables s" using i(5) [of "f + h"] f by auto
  have t0: "tables (s\<lparr>frames := fr\<rparr>) = tables s" by (simp add: tables_def)
  have w0: "walk_clear vb (s\<lparr>frames := fr\<rparr>) = walk_clear vb s" by (simp add: walk_clear_def pte_def)
  have ok0: "vmm_ok h (s\<lparr>frames := fr\<rparr>)" using vmm_inv_alloc [OF i(1) fr(2)] i(2,3) by (simp add: vmm_ok_def)
  note c = copied_keeps [OF ok0 fm nt [folded t0], of 0 "replicate 4096 0", unfolded t0 w0, folded s1]
  show "vmm_ok h s1" "tables s1 = tables s" "vmm_virt_to_phys vb s1 = vmm_virt_to_phys vb s" "walk_clear vb s1 = walk_clear vb s"
    using c w0 by simp_all
  show p: "phys_to_ptr s1 = phys_to_ptr s" by (simp add: s1)
  show "frames_mapped s1" using u(2) fr(1) unfolding frames_mapped_def p by (simp add: s1)
qed

lemma maps_to_inj: "maps_to s va f \<Longrightarrow> maps_to s va g \<Longrightarrow> f = g"
  by (rule aligned_or_eq [of f g va, OF masked_frame_bits(4) masked_frame_bits(4)]) (simp_all add: maps_to_def)

lemma user_maps_owned:
  assumes "user_ok h s" "va < USER_ADDRESS_MAX" "maps_to s va f"
  shows "owned h s f"
proof -
  have "\<not> unmapped s va" using maps_to_mapped [OF assms(3)] by (simp add: unmapped_def)
  then obtain g where "maps_to s va g" "owned h s g" using user_okD(4) [OF assms(1,2)] by blast
  then show ?thesis using maps_to_inj [OF assms(3)] by simp
qed

text \<open>Mapping a cleared frame at an unmapped user page.\<close>

lemma map_fresh_effect:
  assumes ok: "user_ok h s" and f: "f \<in> free_frames (frames s)" and fr: "free_frames fr = free_frames (frames s) - {f}" "pmm_alloc_page (frames s) = (f, fr)"
    and s1: "s1 = copied h f 0 (replicate 4096 0) (s\<lparr>frames := fr\<rparr>)" and m: "vmm_map_user_page page f s1 = Some s2"
  shows "vmm_ok h s2" "phys_to_ptr s2 = phys_to_ptr s" "owned h s2 f" "owned h s g \<Longrightarrow> owned h s2 g \<and> g \<noteq> f"
    "vmm_virt_to_phys vb s2 = (if same_page page vb then Some (f OR (vb AND 0xFFF)) else vmm_virt_to_phys vb s)"
    "walk_clear vb s \<Longrightarrow> walk_clear vb s2 \<and> frames_mapped s2 \<and> card (free_frames (frames s)) \<le> card (free_frames (frames s2)) + 4"
    "mem s2 a \<noteq> mem s1 a \<Longrightarrow> pg a \<in> tables s2"
proof -
  let ?fl = "PTE_PRESENT OR PTE_WRITABLE OR PTE_USER"
  note u = user_okD [OF ok]
  note c = cleared_frame [OF ok f fr s1]
  have m': "vmm_map_page_flags page f ?fl s1 = Some s2" using m by (simp add: vmm_map_user_page_def)
  have "?fl AND PTE_ADDR_MASK = 0" by (simp add: pte_defs)
  note ef = vmm_map_page_flags_effect [OF vmm_okD(1) [OF c(1)] this m']
  show "vmm_virt_to_phys vb s2 = (if same_page page vb then Some (f OR (vb AND 0xFFF)) else vmm_virt_to_phys vb s)"
    using ef c(3,7) by simp
  have f1: "frames s1 = fr" by (simp add: s1)
  have mi: "maps_in h s1 s2" by (rule vmm_map_stores [OF c(1) m'])
  show ok2: "vmm_ok h s2" using mi by (simp add: maps_in_def)
  have ts: "\<And>t. t \<in> tables s2 \<Longrightarrow> t \<in> tables s \<or> t - h \<in> free_frames fr" and fs: "free_frames (frames s2) \<subseteq> free_frames fr"
    using mi f1 by (auto simp: maps_in_def c(2))
  show "mem s2 a \<noteq> mem s1 a \<Longrightarrow> pg a \<in> tables s2" using mi by (simp add: maps_in_def)
  have "hhdm s2 = hhdm s" using vmm_okD(2) [OF ok2] vmm_okD(2) [OF u(1)] by simp
  then show pt: "phys_to_ptr s2 = phys_to_ptr s" by (rule phys_to_ptr_cong)
  show "owned h s2 f" using ts [of "f + h"] c(6) fs fr(1) u(2) f by (auto simp: owned_def pt frames_mapped_def)
  show "owned h s2 g \<and> g \<noteq> f" if "owned h s g" using that f ts [of "g + h"] fs fr(1) by (auto simp: owned_def pt)
  assume "walk_clear vb s"
  moreover have "card (free_frames (frames s)) = Suc (card (free_frames fr))" using f fr(1) finite_free_frames card_Suc_Diff1 by metis
  ultimately show "walk_clear vb s2 \<and> frames_mapped s2 \<and> card (free_frames (frames s)) \<le> card (free_frames (frames s2)) + 4"
    using vmm_map_keeps_clear [OF c(1) m' _ c(8), of vb] c(4) f1 by auto
qed

lemma user_map_fresh:
  assumes ok: "user_ok h s" and f: "f \<in> free_frames (frames s)" and fr: "free_frames fr = free_frames (frames s) - {f}" "pmm_alloc_page (frames s) = (f, fr)"
    and s1: "s1 = copied h f 0 (replicate 4096 0) (s\<lparr>frames := fr\<rparr>)" and m: "vmm_map_user_page page f s1 = Some s2"
    and p: "page < USER_ADDRESS_MAX" "page AND 0xFFF = 0"
  shows "user_ok h s2" "vb < USER_ADDRESS_MAX \<Longrightarrow> load_byte vb s2 = (if pg vb = page then Some 0 else load_byte vb s)"
    "pg vb = page \<Longrightarrow> vb < USER_ADDRESS_MAX \<Longrightarrow> maps_to s2 vb f"
proof -
  note u = user_okD [OF ok] and e = map_fresh_effect [OF ok f fr s1 m] and c = cleared_frame [OF ok f fr s1]
  have self: "same_page page va \<longleftrightarrow> pg va = page" if "va < USER_ADDRESS_MAX" for va
    using user_same_page [OF p(1) that] pg_idem [OF p(2)] by auto
  have old: "maps_to s2 va g \<longleftrightarrow> maps_to s va g" "unmapped s2 va \<longleftrightarrow> unmapped s va" if "\<not> same_page page va" for va g
    using e(5) [of va] that by (simp_all add: maps_to_def unmapped_def)
  have new: "maps_to s2 va g \<longleftrightarrow> g = f" if "same_page page va" for va g
  proof -
    have "maps_to s2 va f" using e(5) [of va] that c(7) by (simp add: maps_to_def)
    then show ?thesis using maps_to_inj by blast
  qed
  then show "maps_to s2 vb f" if "pg vb = page" "vb < USER_ADDRESS_MAX" using self that by blast
  have "unmapped s2 va \<or> (\<exists>g. maps_to s2 va g \<and> owned h s2 g)" if "va < USER_ADDRESS_MAX" for va
    using new [of va f] e(3) old [of va] e(4) u(4) [OF that] by (cases "same_page page va") auto
  moreover have "same_page va vb" if v: "va < USER_ADDRESS_MAX" "vb < USER_ADDRESS_MAX" and mv: "maps_to s2 va g" "maps_to s2 vb g" for va vb g
  proof -
    have nf: "\<not> maps_to s w f" if "w < USER_ADDRESS_MAX" for w using e(4) user_maps_owned [OF ok that] by blast
    then have "same_page page va \<longleftrightarrow> same_page page vb" using v mv new [of va g] new [of vb g] old(1) [of va g] old(1) [of vb g] by blast
    then show ?thesis using u(5) [OF v] mv old(1) [of va g] old(1) [of vb g] by (cases "same_page page va") (auto simp: same_page_def)
  qed
  ultimately show ok2: "user_ok h s2" using e(1,6) e(6) [OF u(3) [OF p(1)]] u(3) by (auto simp: user_ok_def)
  assume vb: "vb < USER_ADDRESS_MAX"
  have load: "load_byte vb s2 = Some (if g = f then 0 else get_byte (mem s) (g + h + (vb AND 0xFFF)))" if mg: "maps_to s2 vb g" for g
  proof -
    have og: "owned h s2 g" "phys_to_ptr s2 g \<noteq> None" "g AND PTE_ADDR_MASK = g"
      using user_maps_owned [OF ok2 vb mg] mg by (simp_all add: owned_def maps_to_def)
    note ga = frame_addr [OF e(1) og(3,2)] and fa = frame_addr [OF e(1) c(7), unfolded e(2)]
    have k: "unat (vb AND 0xFFF) < 4096" by (simp add: unat_offset_bits)
    have "pg ((g + h + (vb AND 0xFFF)) AND NOT 7) \<notin> tables s2" using og(1) pg_add(1) [OF ga(1) k] pg_cell(1) by (simp add: owned_def)
    then have "mem s2 ((g + h + (vb AND 0xFFF)) AND NOT 7) = mem s1 ((g + h + (vb AND 0xFFF)) AND NOT 7)" using e(7) by blast
    then have "get_byte (mem s2) (g + h + (vb AND 0xFFF)) = get_byte (mem s1) (g + h + (vb AND 0xFFF))" by (simp add: get_byte_def)
    moreover have "phys_to_ptr s f \<noteq> None" using e(3) by (simp add: owned_def e(2))
    ultimately show ?thesis using load_mapped [OF e(1) mg og(2)] get_copied [OF fa(1) ga(1) fa(4) ga(4) _ k, of 0 "replicate 4096 0" "s\<lparr>frames := fr\<rparr>"] k
      by (simp add: s1)
  qed
  show "load_byte vb s2 = (if pg vb = page then Some 0 else load_byte vb s)"
  proof (cases "unmapped s vb \<or> pg vb = page")
    case True
    then show ?thesis using load [of f] new [of vb f] self [OF vb] old(2) [of vb] by (auto simp: load_unmapped)
  next
    case False
    then obtain g where g: "maps_to s vb g" "owned h s g" using u(4) [OF vb] by blast
    then show ?thesis using False load [of g] old(1) [of vb g] self [OF vb] e(4) load_mapped [OF u(1)] by (auto simp: owned_def)
  qed
qed

text \<open>What mapping a zeroed page at \<open>page\<close> does to the user's view.\<close>

definition zero_mapped :: "u64 \<Rightarrow> u64 \<Rightarrow> mm \<Rightarrow> mm \<Rightarrow> bool" where
  "zero_mapped h page s s' \<longleftrightarrow> user_ok h s' \<and> card (free_frames (frames s)) \<le> card (free_frames (frames s')) + 4 \<and>
     (\<forall>va<USER_ADDRESS_MAX. load_byte va s' = (if pg va = page then Some 0 else load_byte va s))"

lemma map_zeroed_page_ok:
  assumes ok: "user_ok h s" and p: "page < USER_ADDRESS_MAX" "page AND 0xFFF = 0" and fr: "4 \<le> card (free_frames (frames s))"
  shows "\<exists>f s'. map_zeroed_page page s = Some (f, s') \<and> f \<noteq> PMM_NO_PAGE \<and> maps_to s' page f \<and> zero_mapped h page s s'"
proof -
  note u = user_okD [OF ok]
  have "pmm_wf (frames s)" using vmm_okD(1) [OF u(1)] by (simp add: vmm_inv_def)
  then show ?thesis
  proof (cases rule: pmm_alloc_page_cases)
    case none
    then show ?thesis using fr by simp
  next
    case (page f fr')
    define s1 where "s1 = copied h f 0 (replicate 4096 0) (s\<lparr>frames := fr'\<rparr>)"
    note c = cleared_frame [OF ok page(2,3,1) s1_def]
    have np: "f \<noteq> PMM_NO_PAGE" using frame_bit [OF c(7)] by (auto simp: PMM_NO_PAGE_def)
    have "card (free_frames (frames s)) = Suc (card (free_frames fr'))" using page(2,3) finite_free_frames card_Suc_Diff1 by metis
    then have "3 \<le> card (free_frames (frames s1))" using fr by (simp add: s1_def)
    from vmm_map_progress [OF vmm_okD(1,2) [OF c(1)] p(2) masked_frame_bits(4) [OF c(7)] _ c(8) this]
    obtain s2 where m: "vmm_map_user_page page f s1 = Some s2" using c(4) u(3) [OF p(1)] by (auto simp: vmm_map_user_page_def)
    note e = user_map_fresh [OF ok page(2,3,1) s1_def m p] and ef = map_fresh_effect(6) [OF ok page(2,3,1) s1_def m u(3) [OF p(1)]]
    have "phys_to_virt s f = Some (f + h)" using frame_addr(3) [OF u(1) c(7)] u(2) page(2) by (simp add: frames_mapped_def)
    then have "phys_to_virt (s\<lparr>frames := fr'\<rparr>) f = Some (f + h)" by (simp add: phys_to_virt_def)
    then have "map_zeroed_page page s = Some (f, s2)" using m np page(1) by (simp add: map_zeroed_page_def s1_def copied_def PAGE_SIZE_def)
    then show ?thesis using np e ef pg_idem [OF p(2)] p(1) by (auto simp: zero_mapped_def)
  qed
qed

text \<open>With no frame left nothing is mapped.\<close>

lemma map_zeroed_page_full: "vmm_inv s \<Longrightarrow> free_frames (frames s) = {} \<Longrightarrow> map_zeroed_page page s = Some (PMM_NO_PAGE, s)"
  by (rule pmm_alloc_page_cases [of "frames s"]) (auto simp: vmm_inv_def map_zeroed_page_def)

section \<open>Runs of pages\<close>

text \<open>Pages as ranges of addresses.\<close>

lemma pg_le: "pg a \<le> a"
  by (simp add: word_le_nat_alt unat_pg)

lemma page_lower: "page AND 0xFFF = 0 \<Longrightarrow> page \<le> a \<longleftrightarrow> page \<le> pg a"
proof
  assume p: "page AND 0xFFF = 0" and "page \<le> a"
  obtain k where "unat page = 4096 * k" using p by (auto simp: aligned_dvd elim: dvdE)
  then show "page \<le> pg a" using \<open>page \<le> a\<close> by (simp add: word_le_nat_alt unat_pg)
qed (use pg_le order_trans in blast)

lemma page_next:
  assumes "page AND 0xFFF = 0" "page < USER_ADDRESS_MAX"
  shows "cadd page PAGE_SIZE = Some (page + 4096)" "unat (page + 4096) = unat page + 4096" "(page + 4096) AND 0xFFF = 0" "page + 4096 \<le> USER_ADDRESS_MAX"
    "page \<le> a \<longleftrightarrow> pg a = page \<or> page + 4096 \<le> a" "pg a = page \<Longrightarrow> \<not> page + 4096 \<le> a"
proof -
  have b: "unat page < 2 ^ 47" using assms(2) by (simp add: USER_ADDRESS_MAX_def word_less_nat_alt)
  obtain k where k: "unat page = 4096 * k" using assms(1) by (auto simp: aligned_dvd elim: dvdE)
  show u: "unat (page + 4096) = unat page + 4096" using b by (subst unat_add_bounded) simp_all
  show "cadd page PAGE_SIZE = Some (page + 4096)" using b by (simp add: cadd_def PAGE_SIZE_def)
  show "(page + 4096) AND 0xFFF = 0" using assms(1) by (intro aligned_add) simp_all
  show "page + 4096 \<le> USER_ADDRESS_MAX" using b k by (simp add: word_le_nat_alt u USER_ADDRESS_MAX_def)
  have "pg a = page \<longleftrightarrow> unat page \<le> unat a \<and> unat a < unat page + 4096"
  proof
    assume "pg a = page"
    then have "unat a div 4096 * 4096 = unat page" using unat_pg [of a] by simp
    moreover have "unat a div 4096 * 4096 + unat a mod 4096 = unat a" "unat a mod 4096 < 4096" by simp_all
    ultimately show "unat page \<le> unat a \<and> unat a < unat page + 4096" by linarith
  qed (use pg_range [OF assms(1)] in blast)
  then show "page \<le> a \<longleftrightarrow> pg a = page \<or> page + 4096 \<le> a" "pg a = page \<Longrightarrow> \<not> page + 4096 \<le> a"
    by (auto simp: word_le_nat_alt u)
qed

text \<open>After \<open>n\<close> zeroed pages from \<open>base\<close>.\<close>

definition zero_run :: "u64 \<Rightarrow> u64 \<Rightarrow> nat \<Rightarrow> mm \<Rightarrow> mm \<Rightarrow> bool" where
  "zero_run h base n s s' \<longleftrightarrow> user_ok h s' \<and> card (free_frames (frames s)) \<le> card (free_frames (frames s')) + 4 * n \<and>
     (\<forall>va<USER_ADDRESS_MAX. load_byte va s' = (if unat base \<le> unat va \<and> unat va < unat base + 4096 * n then Some 0 else load_byte va s))"

lemma zero_run_0: "user_ok h s \<Longrightarrow> zero_run h base 0 s s"
  by (auto simp: zero_run_def)

lemma zero_run_step:
  assumes r: "zero_run h base i s t" and b: "base AND 0xFFF = 0" "unat base + 4096 * Suc i \<le> unat USER_ADDRESS_MAX"
    and fr: "4 * Suc i \<le> card (free_frames (frames s))"
  shows "\<exists>f t'. map_zeroed_page (base + of_nat i * 4096) t = Some (f, t') \<and> f \<noteq> PMM_NO_PAGE \<and> zero_run h base (Suc i) s t'"
proof -
  let ?p = "base + of_nat i * 4096 :: u64"
  have m: "unat USER_ADDRESS_MAX = 2 ^ 47" by (simp add: USER_ADDRESS_MAX_def)
  have "unat (of_nat i * 4096 :: u64) = i * 4096" using b(2) m by (subst unat_mult_bounded) (simp_all add: unat_of_nat_bounded)
  then have u: "unat ?p = unat base + 4096 * i" using b(2) m by (subst unat_add_bounded) simp_all
  have p: "?p < USER_ADDRESS_MAX" "?p AND 0xFFF = 0" using b(2) u m b(1) by (simp_all add: word_less_nat_alt aligned_dvd)
  have ru: "user_ok h t" "card (free_frames (frames s)) \<le> card (free_frames (frames t)) + 4 * i" using r by (simp_all add: zero_run_def)
  then have "4 \<le> card (free_frames (frames t))" using fr by simp
  from map_zeroed_page_ok [OF ru(1) p this] obtain f t' where z: "map_zeroed_page ?p t = Some (f, t')" "f \<noteq> PMM_NO_PAGE" "zero_mapped h ?p t t'" by blast
  have "load_byte va t' = (if unat base \<le> unat va \<and> unat va < unat base + 4096 * Suc i then Some 0 else load_byte va s)" if va: "va < USER_ADDRESS_MAX" for va
  proof -
    have "pg va = ?p \<longleftrightarrow> unat base + 4096 * i \<le> unat va \<and> unat va < unat base + 4096 * i + 4096"
      using page_next(2) [OF p(2,1)] page_next(5,6) [OF p(2,1), of va] u by (auto simp: word_le_nat_alt)
    then show ?thesis using z(3) r va by (auto simp: zero_mapped_def zero_run_def)
  qed
  then have "zero_run h base (Suc i) s t'" using z(3) ru(2) by (simp add: zero_run_def zero_mapped_def)
  then show ?thesis using z by blast
qed

section \<open>Machines with nothing mapped\<close>

lemma nothing_mapped_user_ok:
  assumes "vmm_ok h s" "frames_mapped s" "\<And>a. mem s a = 0"
  shows "user_ok h s"
proof -
  have t: "table_of s (i # p) = None" for i p using assms(3) by (cases "table_of s p") simp_all
  have v: "vmm_virt_to_phys va s = Some VMM_NO_PHYS" for va using assms(3) by (simp add: virt_to_phys_xlate xlate_level)
  then have "unmapped s va" "\<not> maps_to s va f" for va f using maps_to_mapped [of s va f] by (auto simp: unmapped_def)
  moreover have "walk_clear va s" for va using assms(3) by (auto simp: walk_clear_def pte_def)
  ultimately show ?thesis using assms(1,2) by (simp add: user_ok_def)
qed

lemma sample_user_ok: "user_ok 0xFFFF800000000000 sample_mm"
  by (rule nothing_mapped_user_ok) (use sample_ready in \<open>simp_all add: vmm_ok_def sample_mm_def\<close>)

text \<open>The machine of theory \<open>Vmm\<close> with pages 1 to 127 free.\<close>

definition roomy_mm :: mm where
  "roomy_mm = sample_mm\<lparr>frames := \<lparr>bitmap_ptr = 0xFFFF800000080000, bitmap = [1, 0], bitmap_entries = 2, alloc_hint = 0\<rparr>\<rparr>"

lemma roomy_page_free: "page_free (frames roomy_mm) q \<longleftrightarrow> q \<noteq> 0 \<and> q < 128"
proof -
  have "q div 64 < 2 \<longleftrightarrow> q < 128" by linarith
  moreover have "bm_bit [1, 0] q \<longleftrightarrow> q = 0" if "q < 128"
  proof (cases "q < 64")
    case True
    then show ?thesis by (cases q) (simp_all add: bm_bit_def bit_1_iff)
  next
    case False
    then have "q div 64 = 1" using that by linarith
    then show ?thesis using False by (simp add: bm_bit_def)
  qed
  ultimately show ?thesis by (auto simp: page_free_def roomy_mm_def)
qed

lemma roomy_frames:
  assumes "a \<in> free_frames (frames roomy_mm)"
  shows "a AND 0xFFF = 0" "a \<noteq> 0" "unat a < 2 ^ 19"
proof -
  have m: "unat a mod 4096 = 0" "unat a div 4096 \<noteq> 0" "unat a div 4096 < 128" using assms by (auto simp: free_frames_def roomy_page_free)
  show "a AND 0xFFF = 0" using m(1) by (simp add: aligned_dvd dvd_eq_mod_eq_0)
  show "a \<noteq> 0" using m(2) by auto
  have "unat a = unat a div 4096 * 4096 + unat a mod 4096" by simp
  then show "unat a < 2 ^ 19" using m(1,3) by simp
qed

lemma roomy_user_ok: "user_ok 0xFFFF800000000000 roomy_mm"
proof (rule nothing_mapped_user_ok)
  have h: "hhdm roomy_mm = Some 0xFFFF800000000000" "pml4 roomy_mm = 0xFFFF800000000000" "mem roomy_mm = (\<lambda>_. 0)" by (simp_all add: roomy_mm_def sample_mm_def)
  have t: "table_of roomy_mm p = (if p = [] then Some 0xFFFF800000000000 else None)" for p by (induction p) (simp_all add: h)
  have "a AND PTE_ADDR_MASK = a" if a: "a \<in> free_frames (frames roomy_mm)" for a
  proof -
    have "take_bit 52 a = a" using roomy_frames(3) [OF a] by (intro word_eq_unatI) (simp add: unsigned_take_bit_eq take_bit_nat_eq_self)
    then have "a AND mask 52 = a" by (simp add: take_bit_eq_mask)
    moreover have "PTE_ADDR_MASK = mask 52 AND NOT 0xFFF" by (simp add: PTE_ADDR_MASK_def mask_eq_exp_minus_1)
    ultimately show ?thesis using pg_idem [OF roomy_frames(1) [OF a]] by (metis and.assoc pg_def)
  qed
  moreover have "pmm_wf (frames roomy_mm)" by (simp add: pmm_wf_def roomy_mm_def)
  ultimately have "vmm_inv roomy_mm" using roomy_frames(2) unfolding vmm_inv_def t by (auto simp: h)
  then show "vmm_ok 0xFFFF800000000000 roomy_mm" by (simp add: vmm_ok_def h)
  show "frames_mapped roomy_mm" using roomy_frames(3) by (fastforce simp: frames_mapped_def phys_to_ptr_def h cadd_def)
  show "mem roomy_mm a = 0" for a by (simp add: h)
qed

lemma roomy_free: "120 \<le> card (free_frames (frames roomy_mm))"
proof -
  let ?f = "\<lambda>q. of_nat q * 4096 :: u64"
  have u: "unat (?f q) = q * 4096" if "q < 128" for q using that by (subst unat_mult_bounded) (simp_all add: unat_of_nat_bounded)
  have "inj_on ?f {1..<121}"
  proof (rule inj_onI)
    fix x y :: nat assume xy: "x \<in> {1..<121}" "y \<in> {1..<121}" and e: "?f x = ?f y"
    have "unat (?f x) = x * 4096" "unat (?f y) = y * 4096" using xy by (auto intro!: u)
    then have "x * 4096 = y * 4096" unfolding e by linarith
    then show "x = y" by simp
  qed
  then have "card (?f ` {1..<121}) = 120" by (simp add: card_image)
  moreover have "?f ` {1..<121} \<subseteq> free_frames (frames roomy_mm)" using u by (auto simp: free_frames_def roomy_page_free)
  ultimately show ?thesis using card_mono [OF finite_free_frames] by metis
qed

end
