(* ===== verification/Elf.thy ===== *)
theory Elf
  imports Memory
begin

text \<open>
  The program loader of \<^verbatim>\<open>src/user.rs\<close>: the header scan, the ELF parser and the mapping of segments and stacks.  The file image is the list of its
  bytes.  The outer option is the kernel stopping; \<^verbatim>\<open>usize\<close> arithmetic on numbers read from the file is kept at 64 bits.
\<close>

section \<open>Constants and readers\<close>

definition PT_LOAD :: u32 where "PT_LOAD = 1"
definition ET_EXEC :: u16 where "ET_EXEC = 2"
definition EM_X86_64 :: u16 where "EM_X86_64 = 0x3E"
definition USER_STACK_TOP :: u64 where "USER_STACK_TOP = 0x00007FFF00000000"
definition USER_STACK_PAGES :: u64 where "USER_STACK_PAGES = 16"
definition USER_STACK_SPAN :: u64 where "USER_STACK_SPAN = (USER_STACK_PAGES + 2) * PAGE_SIZE"

definition PINX_INIT_MAGIC :: "u8 list" where "PINX_INIT_MAGIC = map of_char ''PINX-64-INIT''"
definition PINX_INIT_VERSION :: u32 where "PINX_INIT_VERSION = 1"
definition PINX_PROGRAM_MAGIC :: "u8 list" where "PINX_PROGRAM_MAGIC = map of_char ''PINX-64-PROG''"
definition PINX_PROGRAM_VERSION :: u32 where "PINX_PROGRAM_VERSION = 1"

record PinxProgramHeader =
  hdr_magic :: "u8 list"
  hdr_version :: u32

definition PinxInitHeader_new :: PinxProgramHeader where
  "PinxInitHeader_new = \<lparr>hdr_magic = PINX_INIT_MAGIC, hdr_version = PINX_INIT_VERSION\<rparr>"

definition PinxProgramHeader_new :: PinxProgramHeader where
  "PinxProgramHeader_new = \<lparr>hdr_magic = PINX_PROGRAM_MAGIC, hdr_version = PINX_PROGRAM_VERSION\<rparr>"

definition read_u16 :: "u8 list \<Rightarrow> nat \<Rightarrow> u16 option" where "read_u16 img offset = map_option from_le_bytes (rd img offset 2)"
definition read_u32 :: "u8 list \<Rightarrow> nat \<Rightarrow> u32 option" where "read_u32 img offset = map_option from_le_bytes (rd img offset 4)"
definition read_u64 :: "u8 list \<Rightarrow> nat \<Rightarrow> u64 option" where "read_u64 img offset = map_option from_le_bytes (rd img offset 8)"

section \<open>The header scan\<close>

text \<open>The \<^verbatim>\<open>while\<close> loop over the positions that leave room for a header of 16 bytes.\<close>

fun scan_header :: "u8 list \<Rightarrow> u8 list \<Rightarrow> u32 \<Rightarrow> nat list \<Rightarrow> bool option" where
  "scan_header img magic version [] = Some False"
| "scan_header img magic version (i # is) = do {
     here \<leftarrow> rd img i (length magic);
     if here = magic then do {
       found \<leftarrow> read_u32 img (i + length magic);
       Some (found = version)
     } else scan_header img magic version is
   }"

definition find_header :: "u8 list \<Rightarrow> u8 list \<Rightarrow> u32 \<Rightarrow> bool option" where
  "find_header img magic version =
     (let header_size = 16 in
      if length img < header_size then Some False
      else scan_header img magic version [0..<length img + 1 - header_size])"

section \<open>Mapping a segment\<close>

text \<open>The part of a page that the file actually provides, copied to the page's frame at \<open>dst\<close>.\<close>

definition copy_part :: "u8 list \<Rightarrow> u64 \<Rightarrow> u64 \<Rightarrow> u64 \<Rightarrow> u64 \<Rightarrow> u64 \<Rightarrow> mm \<Rightarrow> mm option" where
  "copy_part img file_offset vaddr file_end page dst s = do {
     let copy_start = max page vaddr;
     page_end \<leftarrow> cadd page PAGE_SIZE;
     let copy_end = min page_end file_end;
     if copy_start < copy_end then do {
       let count = copy_end - copy_start;
       source \<leftarrow> cadd file_offset (copy_start - vaddr);
       bytes \<leftarrow> rd img (unat source) (unat count);
       Some (s\<lparr>mem := copy_bytes (dst + (copy_start - page)) bytes (mem s)\<rparr>)
     } else Some s
   }"

text \<open>One turn of the loop of \<^verbatim>\<open>map_segment\<close>: find or make the frame, then copy.\<close>

definition segment_page :: "u8 list \<Rightarrow> u64 \<Rightarrow> u64 \<Rightarrow> u64 \<Rightarrow> u64 \<Rightarrow> mm \<Rightarrow> (bool \<times> mm) option" where
  "segment_page img file_offset vaddr file_end page s = do {
     frame \<leftarrow> vmm_virt_to_phys page s;
     (found, s) \<leftarrow>
       (if frame = VMM_NO_PHYS then do {
          (frame, s) \<leftarrow> map_zeroed_page page s;
          Some (if frame = PMM_NO_PAGE then None else Some frame, s)
        } else Some (Some frame, s));
     case found of
       None \<Rightarrow> Some (False, s)
     | Some frame \<Rightarrow> do {
         dst \<leftarrow> phys_to_virt s frame;
         s \<leftarrow> copy_part img file_offset vaddr file_end page dst s;
         Some (True, s)
       }
   }"

partial_function (option) segment_loop :: "u8 list \<Rightarrow> u64 \<Rightarrow> u64 \<Rightarrow> u64 \<Rightarrow> u64 \<Rightarrow> u64 \<Rightarrow> mm \<Rightarrow> (bool \<times> mm) option" where
  "segment_loop img file_offset vaddr file_end mem_end page s =
     (if page < mem_end then do {
        (ok, s) \<leftarrow> segment_page img file_offset vaddr file_end page s;
        if \<not> ok then Some (False, s)
        else do {
          page \<leftarrow> cadd page PAGE_SIZE;
          segment_loop img file_offset vaddr file_end mem_end page s
        }
      } else Some (True, s))"

definition map_segment :: "u8 list \<Rightarrow> u64 \<Rightarrow> u64 \<Rightarrow> u64 \<Rightarrow> u64 \<Rightarrow> mm \<Rightarrow> (bool \<times> mm) option" where
  "map_segment img file_offset vaddr filesz memsz s =
     (case cadd vaddr memsz of
        None \<Rightarrow> Some (False, s)
      | Some mem_end \<Rightarrow> do {
          file_end \<leftarrow> cadd vaddr filesz;
          segment_loop img file_offset vaddr file_end mem_end (vaddr AND NOT (PAGE_SIZE - 1)) s
        })"

section \<open>The ELF file\<close>

fun load_segments :: "u8 list \<Rightarrow> u64 \<Rightarrow> u64 \<Rightarrow> nat list \<Rightarrow> mm \<Rightarrow> (bool \<times> mm) option" where
  "load_segments img phoff phentsize [] s = Some (True, s)"
| "load_segments img phoff phentsize (i # is) s = do {
     d \<leftarrow> cmul (of_nat i) phentsize;
     ph \<leftarrow> cadd phoff d;
     ph_end \<leftarrow> cadd ph 56;
     if unat ph_end > length img then Some (False, s)
     else do {
       p_type \<leftarrow> read_u32 img (unat ph);
       if p_type \<noteq> PT_LOAD then load_segments img phoff phentsize is s
       else do {
         offset \<leftarrow> read_u64 img (unat ph + 8);
         vaddr \<leftarrow> read_u64 img (unat ph + 16);
         filesz \<leftarrow> read_u64 img (unat ph + 32);
         memsz \<leftarrow> read_u64 img (unat ph + 40);
         if filesz > memsz then Some (False, s)
         else case cadd offset filesz of
           None \<Rightarrow> Some (False, s)
         | Some file_end \<Rightarrow>
             if unat file_end > length img then Some (False, s)
             else if memsz = 0 then load_segments img phoff phentsize is s
             else do {
               (ok, s) \<leftarrow> map_segment img offset vaddr filesz memsz s;
               if ok then load_segments img phoff phentsize is s else Some (False, s)
             }
       }
     }
   }"

definition load_elf :: "u8 list \<Rightarrow> mm \<Rightarrow> (u64 option \<times> mm) option" where
  "load_elf img s =
     (if length img < 64 then Some (None, s)
      else if take 4 img \<noteq> [0x7F, 0x45, 0x4C, 0x46] \<or> img ! 4 \<noteq> 2 \<or> img ! 5 \<noteq> 1 then Some (None, s)
      else do {
        e_type \<leftarrow> read_u16 img 16;
        e_machine \<leftarrow> read_u16 img 18;
        if e_type \<noteq> ET_EXEC \<or> e_machine \<noteq> EM_X86_64 then Some (None, s)
        else do {
          entry \<leftarrow> read_u64 img 24;
          phoff \<leftarrow> read_u64 img 32;
          phentsize \<leftarrow> read_u16 img 54;
          phnum \<leftarrow> read_u16 img 56;
          if phentsize < 56 then Some (None, s)
          else do {
            (ok, s) \<leftarrow> load_segments img phoff (ucast phentsize) [0..<unat phnum] s;
            Some (if ok then Some entry else None, s)
          }
        }
      })"

section \<open>Stacks\<close>

text \<open>\<open>NEXT_STACK\<close> is threaded beside the memory.  Running out of frames stops the kernel.\<close>

definition map_user_stack :: "u64 \<times> mm \<Rightarrow> (u64 \<times> u64 \<times> mm) option" where
  "map_user_stack = (\<lambda>(NEXT_STACK, s). do {
     let top = NEXT_STACK;
     NEXT_STACK \<leftarrow> csub NEXT_STACK USER_STACK_SPAN;
     s \<leftarrow> for_each [0..<unat USER_STACK_PAGES] (\<lambda>i s. do {
            page \<leftarrow> csub top ((USER_STACK_PAGES - of_nat i) * PAGE_SIZE);
            (frame, s) \<leftarrow> map_zeroed_page page s;
            if frame = PMM_NO_PAGE then None else Some s
          }) s;
     Some (top, NEXT_STACK, s)
   })"

section \<open>What a segment puts in memory\<close>

text \<open>
  The byte of a user address after a segment is mapped, from the byte before: the file's byte where the file provides one, and zero in pages that
  were not mapped.
\<close>

definition place_byte :: "u8 list \<Rightarrow> u64 \<Rightarrow> u64 \<Rightarrow> u64 \<Rightarrow> u64 \<Rightarrow> u64 \<Rightarrow> u8 option \<Rightarrow> u8 option" where
  "place_byte img file_offset vaddr file_end mem_end va old =
     (if vaddr \<le> va \<and> va < file_end then Some (img ! (unat file_offset + (unat va - unat vaddr)))
      else if pg vaddr \<le> va \<and> pg va < mem_end \<and> old = None then Some 0
      else old)"

text \<open>One page of a segment.\<close>

lemma copied_frame:
  assumes "user_ok h s" "page < USER_ADDRESS_MAX" "page AND 0xFFF = 0" "maps_to s page f"
  shows "vmm_virt_to_phys page s = Some f" "f \<noteq> VMM_NO_PHYS" "phys_to_virt s f = Some (f + h)" "owned h s f"
proof -
  show o: "owned h s f" using user_maps_owned [OF assms(1,2,4)] .
  show "vmm_virt_to_phys page s = Some f" "f \<noteq> VMM_NO_PHYS" using maps_to_mapped [OF assms(4)] assms(3) by simp_all
  show "phys_to_virt s f = Some (f + h)" using frame_addr(3) [OF user_okD(1) [OF assms(1)]] assms(4) o by (simp add: maps_to_def owned_def)
qed

lemma copied_window:
  assumes ok: "user_ok h s" and p: "page < USER_ADDRESS_MAX" "page AND 0xFFF = 0" and m: "maps_to s page f"
    and w: "unat page \<le> A" "W \<le> A" "B \<le> unat page + 4096" "A < B" and im: "n + (A - W) + (B - A) \<le> length img" and va: "va < USER_ADDRESS_MAX"
  shows "load_byte va (copied h f (A - unat page) (take (B - A) (drop (n + (A - W)) img)) s) =
    (if A \<le> unat va \<and> unat va < B then Some (img ! (n + (unat va - W))) else load_byte va s)"
proof -
  let ?bs = "take (B - A) (drop (n + (A - W)) img)"
  have len: "length ?bs = B - A" using im by simp
  have "A - unat page + length ?bs \<le> 4096" using w len by linarith
  note l = user_copied_load [OF ok p(1) m copied_frame(4) [OF ok p m] this va, unfolded Let_def pg_idem [OF p(2)] len]
  have inp: "pg va = page \<longleftrightarrow> unat page \<le> unat va \<and> unat va < unat page + 4096"
    using page_next(2) [OF p(2,1)] page_next(5,6) [OF p(2,1), of va] by (auto simp: word_le_nat_alt)
  have k: "unat (va AND 0xFFF) = unat va - unat page" if "pg va = page"
    using that unat_pg [of va] unat_offset_bits [of va] by (metis add_diff_cancel_left' div_mult_mod_eq)
  show ?thesis
  proof (cases "A \<le> unat va \<and> unat va < B")
    case True
    then have pv: "pg va = page" using w inp by simp
    have i: "A - unat page \<le> unat va - unat page" "unat va - unat page < A - unat page + (B - A)" using True w by linarith+
    have "unat va - unat page - (A - unat page) = unat va - A" "unat va - A < B - A" "n + (A - W) + (unat va - A) = n + (unat va - W)" "n + (A - W) \<le> length img"
      using True w im by linarith+
    then have "?bs ! (unat va - unat page - (A - unat page)) = img ! (n + (unat va - W))" by (simp only: nth_take nth_drop)
    then show ?thesis using l True i pv k [OF pv] by simp
  next
    case False
    then have "\<not> (pg va = page \<and> A - unat page \<le> unat (va AND 0xFFF) \<and> unat (va AND 0xFFF) < A - unat page + (B - A))"
      using k w inp by auto
    then show ?thesis using l False by argo
  qed
qed

lemma copy_part_ok:
  assumes ok: "user_ok h s" and p: "page < USER_ADDRESS_MAX" "page AND 0xFFF = 0" and m: "maps_to s page f"
    and fe: "vaddr \<le> file_end" and im: "unat file_offset + (unat file_end - unat vaddr) \<le> length img" "length img < 2 ^ 64"
  shows "\<exists>s'. copy_part img file_offset vaddr file_end page (f + h) s = Some s' \<and> user_ok h s' \<and> frames s' = frames s \<and>
    (\<forall>va<USER_ADDRESS_MAX. load_byte va s' =
      (if pg va = page \<and> vaddr \<le> va \<and> va < file_end then Some (img ! (unat file_offset + (unat va - unat vaddr))) else load_byte va s))"
proof -
  note n = page_next [OF p(2,1)] and c = copied_frame [OF ok p m]
  define a b where "a = max page vaddr" and "b = min (page + 4096) file_end"
  have ua: "unat a = max (unat page) (unat vaddr)" "unat b = min (unat page + 4096) (unat file_end)"
    by (simp_all add: a_def b_def max_def min_def word_le_nat_alt n(2))
  have win: "pg va = page \<and> vaddr \<le> va \<and> va < file_end \<longleftrightarrow> unat a \<le> unat va \<and> unat va < unat b" for va
    using n(5,6) [of va] by (auto simp: ua word_le_nat_alt word_less_nat_alt n(2))
  have run: "copy_part img file_offset vaddr file_end page (f + h) s =
      (if a < b then do {
         source \<leftarrow> cadd file_offset (a - vaddr);
         bytes \<leftarrow> rd img (unat source) (unat (b - a));
         Some (s\<lparr>mem := copy_bytes (f + h + (a - page)) bytes (mem s)\<rparr>)
       } else Some s)"
    unfolding copy_part_def Let_def n(1) bind.bind_lunit a_def b_def by (rule refl)
  show ?thesis
  proof (cases "a < b")
    case False
    then have "\<not> (unat a \<le> unat va \<and> unat va < unat b)" for va by (simp add: word_less_nat_alt)
    then show ?thesis using ok False unfolding win run by auto
  next
    case True
    then have lt: "unat a < unat b" by (simp add: word_less_nat_alt)
    have w: "unat page \<le> unat a" "unat vaddr \<le> unat a" "unat b \<le> unat page + 4096" "unat b \<le> unat file_end" by (simp_all add: ua)
    have src: "unat file_offset + (unat a - unat vaddr) + (unat b - unat a) \<le> length img" using im(1) w lt by linarith
    have d: "unat (a - page) = unat a - unat page" "unat (a - vaddr) = unat a - unat vaddr" "unat (b - a) = unat b - unat a"
      using w lt by (simp_all add: unat_sub word_le_nat_alt)
    let ?s = "copied h f (unat a - unat page) (take (unat b - unat a) (drop (unat file_offset + (unat a - unat vaddr)) img)) s"
    have cs: "cadd file_offset (a - vaddr) = Some (file_offset + (a - vaddr))" "unat (file_offset + (a - vaddr)) = unat file_offset + (unat a - unat vaddr)"
      using src im(2) by (simp_all add: cadd_def unat_add_bounded d(2))
    have "f + h + (a - page) = f + h + of_nat (unat a - unat page)" unfolding d(1) [symmetric] by simp
    then have "copy_part img file_offset vaddr file_end page (f + h) s = Some ?s"
      using True src cs unfolding run copied_def by (simp add: d(3) rd_def)
    moreover have "user_ok h ?s" using w lt src by (intro user_copied [OF ok m c(4)]) auto
    ultimately show ?thesis using copied_window [OF ok p m w(1-3) lt src] unfolding win by (intro exI [of _ ?s]) simp
  qed
qed

lemma load_none_iff:
  assumes "user_ok h s" "va < USER_ADDRESS_MAX"
  shows "load_byte va s = None \<longleftrightarrow> unmapped s va"
proof
  assume n: "load_byte va s = None"
  have False if "maps_to s va f" for f
    using n load_mapped [OF user_okD(1) [OF assms(1)] that] user_maps_owned [OF assms that] by (simp add: owned_def)
  then show "unmapped s va" using user_okD(4) [OF assms] by blast
qed (rule load_unmapped)

text \<open>The frame of the page, found or made: a page that was not mapped reads as zero, nothing else changes.\<close>

lemma segment_frame:
  assumes ok: "user_ok h s" and p: "page < USER_ADDRESS_MAX" "page AND 0xFFF = 0" and fr: "4 \<le> card (free_frames (frames s))"
  shows "\<exists>f s1. user_ok h s1 \<and> maps_to s1 page f \<and> card (free_frames (frames s)) \<le> card (free_frames (frames s1)) + 4 \<and>
      (\<forall>va<USER_ADDRESS_MAX. load_byte va s1 = (if pg va = page \<and> load_byte va s = None then Some 0 else load_byte va s)) \<and>
      segment_page img file_offset vaddr file_end page s = map_option (Pair True) (copy_part img file_offset vaddr file_end page (f + h) s1)"
proof (cases "unmapped s page")
  case True
  obtain f s1 where z: "map_zeroed_page page s = Some (f, s1)" "f \<noteq> PMM_NO_PAGE" "maps_to s1 page f" "zero_mapped h page s s1"
    using map_zeroed_page_ok [OF ok p fr] by blast
  have z': "user_ok h s1" "\<forall>va<USER_ADDRESS_MAX. load_byte va s1 = (if pg va = page then Some 0 else load_byte va s)"
    "card (free_frames (frames s)) \<le> card (free_frames (frames s1)) + 4" using z(4) by (simp_all add: zero_mapped_def)
  have n: "load_byte va s = None" if "pg va = page" "va < USER_ADDRESS_MAX" for va
    using unmapped_page [OF ok True] that pg_idem [OF p(2)] by (simp add: load_unmapped)
  have "load_byte va s1 = (if pg va = page \<and> load_byte va s = None then Some 0 else load_byte va s)" if "va < USER_ADDRESS_MAX" for va
    using z'(2) n [OF _ that] that by (cases "pg va = page") simp_all
  moreover have "segment_page img file_offset vaddr file_end page s = map_option (Pair True) (copy_part img file_offset vaddr file_end page (f + h) s1)"
    using z(1,2) True copied_frame(3) [OF z'(1) p z(3)] by (simp add: segment_page_def unmapped_def map_option_case split: option.split)
  ultimately show ?thesis using z(3) z'(1,3) by blast
next
  case False
  then obtain f where f: "maps_to s page f" using user_okD(4) [OF ok p(1)] by blast
  have n: "load_byte va s \<noteq> None" if "pg va = page" "va < USER_ADDRESS_MAX" for va
    using load_none_iff [OF ok that(2)] unmapped_page [OF ok _ _ p(1), of va] False that(1) pg_idem [OF p(2)] by auto
  have "load_byte va s = (if pg va = page \<and> load_byte va s = None then Some 0 else load_byte va s)" if "va < USER_ADDRESS_MAX" for va
    using n [OF _ that] by simp
  moreover have "segment_page img file_offset vaddr file_end page s = map_option (Pair True) (copy_part img file_offset vaddr file_end page (f + h) s)"
    using copied_frame [OF ok p f] by (simp add: segment_page_def map_option_case split: option.split)
  ultimately show ?thesis using f ok le_add1 by blast
qed

lemma segment_page_ok:
  assumes ok: "user_ok h s" and p: "page < USER_ADDRESS_MAX" "page AND 0xFFF = 0" "pg vaddr \<le> page" "page < mem_end" and fr: "4 \<le> card (free_frames (frames s))"
    and fe: "vaddr \<le> file_end" and im: "unat file_offset + (unat file_end - unat vaddr) \<le> length img" "length img < 2 ^ 64"
  shows "\<exists>s'. segment_page img file_offset vaddr file_end page s = Some (True, s') \<and> user_ok h s' \<and>
    card (free_frames (frames s)) \<le> card (free_frames (frames s')) + 4 \<and>
    (\<forall>va<USER_ADDRESS_MAX. load_byte va s' =
      (if pg va = page then place_byte img file_offset vaddr file_end mem_end va (load_byte va s) else load_byte va s))"
proof -
  obtain f s1 where s1: "user_ok h s1" "maps_to s1 page f" "card (free_frames (frames s)) \<le> card (free_frames (frames s1)) + 4"
    "\<forall>va<USER_ADDRESS_MAX. load_byte va s1 = (if pg va = page \<and> load_byte va s = None then Some 0 else load_byte va s)"
    "segment_page img file_offset vaddr file_end page s = map_option (Pair True) (copy_part img file_offset vaddr file_end page (f + h) s1)"
    using segment_frame [OF ok p(1,2) fr] by blast
  from copy_part_ok [OF s1(1) p(1,2) s1(2) fe im] obtain s' where s': "copy_part img file_offset vaddr file_end page (f + h) s1 = Some s'" "user_ok h s'"
    "frames s' = frames s1" "\<forall>va<USER_ADDRESS_MAX. load_byte va s' =
      (if pg va = page \<and> vaddr \<le> va \<and> va < file_end then Some (img ! (unat file_offset + (unat va - unat vaddr))) else load_byte va s1)" by blast
  have "pg vaddr \<le> va" if "pg va = page" for va using that p(3) pg_le [of va] by simp
  then have "\<forall>va<USER_ADDRESS_MAX. load_byte va s' =
      (if pg va = page then place_byte img file_offset vaddr file_end mem_end va (load_byte va s) else load_byte va s)"
    using s'(4) s1(4) p(4) by (simp add: place_byte_def)
  then show ?thesis using s' s1(3,5) by (intro exI [of _ s']) simp
qed

lemma segment_loop_ok:
  assumes "user_ok h s" "page \<le> USER_ADDRESS_MAX" "page AND 0xFFF = 0" "pg vaddr \<le> page"
    and "unat mem_end \<le> unat page + 4096 * n" "4 * n \<le> card (free_frames (frames s))"
    and me: "mem_end \<le> USER_ADDRESS_MAX" "vaddr \<le> file_end" "file_end \<le> mem_end"
    and im: "unat file_offset + (unat file_end - unat vaddr) \<le> length img" "length img < 2 ^ 64"
  shows "\<exists>s'. segment_loop img file_offset vaddr file_end mem_end page s = Some (True, s') \<and> user_ok h s' \<and>
    card (free_frames (frames s)) \<le> card (free_frames (frames s')) + 4 * n \<and>
    (\<forall>va<USER_ADDRESS_MAX. load_byte va s' =
      (if page \<le> va then place_byte img file_offset vaddr file_end mem_end va (load_byte va s) else load_byte va s))"
  using assms(1-6)
proof (induction n arbitrary: page s)
  case (0 page s)
  have "place_byte img file_offset vaddr file_end mem_end va x = x" if "page \<le> va" for va x
  proof -
    have "mem_end \<le> page" using 0(5) by (simp add: word_le_nat_alt)
    moreover have "page \<le> pg va" using that page_lower [OF 0(3)] by simp
    ultimately have "\<not> va < file_end" "\<not> pg va < mem_end" using that me(3) by simp_all
    then show ?thesis by (simp add: place_byte_def)
  qed
  then show ?case using 0 by (subst segment_loop.simps) (auto simp: word_less_nat_alt)
next
  case (Suc n page s)
  show ?case
  proof (cases "page < mem_end")
    case False
    have "place_byte img file_offset vaddr file_end mem_end va x = x" if "page \<le> va" for va x
    proof -
      have "page \<le> pg va" using that page_lower [OF Suc.prems(3)] by simp
      then have "\<not> va < file_end" "\<not> pg va < mem_end" using that me(3) False by auto
      then show ?thesis by (simp add: place_byte_def)
    qed
    then show ?thesis using False Suc.prems(1) by (subst segment_loop.simps) auto
  next
    case True
    then have p: "page < USER_ADDRESS_MAX" using me(1) by simp
    note n = page_next [OF Suc.prems(3) p]
    have "4 \<le> card (free_frames (frames s))" using Suc.prems(6) by simp
    from segment_page_ok [OF Suc.prems(1) p Suc.prems(3,4) True this me(2) im] obtain s1 where
      s1: "segment_page img file_offset vaddr file_end page s = Some (True, s1)" "user_ok h s1"
        "card (free_frames (frames s)) \<le> card (free_frames (frames s1)) + 4"
        "\<forall>va<USER_ADDRESS_MAX. load_byte va s1 =
          (if pg va = page then place_byte img file_offset vaddr file_end mem_end va (load_byte va s) else load_byte va s)" by blast
    have "pg vaddr \<le> page + 4096" "unat mem_end \<le> unat (page + 4096) + 4096 * n" "4 * n \<le> card (free_frames (frames s1))"
      using Suc.prems(4-6) n(2) s1(3) by (simp_all add: word_le_nat_alt)
    from Suc.IH [OF s1(2) n(4,3) this] obtain s' where
      s': "segment_loop img file_offset vaddr file_end mem_end (page + 4096) s1 = Some (True, s')" "user_ok h s'"
        "card (free_frames (frames s1)) \<le> card (free_frames (frames s')) + 4 * n"
        "\<forall>va<USER_ADDRESS_MAX. load_byte va s' =
          (if page + 4096 \<le> va then place_byte img file_offset vaddr file_end mem_end va (load_byte va s1) else load_byte va s1)" by blast
    have "load_byte va s' = (if page \<le> va then place_byte img file_offset vaddr file_end mem_end va (load_byte va s) else load_byte va s)"
      if "va < USER_ADDRESS_MAX" for va
      using s'(4) s1(4) that n(5,6) [of va] by (cases "pg va = page") simp_all
    moreover have "segment_loop img file_offset vaddr file_end mem_end page s = Some (True, s')"
      using True s1(1) n(1) s'(1) by (subst segment_loop.simps) simp
    ultimately show ?thesis using s'(2,3) s1(3) by auto
  qed
qed

text \<open>How many pages a segment touches.\<close>

definition seg_pages :: "u64 \<Rightarrow> u64 \<Rightarrow> nat" where
  "seg_pages vaddr memsz = (unat vaddr mod 4096 + unat memsz + 4095) div 4096"

lemma pages_cover: "x \<le> 4096 * ((x + 4095) div 4096)" for x :: nat
proof -
  have "(x + 4095) div 4096 * 4096 + (x + 4095) mod 4096 = x + 4095" "(x + 4095) mod 4096 < 4096" by simp_all
  then show ?thesis by linarith
qed

lemma map_segment_ok:
  assumes ok: "user_ok h s" and sz: "filesz \<le> memsz" "unat vaddr + unat memsz \<le> unat USER_ADDRESS_MAX"
    and im: "unat file_offset + unat filesz \<le> length img" "length img < 2 ^ 64" and fr: "4 * seg_pages vaddr memsz \<le> card (free_frames (frames s))"
  shows "\<exists>s'. map_segment img file_offset vaddr filesz memsz s = Some (True, s') \<and> user_ok h s' \<and>
    card (free_frames (frames s)) \<le> card (free_frames (frames s')) + 4 * seg_pages vaddr memsz \<and>
    (\<forall>va<USER_ADDRESS_MAX. load_byte va s' = place_byte img file_offset vaddr (vaddr + filesz) (vaddr + memsz) va (load_byte va s))"
proof -
  have m: "unat USER_ADDRESS_MAX = 2 ^ 47" by (simp add: USER_ADDRESS_MAX_def)
  have u: "unat (vaddr + memsz) = unat vaddr + unat memsz" "unat (vaddr + filesz) = unat vaddr + unat filesz"
    using sz m by (simp_all add: unat_add_bounded word_le_nat_alt)
  have c: "cadd vaddr memsz = Some (vaddr + memsz)" "cadd vaddr filesz = Some (vaddr + filesz)" using sz m by (simp_all add: cadd_def word_le_nat_alt)
  have pv: "vaddr AND NOT (PAGE_SIZE - 1) = pg vaddr" by (simp add: pg_def PAGE_SIZE_def)
  have b: "vaddr + memsz \<le> USER_ADDRESS_MAX" "vaddr \<le> vaddr + filesz" "vaddr + filesz \<le> vaddr + memsz" "pg vaddr \<le> USER_ADDRESS_MAX"
    using sz u m unat_pg [of vaddr] by (simp_all add: word_le_nat_alt)
  have n: "unat (vaddr + memsz) \<le> unat (pg vaddr) + 4096 * seg_pages vaddr memsz"
    using pages_cover [of "unat vaddr mod 4096 + unat memsz"] div_mult_mod_eq [of "unat vaddr" 4096] unfolding u unat_pg seg_pages_def by linarith
  have im': "unat file_offset + (unat (vaddr + filesz) - unat vaddr) \<le> length img" using im(1) u by simp
  from segment_loop_ok [OF ok b(4) pg_aligned order_refl n fr b(1-3) im' im(2)] obtain s' where
    s': "segment_loop img file_offset vaddr (vaddr + filesz) (vaddr + memsz) (pg vaddr) s = Some (True, s')" "user_ok h s'"
      "card (free_frames (frames s)) \<le> card (free_frames (frames s')) + 4 * seg_pages vaddr memsz"
      "\<forall>va<USER_ADDRESS_MAX. load_byte va s' = (if pg vaddr \<le> va then place_byte img file_offset vaddr (vaddr + filesz) (vaddr + memsz) va (load_byte va s) else load_byte va s)"
    by blast
  have "place_byte img file_offset vaddr (vaddr + filesz) (vaddr + memsz) va x = x" if "\<not> pg vaddr \<le> va" for va x
    using that pg_le [of vaddr] by (auto simp: place_byte_def)
  then show ?thesis using s' c pv by (intro exI [of _ s']) (simp add: map_segment_def)
qed

section \<open>What an ELF file puts in memory\<close>

text \<open>The user's memory as the programs see it, and the segments of a file, read off its bytes.\<close>

definition user_view :: "mm \<Rightarrow> u64 \<Rightarrow> u8 option" where
  "user_view s va = (if va < USER_ADDRESS_MAX then load_byte va s else None)"

definition fld :: "u8 list \<Rightarrow> nat \<Rightarrow> nat \<Rightarrow> 'a::len word" where
  "fld img n off = from_le_bytes (take n (drop off img))"

record elf_segment =
  p_offset :: u64
  p_vaddr :: u64
  p_filesz :: u64
  p_memsz :: u64

definition segment_at :: "u8 list \<Rightarrow> nat \<Rightarrow> elf_segment" where
  "segment_at img ph = \<lparr>p_offset = fld img 8 (ph + 8), p_vaddr = fld img 8 (ph + 16), p_filesz = fld img 8 (ph + 32), p_memsz = fld img 8 (ph + 40)\<rparr>"

definition phdr :: "u8 list \<Rightarrow> nat \<Rightarrow> nat" where
  "phdr img i = unat (fld img 8 32 :: u64) + i * unat (fld img 2 54 :: u16)"

definition loadable :: "u8 list \<Rightarrow> nat \<Rightarrow> bool" where
  "loadable img i \<longleftrightarrow> (fld img 4 (phdr img i) :: u32) = PT_LOAD"

definition segments :: "u8 list \<Rightarrow> nat list \<Rightarrow> elf_segment list" where
  "segments img is = filter (\<lambda>g. p_memsz g \<noteq> 0) (map (\<lambda>i. segment_at img (phdr img i)) (filter (loadable img) is))"

definition elf_segments :: "u8 list \<Rightarrow> elf_segment list" where
  "elf_segments img = segments img [0..<unat (fld img 2 56 :: u16)]"

definition place_segment :: "u8 list \<Rightarrow> elf_segment \<Rightarrow> (u64 \<Rightarrow> u8 option) \<Rightarrow> u64 \<Rightarrow> u8 option" where
  "place_segment img g m va =
     (if va < USER_ADDRESS_MAX then place_byte img (p_offset g) (p_vaddr g) (p_vaddr g + p_filesz g) (p_vaddr g + p_memsz g) va (m va) else None)"

definition segment_fits :: "u8 list \<Rightarrow> elf_segment \<Rightarrow> bool" where
  "segment_fits img g \<longleftrightarrow> p_filesz g \<le> p_memsz g \<and> unat (p_offset g) + unat (p_filesz g) \<le> length img \<and>
     unat (p_vaddr g) + unat (p_memsz g) \<le> unat USER_ADDRESS_MAX"

text \<open>A well-formed executable: the header fields, every program header inside the file, every loadable segment inside the file and the user half.\<close>

definition phdr_ok :: "u8 list \<Rightarrow> nat \<Rightarrow> bool" where
  "phdr_ok img i \<longleftrightarrow> phdr img i + 56 \<le> length img \<and> (loadable img i \<longrightarrow> segment_fits img (segment_at img (phdr img i)))"

definition elf_ok :: "u8 list \<Rightarrow> bool" where
  "elf_ok img \<longleftrightarrow> 64 \<le> length img \<and> length img < 2 ^ 64 \<and> take 4 img = [0x7F, 0x45, 0x4C, 0x46] \<and> img ! 4 = 2 \<and> img ! 5 = 1 \<and>
     (fld img 2 16 :: u16) = ET_EXEC \<and> (fld img 2 18 :: u16) = EM_X86_64 \<and> (56 :: u16) \<le> fld img 2 54 \<and>
     (\<forall>i<unat (fld img 2 56 :: u16). phdr_ok img i)"

definition pages_of :: "elf_segment list \<Rightarrow> nat" where
  "pages_of gs = sum_list (map (\<lambda>g. seg_pages (p_vaddr g) (p_memsz g)) gs)"

lemma read_fld:
  "off + 2 \<le> length img \<Longrightarrow> read_u16 img off = Some (fld img 2 off)" "off + 4 \<le> length img \<Longrightarrow> read_u32 img off = Some (fld img 4 off)"
  "off + 8 \<le> length img \<Longrightarrow> read_u64 img off = Some (fld img 8 off)"
  by (simp_all add: read_u16_def read_u32_def read_u64_def fld_def rd_def)

lemma phdr_words:
  assumes "phdr img i + 56 \<le> length img" "length img < 2 ^ 64" "i < 65536"
  shows "\<exists>d ph e. cmul (of_nat i) (ucast (fld img 2 54 :: u16)) = Some d \<and> cadd (fld img 8 32) d = Some ph \<and> cadd ph (56 :: u64) = Some e \<and>
    unat ph = phdr img i \<and> unat e = phdr img i + 56"
proof -
  let ?z = "fld img 2 54 :: u16"
  have "unat ?z < 2 ^ LENGTH(16)" by (rule unsigned_less)
  then have z: "unat (ucast ?z :: u64) = unat ?z" "unat ?z < 65536" by (simp_all add: unsigned_ucast_eq take_bit_nat_eq_self_iff)
  have i: "unat (of_nat i :: u64) = i" using assms(3) by (simp add: unat_of_nat_bounded)
  have "i * unat ?z \<le> 65536 * 65536" using assms(3) z(2) by (intro mult_mono) simp_all
  then have d: "cmul (of_nat i) (ucast ?z :: u64) = Some (of_nat i * ucast ?z)" "unat (of_nat i * ucast ?z :: u64) = i * unat ?z"
    using z i by (simp_all add: cmul_def unat_mult_bounded)
  have ph: "cadd (fld img 8 32) (of_nat i * ucast ?z :: u64) = Some (fld img 8 32 + of_nat i * ucast ?z)"
    "unat (fld img 8 32 + of_nat i * ucast ?z :: u64) = phdr img i"
    using assms(1,2) d(2) by (simp_all add: cadd_def unat_add_bounded phdr_def)
  then have "cadd (fld img 8 32 + of_nat i * ucast ?z) (56 :: u64) = Some (fld img 8 32 + of_nat i * ucast ?z + 56)"
    "unat (fld img 8 32 + of_nat i * ucast ?z + 56 :: u64) = phdr img i + 56"
    using assms(1,2) by (simp_all add: cadd_def unat_add_bounded)
  then show ?thesis using d ph by blast
qed

lemma load_segments_ok:
  assumes "user_ok h s" "length img < 2 ^ 64" "\<forall>i\<in>set is. i < 65536 \<and> phdr_ok img i" "4 * pages_of (segments img is) \<le> card (free_frames (frames s))"
  shows "\<exists>s'. load_segments img (fld img 8 32) (ucast (fld img 2 54 :: u16)) is s = Some (True, s') \<and> user_ok h s' \<and>
    card (free_frames (frames s)) \<le> card (free_frames (frames s')) + 4 * pages_of (segments img is) \<and>
    (\<forall>va<USER_ADDRESS_MAX. load_byte va s' = fold (place_segment img) (segments img is) (user_view s) va)"
  using assms
proof (induction "is" arbitrary: s)
  case Nil
  then show ?case by (simp add: segments_def user_view_def pages_of_def)
next
  case (Cons i "is" s)
  have i: "i < 65536" "phdr_ok img i" and rest: "\<forall>i\<in>set is. i < 65536 \<and> phdr_ok img i" using Cons.prems(3) by simp_all
  have len: "phdr img i + 56 \<le> length img" using i(2) by (simp add: phdr_ok_def)
  obtain d ph e where w: "cmul (of_nat i) (ucast (fld img 2 54 :: u16)) = Some d" "cadd (fld img 8 32) d = Some ph" "cadd ph (56 :: u64) = Some e"
    "unat ph = phdr img i" "unat e = phdr img i + 56" using phdr_words [OF len Cons.prems(2) i(1)] by blast
  let ?g = "segment_at img (phdr img i)"
  have rd: "read_u32 img (phdr img i) = Some (fld img 4 (phdr img i))" "read_u64 img (phdr img i + 8) = Some (p_offset ?g)"
    "read_u64 img (phdr img i + 16) = Some (p_vaddr ?g)" "read_u64 img (phdr img i + 32) = Some (p_filesz ?g)" "read_u64 img (phdr img i + 40) = Some (p_memsz ?g)"
    using len by (simp_all add: read_fld segment_at_def)
  show ?case
  proof (cases "loadable img i")
    case False
    then have "segments img (i # is) = segments img is" by (simp add: segments_def)
    then show ?thesis using False w rd len Cons.IH [OF Cons.prems(1,2) rest] Cons.prems(4) by (simp add: loadable_def)
  next
    case True
    then have fit: "p_filesz ?g \<le> p_memsz ?g" "unat (p_offset ?g) + unat (p_filesz ?g) \<le> length img" "unat (p_vaddr ?g) + unat (p_memsz ?g) \<le> unat USER_ADDRESS_MAX"
      using i(2) by (simp_all add: phdr_ok_def segment_fits_def)
    then have fe: "cadd (p_offset ?g) (p_filesz ?g) = Some (p_offset ?g + p_filesz ?g)" "unat (p_offset ?g + p_filesz ?g) \<le> length img"
      using Cons.prems(2) by (simp_all add: cadd_def unat_add_bounded)
    show ?thesis
    proof (cases "p_memsz ?g = 0")
      case z: True
      then have "segments img (i # is) = segments img is" by (simp add: segments_def)
      then show ?thesis using True w rd len fe fit z Cons.IH [OF Cons.prems(1,2) rest] Cons.prems(4) by (simp add: loadable_def)
    next
      case nz: False
      then have seg: "segments img (i # is) = ?g # segments img is" using True by (simp add: segments_def)
      then have fr: "4 * seg_pages (p_vaddr ?g) (p_memsz ?g) + 4 * pages_of (segments img is) \<le> card (free_frames (frames s))"
        using Cons.prems(4) by (simp add: pages_of_def)
      then have "4 * seg_pages (p_vaddr ?g) (p_memsz ?g) \<le> card (free_frames (frames s))" by simp
      from map_segment_ok [OF Cons.prems(1) fit(1,3,2) Cons.prems(2) this] obtain s1 where
        s1: "map_segment img (p_offset ?g) (p_vaddr ?g) (p_filesz ?g) (p_memsz ?g) s = Some (True, s1)" "user_ok h s1"
          "card (free_frames (frames s)) \<le> card (free_frames (frames s1)) + 4 * seg_pages (p_vaddr ?g) (p_memsz ?g)"
          "\<forall>va<USER_ADDRESS_MAX. load_byte va s1 =
            place_byte img (p_offset ?g) (p_vaddr ?g) (p_vaddr ?g + p_filesz ?g) (p_vaddr ?g + p_memsz ?g) va (load_byte va s)" by blast
      have "user_view s1 = place_segment img ?g (user_view s)" using s1(4) by (simp add: fun_eq_iff user_view_def place_segment_def)
      moreover have "4 * pages_of (segments img is) \<le> card (free_frames (frames s1))" using fr s1(3) by linarith
      ultimately obtain s' where "load_segments img (fld img 8 32) (ucast (fld img 2 54 :: u16)) is s1 = Some (True, s')" "user_ok h s'"
        "card (free_frames (frames s1)) \<le> card (free_frames (frames s')) + 4 * pages_of (segments img is)"
        "\<forall>va<USER_ADDRESS_MAX. load_byte va s' = fold (place_segment img) (segments img is) (place_segment img ?g (user_view s)) va"
        using Cons.IH [OF s1(2) Cons.prems(2) rest] by auto
      then show ?thesis using True w rd len fe fit nz s1(1,3) seg by (intro exI [of _ s']) (simp add: loadable_def pages_of_def)
    qed
  qed
qed

lemma load_elf_ok:
  assumes "user_ok h s" "elf_ok img" "4 * pages_of (elf_segments img) \<le> card (free_frames (frames s))"
  shows "\<exists>s'. load_elf img s = Some (Some (fld img 8 24), s') \<and> user_ok h s' \<and>
    card (free_frames (frames s)) \<le> card (free_frames (frames s')) + 4 * pages_of (elf_segments img) \<and>
    user_view s' = fold (place_segment img) (elf_segments img) (user_view s)"
proof -
  have e: "64 \<le> length img" "length img < 2 ^ 64" "take 4 img = [0x7F, 0x45, 0x4C, 0x46]" "img ! 4 = 2" "img ! 5 = 1"
    "(fld img 2 16 :: u16) = ET_EXEC" "(fld img 2 18 :: u16) = EM_X86_64" "(56 :: u16) \<le> fld img 2 54" using assms(2) by (simp_all add: elf_ok_def)
  have "unat (fld img 2 56 :: u16) < 2 ^ LENGTH(16)" by (rule unsigned_less)
  then have "\<forall>i\<in>set [0..<unat (fld img 2 56 :: u16)]. i < 65536 \<and> phdr_ok img i" using assms(2) by (simp add: elf_ok_def)
  from load_segments_ok [OF assms(1) e(2) this assms(3) [unfolded elf_segments_def], folded elf_segments_def] obtain s' where
    s': "load_segments img (fld img 8 32) (ucast (fld img 2 54 :: u16)) [0..<unat (fld img 2 56 :: u16)] s = Some (True, s')" "user_ok h s'"
      "card (free_frames (frames s)) \<le> card (free_frames (frames s')) + 4 * pages_of (elf_segments img)"
      "\<forall>va<USER_ADDRESS_MAX. load_byte va s' = fold (place_segment img) (elf_segments img) (user_view s) va" by blast
  have out: "fold (place_segment img) gs m va = None" if "m va = None" "\<not> va < USER_ADDRESS_MAX" for gs m va
    using that by (induction gs arbitrary: m) (simp_all add: place_segment_def)
  have "user_view s' = fold (place_segment img) (elf_segments img) (user_view s)"
    using s'(4) out [of "user_view s"] by (auto simp: fun_eq_iff user_view_def)
  then show ?thesis using s'(1-3) e by (auto simp: load_elf_def read_fld)
qed

section \<open>The header scan and the stack\<close>

text \<open>The scan decides by the first place the magic occurs.\<close>

definition magic_at :: "u8 list \<Rightarrow> u8 list \<Rightarrow> nat \<Rightarrow> bool" where
  "magic_at img magic i \<longleftrightarrow> i + 16 \<le> length img \<and> take 12 (drop i img) = magic"

lemma scan_header_first:
  assumes "length magic = 12" "\<forall>i\<in>set is. i + 16 \<le> length img"
  shows "scan_header img magic version is =
    (case List.find (magic_at img magic) is of None \<Rightarrow> Some False | Some i \<Rightarrow> Some (fld img 4 (i + 12) = version))"
  using assms by (induction "is") (auto simp: magic_at_def rd_def read_fld)

lemma find_header_first:
  assumes "length magic = 12"
  shows "\<exists>b. find_header img magic version = Some b \<and>
    (b \<longleftrightarrow> (\<exists>i. magic_at img magic i \<and> (\<forall>j<i. \<not> magic_at img magic j) \<and> fld img 4 (i + 12) = version))"
proof (cases "length img < 16")
  case True
  then show ?thesis by (auto simp: find_header_def magic_at_def)
next
  case False
  let ?is = "[0..<length img + 1 - 16]"
  have "\<forall>i\<in>set ?is. i + 16 \<le> length img" using False by auto
  then have "find_header img magic version = (case List.find (magic_at img magic) ?is of None \<Rightarrow> Some False | Some i \<Rightarrow> Some (fld img 4 (i + 12) = version))"
    using False scan_header_first [OF assms, of ?is img version] by (simp add: find_header_def)
  moreover have "(case List.find (magic_at img magic) ?is of None \<Rightarrow> \<forall>i. \<not> magic_at img magic i
      | Some i \<Rightarrow> magic_at img magic i \<and> (\<forall>j<i. \<not> magic_at img magic j))"
  proof (cases "List.find (magic_at img magic) ?is")
    case None
    then have "\<not> magic_at img magic i" if "i < length img + 1 - 16" for i using that by (auto simp: find_None_iff)
    then show ?thesis using None by (auto simp: magic_at_def)
  next
    case (Some i)
    then obtain k where "k < length ?is" "magic_at img magic (?is ! k)" "i = ?is ! k" "\<forall>j<k. \<not> magic_at img magic (?is ! j)"
      by (auto simp: find_Some_iff)
    then show ?thesis using Some by auto
  qed
  ultimately show ?thesis by (auto split: option.splits) (metis linorder_neqE_nat)+
qed

text \<open>Nothing checks where a segment goes: a page mapped anywhere, also in the kernel's half, is overwritten with the file's bytes.\<close>

lemma segment_page_unchecked:
  assumes "vmm_virt_to_phys vaddr s = Some f" "f \<noteq> VMM_NO_PHYS" "phys_to_virt s f = Some dst" "cadd vaddr PAGE_SIZE = Some e" "vaddr < file_end" "file_end \<le> e"
    and "unat file_offset + unat (file_end - vaddr) \<le> length img"
  shows "segment_page img file_offset vaddr file_end vaddr s =
    Some (True, s\<lparr>mem := copy_bytes dst (take (unat (file_end - vaddr)) (drop (unat file_offset) img)) (mem s)\<rparr>)"
proof -
  have "min e file_end = file_end" using assms(6) by (simp add: min_def)
  moreover have "cadd file_offset 0 = Some file_offset" using unat_u64 [of file_offset] by (simp add: cadd_def)
  ultimately show ?thesis using assms by (simp add: segment_page_def copy_part_def rd_def)
qed

lemma map_user_stack_ok:
  assumes ok: "user_ok h s" and tp: "tp AND 0xFFF = 0" "USER_STACK_SPAN \<le> tp" "tp \<le> USER_ADDRESS_MAX" and fr: "64 \<le> card (free_frames (frames s))"
  shows "\<exists>s'. map_user_stack (tp, s) = Some (tp, tp - USER_STACK_SPAN, s') \<and> zero_run h (tp - 16 * 4096) 16 s s'"
proof -
  let ?base = "tp - 16 * 4096"
  let ?f = "\<lambda>i s. do {
            page \<leftarrow> csub tp ((USER_STACK_PAGES - of_nat i) * PAGE_SIZE);
            (frame, s) \<leftarrow> map_zeroed_page page s;
            if frame = PMM_NO_PAGE then None else Some s
          }"
  have ut: "65536 \<le> unat tp" "unat tp \<le> unat USER_ADDRESS_MAX"
    using tp(2,3) by (simp_all add: word_le_nat_alt USER_STACK_SPAN_def USER_STACK_PAGES_def PAGE_SIZE_def)
  then have ub: "unat ?base = unat tp - 65536" by (simp add: unat_sub word_le_nat_alt)
  have ba: "?base AND 0xFFF = 0" using tp(1) ut(1) unfolding aligned_dvd ub by auto
  have "\<exists>s'. for_each [0..<16] ?f s = Some s' \<and> zero_run h ?base 16 s s'"
  proof (rule for_each_upt)
    fix i t assume i: "i < (16 :: nat)" and r: "zero_run h ?base i s t"
    have "unat ?base + 4096 * Suc i \<le> unat USER_ADDRESS_MAX" "4 * Suc i \<le> card (free_frames (frames s))" using i ub ut fr by simp_all
    from zero_run_step [OF r ba this] obtain f t' where z: "map_zeroed_page (?base + of_nat i * 4096) t = Some (f, t')" "f \<noteq> PMM_NO_PAGE" "zero_run h ?base (Suc i) s t'"
      by blast
    have "(USER_STACK_PAGES - of_nat i) * PAGE_SIZE \<le> tp"
    proof -
      have "unat ((16 - of_nat i) * 4096 :: u64) = (16 - i) * 4096" using i by (subst unat_mult_bounded) (simp_all add: unat_sub unat_of_nat_bounded word_le_nat_alt)
      then show ?thesis using i ut(1) by (simp add: word_le_nat_alt USER_STACK_PAGES_def PAGE_SIZE_def)
    qed
    then have "csub tp ((USER_STACK_PAGES - of_nat i) * PAGE_SIZE) = Some (?base + of_nat i * 4096)"
      by (simp add: csub_def USER_STACK_PAGES_def PAGE_SIZE_def algebra_simps)
    then show "\<exists>t'. ?f i t = Some t' \<and> zero_run h ?base (Suc i) s t'" using z by auto
  qed (use ok in \<open>simp_all add: zero_run_0\<close>)
  moreover have "csub tp USER_STACK_SPAN = Some (tp - USER_STACK_SPAN)" using tp(2) by (simp add: csub_def)
  ultimately show ?thesis by (auto simp: map_user_stack_def USER_STACK_PAGES_def)
qed

section \<open>A small program\<close>

text \<open>One segment of two file bytes and three bytes of memory at \<open>0x400000\<close>.\<close>

definition sample_elf :: "u8 list" where
  "sample_elf = [0x7F, 0x45, 0x4C, 0x46, 2, 1, 1, 0, 0, 0, 0, 0, 0, 0, 0, 0, 2, 0, 0x3E, 0, 1, 0, 0, 0,
     0, 0, 0x40, 0, 0, 0, 0, 0, 64, 0, 0, 0, 0, 0, 0, 0, 0, 0, 0, 0, 0, 0, 0, 0, 0, 0, 0, 0, 64, 0, 56, 0, 1, 0, 0, 0, 0, 0, 0, 0,
     1, 0, 0, 0, 5, 0, 0, 0, 120, 0, 0, 0, 0, 0, 0, 0, 0, 0, 0x40, 0, 0, 0, 0, 0, 0, 0, 0x40, 0, 0, 0, 0, 0,
     2, 0, 0, 0, 0, 0, 0, 0, 3, 0, 0, 0, 0, 0, 0, 0, 0, 0x10, 0, 0, 0, 0, 0, 0, 0xAB, 0xCD]"

lemma sample_elf_segments: "elf_segments sample_elf = [\<lparr>p_offset = 120, p_vaddr = 0x400000, p_filesz = 2, p_memsz = 3\<rparr>]"
  by code_simp

lemma sample_elf_ok: "elf_ok sample_elf"
proof -
  have p: "unat (fld sample_elf 2 56 :: u16) = 1" "phdr sample_elf 0 = 64" "length sample_elf = 122" by code_simp+
  have g: "segment_at sample_elf 64 = \<lparr>p_offset = 120, p_vaddr = 0x400000, p_filesz = 2, p_memsz = 3\<rparr>" by code_simp
  have h: "take 4 sample_elf = [0x7F, 0x45, 0x4C, 0x46]" "sample_elf ! 4 = 2" "sample_elf ! 5 = 1" by (simp_all add: sample_elf_def)
  have f: "(fld sample_elf 2 16 :: u16) = ET_EXEC" "(fld sample_elf 2 18 :: u16) = EM_X86_64" "(56 :: u16) \<le> fld sample_elf 2 54" by code_simp+
  have "phdr_ok sample_elf 0" by (simp add: phdr_ok_def segment_fits_def p g USER_ADDRESS_MAX_def)
  then show ?thesis using p h f by (simp add: elf_ok_def)
qed

section \<open>Properties\<close>



text \<open>
  A user stack is fresh, zeroed and apart from the next one.  \<^verbatim>\<open>map_user_stack\<close> hands out the current top: the sixteen pages below it read as zero afterwards, no other
  user address reads differently, and the next top lies two pages below this stack's lowest page.
\<close>

lemma map_user_stack_fresh:
  assumes "user_ok h s" "tp AND 0xFFF = 0" "USER_STACK_SPAN \<le> tp" "tp \<le> USER_ADDRESS_MAX" "64 \<le> card (free_frames (frames s))"
  shows "\<exists>next s'. map_user_stack (tp, s) = Some (tp, next, s') \<and> user_ok h s' \<and> unat next + 18 * 4096 = unat tp \<and>
    (\<forall>va<USER_ADDRESS_MAX. load_byte va s' = (if unat next + 2 * 4096 \<le> unat va \<and> va < tp then Some 0 else load_byte va s))"
proof -
  obtain s' where s': "map_user_stack (tp, s) = Some (tp, tp - USER_STACK_SPAN, s')" "zero_run h (tp - 16 * 4096) 16 s s'"
    using map_user_stack_ok [OF assms] by blast
  have t: "73728 \<le> unat tp" using assms(3) by (simp add: word_le_nat_alt USER_STACK_SPAN_def USER_STACK_PAGES_def PAGE_SIZE_def)
  then have u: "unat (tp - USER_STACK_SPAN) = unat tp - 73728" "unat (tp - 16 * 4096) = unat tp - 65536"
    by (simp_all add: unat_sub word_le_nat_alt USER_STACK_SPAN_def USER_STACK_PAGES_def PAGE_SIZE_def)
  have "unat (tp - 16 * 4096) \<le> unat va \<and> unat va < unat (tp - 16 * 4096) + 4096 * 16 \<longleftrightarrow> unat (tp - USER_STACK_SPAN) + 2 * 4096 \<le> unat va \<and> va < tp" for va
    using t unfolding u word_less_nat_alt by auto
  then show ?thesis using s' t u(1) by (intro exI [of _ "tp - USER_STACK_SPAN"] exI [of _ s']) (simp add: zero_run_def)
qed

end
