(* ===== verification/User.thy ===== *)
theory User
  imports Elf Scheduler Fs Keyboard Klog Apic
begin

text \<open>
  Starting programs (\<^verbatim>\<open>src/user.rs\<close>): reading the file, checking its header, loading it and registering a task.  The statics of the components these
  calls touch are one record.  Messages to the log are left out.
\<close>

section \<open>The state of the kernel\<close>

record 'h kernel =
  k_mm :: mm
  k_heap :: heap
  k_sched :: sched
  k_fs :: "'h fs_state"
  k_kbd :: keyboard
  k_con :: console
  k_apic :: apic
  NEXT_STACK :: u64
  MMAP_NEXT :: u64
  FB_MAPPED :: bool

definition MAX_INIT_SIZE :: u64 where "MAX_INIT_SIZE = 4 * 1024 * 1024"

section \<open>Operations\<close>

text \<open>
  The loop of \<^verbatim>\<open>read_file\<close>: \<open>got\<close> bytes of \<open>buf\<close> are there.  It yields how far it got, or nothing after an error.
\<close>

function read_image_loop :: "u32 \<Rightarrow> nat \<Rightarrow> nat \<Rightarrow> u8 list \<Rightarrow> 'h fs_state \<Rightarrow> ((nat \<times> u8 list) option \<times> 'h fs_state) option" where
  "read_image_loop ino sz got buf fs =
     (if got < sz then do {
        (r, fs) \<leftarrow> fs_read_file ino (of_nat got) (drop got buf) fs;
        (case r of
           Some (Inr (n, part)) \<Rightarrow>
             if n = 0 then Some (Some (got, buf), fs)
             else read_image_loop ino sz (got + n) (take got buf @ part) fs
         | Some (Inl e) \<Rightarrow> Some (None, fs)
         | None \<Rightarrow> Some (None, fs))
      } else Some (Some (got, buf), fs))"
  by pat_completeness auto
termination by (relation "measure (\<lambda>(ino, sz, got, buf, fs). sz - got)") auto

declare read_image_loop.simps [simp del]

text \<open>
  The file of an inode, in a buffer of its own.  The buffer is written over completely before anything reads it; its first contents are given as zeros.
\<close>

definition read_into_buffer :: "u32 \<Rightarrow> Inode \<Rightarrow> 'h kernel \<Rightarrow> ((u64 \<times> u8 list) option \<times> 'h kernel) option" where
  "read_into_buffer ino inode k =
     (if \<not> is_file inode then Some (None, k)
      else if i_size inode = 0 \<or> i_size inode > MAX_INIT_SIZE then Some (None, k)
      else do {
        let sz = unat (i_size inode);
        (buffer, h) \<leftarrow> kmalloc (i_size inode) (k_heap k);
        let k = k\<lparr>k_heap := h\<rparr>;
        if buffer = 0 then Some (None, k)
        else do {
          (r, f) \<leftarrow> read_image_loop ino sz 0 (replicate sz 0) (k_fs k);
          let k = k\<lparr>k_fs := f\<rparr>;
          case r of
            Some (got, buf) \<Rightarrow>
              if got \<noteq> sz then do { h \<leftarrow> kfree buffer (k_heap k); Some (None, k\<lparr>k_heap := h\<rparr>) }
              else Some (Some (buffer, buf), k)
          | None \<Rightarrow> do { h \<leftarrow> kfree buffer (k_heap k); Some (None, k\<lparr>k_heap := h\<rparr>) }
        }
      })"

definition user_read_file :: "u8 list \<Rightarrow> 'h kernel \<Rightarrow> ((u64 \<times> u8 list) option \<times> 'h kernel) option" where
  "user_read_file path k = (case fs_root (k_fs k) of
      None \<Rightarrow> Some (None, k)
    | Some root \<Rightarrow> do {
        (r, f) \<leftarrow> fs_lookup root path (k_fs k);
        let k = k\<lparr>k_fs := f\<rparr>;
        case r of
          Some (Inr (Some ino)) \<Rightarrow> do {
            (r, f) \<leftarrow> fs_read_inode ino (k_fs k);
            let k = k\<lparr>k_fs := f\<rparr>;
            case r of
              Some (Inr inode) \<Rightarrow> read_into_buffer ino inode k
            | _ \<Rightarrow> Some (None, k)
          }
        | _ \<Rightarrow> Some (None, k)
      })"

text \<open>What \<^verbatim>\<open>load_and_spawn\<close> does with the file it read: check the header, load, free the buffer, map a stack, register the task.\<close>

definition start_image :: "u64 \<Rightarrow> u8 list \<Rightarrow> u8 list \<Rightarrow> u32 \<Rightarrow> 'h kernel \<Rightarrow> (nat option \<times> 'h kernel) option" where
  "start_image buffer img magic version k = do {
     header \<leftarrow> find_header img magic version;
     if \<not> header then do { h \<leftarrow> kfree buffer (k_heap k); Some (None, k\<lparr>k_heap := h\<rparr>) }
     else do {
       (entry, m) \<leftarrow> load_elf img (k_mm k);
       h \<leftarrow> kfree buffer (k_heap k);
       let k = k\<lparr>k_mm := m, k_heap := h\<rparr>;
       case entry of
         None \<Rightarrow> Some (None, k)
       | Some entry \<Rightarrow> do {
           (stack_top, n, m) \<leftarrow> map_user_stack (NEXT_STACK k, k_mm k);
           let k = k\<lparr>NEXT_STACK := n, k_mm := m\<rparr>;
           (pid, h, sc) \<leftarrow> spawn_user entry stack_top (k_heap k, k_sched k);
           Some (pid, k\<lparr>k_heap := h, k_sched := sc\<rparr>)
         }
     }
   }"

definition load_and_spawn :: "u8 list \<Rightarrow> u8 list \<Rightarrow> u32 \<Rightarrow> 'h kernel \<Rightarrow> (nat option \<times> 'h kernel) option" where
  "load_and_spawn path magic version k =
     (if \<not> is_mounted (k_fs k) then Some (None, k)
      else do {
        (found, k) \<leftarrow> user_read_file path k;
        case found of
          None \<Rightarrow> Some (None, k)
        | Some (buffer, img) \<Rightarrow> start_image buffer img magic version k
      })"

definition try_start :: "'h kernel \<Rightarrow> (bool \<times> 'h kernel) option" where
  "try_start k =
     (if \<not> is_mounted (k_fs k) then Some (False, k)
      else do {
        (pid, k) \<leftarrow> load_and_spawn (ascii ''init'') PINX_INIT_MAGIC PINX_INIT_VERSION k;
        Some (pid \<noteq> None, k)
      })"

definition spawn_program :: "u8 list \<Rightarrow> 'h kernel \<Rightarrow> (nat option \<times> 'h kernel) option" where
  "spawn_program path = load_and_spawn path PINX_PROGRAM_MAGIC PINX_PROGRAM_VERSION"

section \<open>What reading a file leaves behind\<close>

lemma heap_region_fits:
  assumes "heap_ok h" "(p, m) \<in> heap_regions h"
  shows "unat p + m < 2 ^ 64"
proof -
  obtain xs where xs: "heap_inv h xs" using assms(1) by (auto simp: heap_ok_def)
  then obtain off where o: "(off, m) \<in> live 0 xs" "p = heap_head h + of_nat off" using assms(2) by (auto simp: heap_regions_inv)
  show ?thesis using live_address [OF xs o(1)] by (simp add: o(2))
qed

text \<open>A fresh buffer that is freed again, and one that is kept.\<close>

lemma kfree_fresh:
  assumes "heap_ok h" "heap_ok h1" "heap_regions h1 = insert (p, m) (heap_regions h)" "(p, m) \<notin> heap_regions h"
  shows "\<exists>h2. kfree p h1 = Some h2 \<and> heap_ok h2 \<and> heap_regions h2 = heap_regions h"
  using kh.release_total [OF assms(2), of p m] assms(3,4) by auto

definition file_read :: "(u64 \<times> u8 list) option \<Rightarrow> 'h kernel \<Rightarrow> 'h kernel \<Rightarrow> bool" where
  "file_read r k k' \<longleftrightarrow> k' = k\<lparr>k_fs := k_fs k', k_heap := k_heap k'\<rparr> \<and> heap_ok (k_heap k') \<and>
     (case r of
        None \<Rightarrow> heap_regions (k_heap k') = heap_regions (k_heap k)
      | Some (buffer, img) \<Rightarrow> \<exists>m. heap_regions (k_heap k') = insert (buffer, m) (heap_regions (k_heap k)) \<and> (buffer, m) \<notin> heap_regions (k_heap k))"

lemma read_into_buffer_effect:
  assumes ok: "heap_ok (k_heap k)" and r: "read_into_buffer ino inode k = Some (r, k')"
  shows "file_read r k k'"
proof (cases "\<not> is_file inode \<or> i_size inode = 0 \<or> i_size inode > MAX_INIT_SIZE")
  case True
  then show ?thesis using r ok by (auto simp: read_into_buffer_def file_read_def split: if_splits)
next
  case False
  from kh.alloc_total [OF ok, of "i_size inode"] obtain p h1 where
    "kmalloc (i_size inode) (k_heap k) = Some (p, h1) \<and> heap_ok h1 \<and>
      (p = 0 \<and> heap_regions h1 = heap_regions (k_heap k) \<or>
       p \<noteq> 0 \<and> (\<exists>m\<ge>unat (i_size inode). heap_regions h1 = insert (p, m) (heap_regions (k_heap k))) \<and> (\<forall>m. (p, m) \<notin> heap_regions (k_heap k)))"
    by (elim exE) (rule that)
  then have h1: "kmalloc (i_size inode) (k_heap k) = Some (p, h1)" "heap_ok h1" "p = 0 \<Longrightarrow> heap_regions h1 = heap_regions (k_heap k)"
    "p \<noteq> 0 \<Longrightarrow> \<exists>m. heap_regions h1 = insert (p, m) (heap_regions (k_heap k)) \<and> (p, m) \<notin> heap_regions (k_heap k)" by blast+
  show ?thesis
  proof (cases "p = 0")
    case True
    then have "r = None \<and> k' = k\<lparr>k_heap := h1\<rparr>" using r h1(1) False by (simp add: read_into_buffer_def)
    then show ?thesis using h1(2,3) True by (simp add: file_read_def)
  next
    case nz: False
    then obtain m where m: "heap_regions h1 = insert (p, m) (heap_regions (k_heap k))" "(p, m) \<notin> heap_regions (k_heap k)" using h1(4) by blast
    obtain h2 where h2: "kfree p h1 = Some h2" "heap_ok h2" "heap_regions h2 = heap_regions (k_heap k)" using kfree_fresh [OF ok h1(2) m] by blast
    obtain q f where q: "read_image_loop ino (unat (i_size inode)) 0 (replicate (unat (i_size inode)) 0) (k_fs k) = Some (q, f)"
      using r False h1(1) nz by (auto simp: read_into_buffer_def Let_def)
    show ?thesis
    proof (cases "\<exists>b. q = Some (unat (i_size inode), b)")
      case True
      then obtain b where "q = Some (unat (i_size inode), b)" by blast
      then have "r = Some (p, b) \<and> k' = k\<lparr>k_heap := h1, k_fs := f\<rparr>" using r False h1(1) nz q by (simp add: read_into_buffer_def)
      then show ?thesis using h1(2) m by (auto simp: file_read_def intro!: exI [of _ m])
    next
      case no: False
      then have "r = None \<and> k' = k\<lparr>k_heap := h2, k_fs := f\<rparr>" using r False h1(1) nz q h2(1)
        by (cases q) (auto simp: read_into_buffer_def)
      then show ?thesis using h2(2,3) by (simp add: file_read_def)
    qed
  qed
qed

lemma file_read_fs: "file_read r (k\<lparr>k_fs := f\<rparr>) k' \<Longrightarrow> file_read r k k'"
  by (auto simp: file_read_def split: option.splits)

lemma user_read_file_effect:
  assumes ok: "heap_ok (k_heap k)" and r: "user_read_file path k = Some (r, k')"
  shows "file_read r k k'"
proof (cases "fs_root (k_fs k)")
  case None
  then show ?thesis using r ok by (auto simp: user_read_file_def file_read_def)
next
  case (Some root)
  obtain l f where l: "fs_lookup root path (k_fs k) = Some (l, f)" using r Some by (auto simp: user_read_file_def)
  have none: "file_read None k (k\<lparr>k_fs := g\<rparr>)" for g using ok by (simp add: file_read_def)
  show ?thesis
  proof (cases "\<exists>ino. l = Some (Inr (Some ino))")
    case True
    then obtain ino where ino: "l = Some (Inr (Some ino))" by blast
    obtain n g where n: "fs_read_inode ino f = Some (n, g)" using r Some l ino by (auto simp: user_read_file_def)
    show ?thesis
    proof (cases "\<exists>inode. n = Some (Inr inode)")
      case True
      then obtain inode where "n = Some (Inr inode)" by blast
      then have "read_into_buffer ino inode (k\<lparr>k_fs := g\<rparr>) = Some (r, k')" using r Some l ino n by (simp add: user_read_file_def)
      then have "file_read r (k\<lparr>k_fs := g\<rparr>) k'" by (rule read_into_buffer_effect [rotated]) (simp add: ok)
      then show ?thesis by (rule file_read_fs)
    next
      case False
      then have "r = None \<and> k' = k\<lparr>k_fs := g\<rparr>" using r Some l ino n by (auto simp: user_read_file_def Let_def split: option.splits sum.splits)
      then show ?thesis using none by simp
    qed
  next
    case False
    then have "r = None \<and> k' = k\<lparr>k_fs := f\<rparr>" using r Some l by (auto simp: user_read_file_def Let_def split: option.splits sum.splits)
    then show ?thesis using none by simp
  qed
qed

section \<open>What spawning leaves behind\<close>

lemma store_words_nth: "i < length ws \<Longrightarrow> 8 * length ws < 2 ^ 64 \<Longrightarrow> store_words a ws m (a + 8 * of_nat i) = ws ! i"
proof (induction ws arbitrary: a m i)
  case (Cons w ws)
  have other: "store_words b vs n c = n c" if "\<forall>j<length vs. c \<noteq> b + 8 * of_nat j" for b vs n and c :: u64
    using that
  proof (induction vs arbitrary: b n)
    case (Cons v vs)
    have "c \<noteq> b" using Cons.prems [rule_format, of 0] by simp
    moreover have "\<forall>j<length vs. c \<noteq> b + 8 + 8 * of_nat j" using Cons.prems [rule_format, of "Suc j" for j] by (auto simp: algebra_simps)
    ultimately show ?case using Cons.IH [of "b + 8"] by simp
  qed simp
  show ?case
  proof (cases i)
    case 0
    have "a \<noteq> a + 8 + 8 * of_nat j" if "j < length ws" for j
    proof
      assume "a = a + 8 + 8 * of_nat j"
      then have "(8 * of_nat (Suc j) :: u64) = 0" by (simp add: algebra_simps)
      moreover have "unat (8 * of_nat (Suc j) :: u64) = 8 * Suc j" using that Cons.prems(2) by (subst unat_mult_bounded) (simp_all add: unat_of_nat_bounded del: of_nat_Suc)
      ultimately show False by simp
    qed
    then show ?thesis using 0 other [of ws a "a + 8"] by simp
  next
    case (Suc k)
    have e: "a + 8 * of_nat i = a + 8 + 8 * of_nat k" by (simp add: Suc algebra_simps)
    have "store_words (a + 8) ws (m(a := w)) (a + 8 + 8 * of_nat k) = ws ! k" by (rule Cons.IH) (use Cons.prems Suc in simp_all)
    then show ?thesis unfolding e by (simp only: store_words.simps Suc nth_Cons_Suc)
  qed
qed simp

text \<open>A task ready to enter user mode: its saved frame holds the entry point and the stack pointer with the user's segments.\<close>

definition enters_at :: "u64 \<Rightarrow> u64 \<Rightarrow> nat \<Rightarrow> sched \<Rightarrow> bool" where
  "enters_at entry stk i s \<longleftrightarrow> state (TASKS s i) = Ready \<and> kind (TASKS s i) = TaskKind.User \<and>
     (let f = frame (TASKS s i); w = (\<lambda>n. stacks s (f + 8 * of_nat n))
      in w 17 = entry \<and> w 18 = ucast USER_CODE_SELECTOR \<and> w 20 = stk \<and> w 21 = ucast USER_DATA_SELECTOR)"

lemma build_user_frame_words:
  assumes "build_user_frame stk_top entry stk m = Some (f, m')"
  shows "m' (f + 8 * of_nat 17) = entry" "m' (f + 8 * of_nat 18) = ucast USER_CODE_SELECTOR" "m' (f + 8 * of_nat 20) = stk" "m' (f + 8 * of_nat 21) = ucast USER_DATA_SELECTOR"
proof -
  let ?ws = "replicate 15 0 @ [SYSCALL_VECTOR, 0, entry, ucast USER_CODE_SELECTOR, 0x202, stk, ucast USER_DATA_SELECTOR]"
  have m': "m' = store_words f ?ws m" using assms by (auto simp: build_user_frame_def)
  have n: "?ws ! 17 = entry" "?ws ! 18 = ucast USER_CODE_SELECTOR" "?ws ! 20 = stk" "?ws ! 21 = ucast USER_DATA_SELECTOR" by (simp_all add: nth_append)
  have "store_words f ?ws m (f + 8 * of_nat i) = ?ws ! i" if "i < 22" for i by (rule store_words_nth) (use that in simp_all)
  from this [of 17] this [of 18] this [of 20] this [of 21] show "m' (f + 8 * of_nat 17) = entry" "m' (f + 8 * of_nat 18) = ucast USER_CODE_SELECTOR"
    "m' (f + 8 * of_nat 20) = stk" "m' (f + 8 * of_nat 21) = ucast USER_DATA_SELECTOR"
    unfolding m' n by simp_all
qed

text \<open>What a spawn with result \<open>pid\<close> did to the tasks.\<close>

definition spawned :: "u64 \<Rightarrow> u64 \<Rightarrow> nat option \<Rightarrow> sched \<Rightarrow> sched \<Rightarrow> bool" where
  "spawned entry stk pid s s' \<longleftrightarrow> (case pid of
      None \<Rightarrow> s' = s
    | Some i \<Rightarrow> i < MAX_TASKS \<and> state (TASKS s i) = Unused \<and> enters_at entry stk i s' \<and> (\<forall>j. j \<noteq> i \<longrightarrow> TASKS s' j = TASKS s j))"

lemma spawn_slot_spawned:
  assumes "spawn_slot stk_top entry stk s = Some (pid, s')"
  shows "spawned entry stk pid s s'"
proof (cases "find_unused [0..<MAX_TASKS] s")
  case None
  then show ?thesis using assms by (simp add: spawn_slot_def spawned_def)
next
  case (Some i)
  then obtain f m where b: "build_user_frame stk_top entry stk (stacks s) = Some (f, m)" and r: "pid = Some i"
    "s' = s\<lparr>stacks := m, TASKS := (TASKS s)(i := \<lparr>state = Ready, kind = TaskKind.User, cpu = 0, frame = f, kstack = stk_top, wake_tick = 0, wait_input = False\<rparr>)\<rparr>"
    using assms by (auto simp: spawn_slot_def)
  show ?thesis using find_unused_Some [OF Some] build_user_frame_words [OF b] by (simp add: spawned_def enters_at_def r Let_def)
qed

lemma spawn_user_effect:
  assumes "heap_ok h"
  shows "\<exists>pid h' s'. spawn_user entry stk (h, s) = Some (pid, h', s') \<and> heap_ok h' \<and> spawned entry stk pid s s'"
proof -
  from kh.alloc_total [OF assms, of KERNEL_STACK_SIZE] obtain p h1 where
    "kmalloc KERNEL_STACK_SIZE h = Some (p, h1) \<and> heap_ok h1 \<and>
      (p = 0 \<and> heap_regions h1 = heap_regions h \<or>
       p \<noteq> 0 \<and> (\<exists>m\<ge>unat KERNEL_STACK_SIZE. heap_regions h1 = insert (p, m) (heap_regions h)) \<and> (\<forall>m. (p, m) \<notin> heap_regions h))"
    by (elim exE) (rule that)
  then have h1: "kmalloc KERNEL_STACK_SIZE h = Some (p, h1)" "heap_ok h1"
    "p \<noteq> 0 \<Longrightarrow> \<exists>m\<ge>unat KERNEL_STACK_SIZE. (p, m) \<in> heap_regions h1" by blast+
  show ?thesis
  proof (cases "p = 0")
    case True
    then show ?thesis using h1 by (intro exI [of _ None]) (simp add: spawn_user_def spawned_def)
  next
    case False
    then obtain m where "65536 \<le> m" "(p, m) \<in> heap_regions h1" using h1(3) by (auto simp: KERNEL_STACK_SIZE_def)
    then have b: "unat p + 65536 < 2 ^ 64" using heap_region_fits [OF h1(2)] by fastforce
    let ?e = "(p + KERNEL_STACK_SIZE) AND NOT 0xF"
    have e: "cadd p KERNEL_STACK_SIZE = Some (p + KERNEL_STACK_SIZE)" "unat (p + KERNEL_STACK_SIZE) = unat p + 65536"
      using b by (simp_all add: cadd_def KERNEL_STACK_SIZE_def unat_add_bounded)
    have "(0xF :: u64) = mask 4" by (simp add: mask_eq_exp_minus_1)
    then have "176 \<le> unat ?e" using unat_align_down [of "p + KERNEL_STACK_SIZE" 4] e(2) by simp
    then obtain f m where "build_user_frame ?e entry stk (stacks s) = Some (f, m)"
      by (auto simp: build_user_frame_def frame_at_def csub_def FRAME_WORDS_def word_le_nat_alt)
    then have "\<exists>r. spawn_slot ?e entry stk s = Some r" by (cases "find_unused [0..<MAX_TASKS] s") (simp_all add: spawn_slot_def)
    then obtain pid s' where sl: "spawn_slot ?e entry stk s = Some (pid, s')" by auto
    then show ?thesis using False h1(1,2) e(1) spawn_slot_spawned [OF sl] by (auto simp: spawn_user_def)
  qed
qed

text \<open>A file without the right header leaves nothing behind but the state of the disk.\<close>

lemma start_image_rejects:
  assumes "find_header img magic version = Some False" "heap_ok (k_heap k)" "(buffer, m) \<in> heap_regions (k_heap k)"
  shows "\<exists>h'. start_image buffer img magic version k = Some (None, k\<lparr>k_heap := h'\<rparr>) \<and> heap_ok h' \<and> heap_regions h' = heap_regions (k_heap k) - {(buffer, m)}"
  using kh.release_total [OF assms(2,3)] assms(1) by (auto simp: start_image_def)

lemma load_and_spawn_rejects:
  assumes ok: "heap_ok (k_heap k)" and rd: "is_mounted (k_fs k)" "user_read_file path k = Some (Some (buffer, img), k1)"
    and no: "find_header img magic version = Some False"
  shows "\<exists>k'. load_and_spawn path magic version k = Some (None, k') \<and> k' = k\<lparr>k_fs := k_fs k', k_heap := k_heap k'\<rparr> \<and>
    heap_ok (k_heap k') \<and> heap_regions (k_heap k') = heap_regions (k_heap k)"
proof -
  have e: "file_read (Some (buffer, img)) k k1" by (rule user_read_file_effect [OF ok rd(2)])
  then obtain m where k1: "k1 = k\<lparr>k_fs := k_fs k1, k_heap := k_heap k1\<rparr>" "heap_ok (k_heap k1)"
    "heap_regions (k_heap k1) = insert (buffer, m) (heap_regions (k_heap k))" "(buffer, m) \<notin> heap_regions (k_heap k)"
    by (auto simp: file_read_def)
  have "(buffer, m) \<in> heap_regions (k_heap k1)" using k1(3) by simp
  from start_image_rejects [OF no k1(2) this] obtain h' where h': "start_image buffer img magic version k1 = Some (None, k1\<lparr>k_heap := h'\<rparr>)" "heap_ok h'"
    "heap_regions h' = heap_regions (k_heap k1) - {(buffer, m)}" by blast
  have "load_and_spawn path magic version k = Some (None, k1\<lparr>k_heap := h'\<rparr>)" using rd h'(1) by (simp add: load_and_spawn_def)
  moreover have "k1\<lparr>k_heap := h'\<rparr> = k\<lparr>k_fs := k_fs k1, k_heap := h'\<rparr>" by (subst k1(1)) simp
  ultimately show ?thesis using h'(2,3) k1(3,4) by auto
qed

section \<open>A small kernel\<close>

text \<open>The program of theory \<open>Elf\<close> with its header, in a buffer at \<open>0x1020\<close>, on the machine with nothing mapped.\<close>

definition sample_prog :: "u8 list" where
  "sample_prog = sample_elf @ PINX_PROGRAM_MAGIC @ [1, 0, 0, 0]"

definition sample_kernel :: "ram_hba kernel" where
  "sample_kernel = \<lparr>k_mm = roomy_mm,
     k_heap = \<lparr>blocks = (\<lambda>_. \<lparr>blk_size = 0x20000, blk_next = 0, blk_free = 1, blk_reserved = 0\<rparr>)
       (0x1000 := \<lparr>blk_size = 144, blk_next = 0x10B0, blk_free = 0, blk_reserved = 0\<rparr>), heap_head = 0x1000\<rparr>,
     k_sched = boot_sched, k_fs = sample_boot, k_kbd = keyboard_start, k_con = terminal.extend sample_tty \<lparr>THRESHOLD = 2\<rparr>, k_apic = apic_start,
     NEXT_STACK = USER_STACK_TOP, MMAP_NEXT = 0x600000000000, FB_MAPPED = False\<rparr>"

lemma sample_kernel_heap: "heap_ok (k_heap sample_kernel)" "(0x1020, 144) \<in> heap_regions (k_heap sample_kernel)"
proof -
  have i: "heap_inv (k_heap sample_kernel) [(144, False), (0x20000, True)]" by (simp add: heap_inv_def sample_kernel_def)
  then show "heap_ok (k_heap sample_kernel)" by (auto simp: heap_ok_def)
  have "heap_head (k_heap sample_kernel) = 0x1000" by (simp add: sample_kernel_def)
  then show "(0x1020, 144) \<in> heap_regions (k_heap sample_kernel)" unfolding heap_regions_inv [OF i] by simp
qed

lemma sample_prog_segments: "elf_segments sample_prog = [\<lparr>p_offset = 120, p_vaddr = 0x400000, p_filesz = 2, p_memsz = 3\<rparr>]"
  by code_simp

lemma sample_prog_ok: "elf_ok sample_prog" "find_header sample_prog PINX_PROGRAM_MAGIC PINX_PROGRAM_VERSION = Some True"
proof -
  have p: "unat (fld sample_prog 2 56 :: u16) = 1" "phdr sample_prog 0 = 64" "length sample_prog = 138" by code_simp+
  have g: "segment_at sample_prog 64 = \<lparr>p_offset = 120, p_vaddr = 0x400000, p_filesz = 2, p_memsz = 3\<rparr>" by code_simp
  have h: "take 4 sample_prog = [0x7F, 0x45, 0x4C, 0x46]" "sample_prog ! 4 = 2" "sample_prog ! 5 = 1" by (simp_all add: sample_prog_def sample_elf_def)
  have f: "(fld sample_prog 2 16 :: u16) = ET_EXEC" "(fld sample_prog 2 18 :: u16) = EM_X86_64" "(56 :: u16) \<le> fld sample_prog 2 54" by code_simp+
  have "phdr_ok sample_prog 0" by (simp add: phdr_ok_def segment_fits_def p g USER_ADDRESS_MAX_def)
  then show "elf_ok sample_prog" using p h f by (simp add: elf_ok_def)
  show "find_header sample_prog PINX_PROGRAM_MAGIC PINX_PROGRAM_VERSION = Some True" by code_simp
qed

section \<open>Properties\<close>



end
