(* ===== verification/Syscall.thy ===== *)
theory Syscall
  imports User Idt
begin

text \<open>
  System calls (\<^verbatim>\<open>src/syscall.rs\<close>) and the shared interrupt entry (\<^verbatim>\<open>src/interrupts.rs\<close>).  The interrupt frame lies on the kernel stack, in the memory
  \<open>stacks\<close> of the scheduler's state: the handlers read and change it through its address, and the scheduler answers with the address of the frame to
  resume.  \<open>c\<close> is the number of the CPU.  User buffers are read and written through the page tables, a byte at a time.  Each call runs
  as one step: the lock \<^verbatim>\<open>MMAP_LOCK\<close> has no counterpart.
\<close>

section \<open>Constants and the interrupt frame\<close>

definition SYS_WRITE :: u64 where "SYS_WRITE = 0"
definition SYS_EXIT :: u64 where "SYS_EXIT = 1"
definition SYS_YIELD :: u64 where "SYS_YIELD = 2"
definition SYS_SPAWN :: u64 where "SYS_SPAWN = 3"
definition SYS_FB_MAP :: u64 where "SYS_FB_MAP = 4"
definition SYS_EVENT_READ :: u64 where "SYS_EVENT_READ = 5"
definition SYS_MMAP :: u64 where "SYS_MMAP = 6"
definition SYS_SLEEP :: u64 where "SYS_SLEEP = 7"
definition EINVAL :: u64 where "EINVAL = - 1"
definition MMAP_BASE :: u64 where "MMAP_BASE = 0x0000600000000000"
definition FB_USER_BASE :: u64 where "FB_USER_BASE = 0x0000500000000000"
definition PINX_EVENT_KEY :: u32 where "PINX_EVENT_KEY = 1"

text \<open>The fields of the frame the handlers use, as positions of 64-bit words in the order of the structure.\<close>

datatype frame_field = Rdi | Rsi | Rdx | Rax | Vector

primrec field_word :: "frame_field \<Rightarrow> nat" where
  "field_word Rdi = 9"
| "field_word Rsi = 10"
| "field_word Rdx = 11"
| "field_word Rax = 14"
| "field_word Vector = 15"

definition frame_get :: "u64 \<Rightarrow> frame_field \<Rightarrow> 'h kernel \<Rightarrow> u64" where
  "frame_get frm r k = stacks (k_sched k) (frm + 8 * of_nat (field_word r))"

definition set_rax :: "u64 \<Rightarrow> u64 \<Rightarrow> 'h kernel \<Rightarrow> 'h kernel" where
  "set_rax frm v k = k\<lparr>k_sched := (k_sched k)\<lparr>stacks := (stacks (k_sched k))(frm + 8 * of_nat (field_word Rax) := v)\<rparr>\<rparr>"

record PinxEvent =
  ev_kind :: u32
  ev_code :: u32
  ev_value :: u32
  ev_reserved :: u32

definition event_bytes :: "PinxEvent \<Rightarrow> u8 list" where
  "event_bytes e = to_le_bytes 4 (ev_kind e) @ to_le_bytes 4 (ev_code e) @ to_le_bytes 4 (ev_value e) @ to_le_bytes 4 (ev_reserved e)"

record PinxFramebufferInfo =
  info_address :: u64
  info_width :: u64
  info_height :: u64
  info_pitch :: u64
  info_bpp :: u64

definition info_bytes :: "PinxFramebufferInfo \<Rightarrow> u8 list" where
  "info_bytes i = to_le_bytes 8 (info_address i) @ to_le_bytes 8 (info_width i) @ to_le_bytes 8 (info_height i) @ to_le_bytes 8 (info_pitch i) @ to_le_bytes 8 (info_bpp i)"

text \<open>\<^verbatim>\<open>core::ptr::write\<close> to a virtual address.\<close>

fun store_bytes :: "u64 \<Rightarrow> u8 list \<Rightarrow> mm \<Rightarrow> mm option" where
  "store_bytes va [] s = Some s"
| "store_bytes va (b # bs) s = do { s \<leftarrow> store_byte va b s; store_bytes (va + 1) bs s }"

section \<open>Operations\<close>

partial_function (option) range_loop :: "u64 \<Rightarrow> u64 \<Rightarrow> mm \<Rightarrow> bool option" where
  "range_loop page e s =
     (if page < e then do {
        p \<leftarrow> vmm_virt_to_phys page s;
        if p = VMM_NO_PHYS then Some False
        else do { page \<leftarrow> cadd page PAGE_SIZE; range_loop page e s }
      } else Some True)"

definition user_range_valid :: "u64 \<Rightarrow> u64 \<Rightarrow> mm \<Rightarrow> bool option" where
  "user_range_valid address len s =
     (case cadd address len of
        None \<Rightarrow> Some False
      | Some e \<Rightarrow>
          if address = 0 \<or> e > USER_ADDRESS_MAX then Some False
          else range_loop (address AND NOT (PAGE_SIZE - 1)) e s)"

text \<open>The bytes at a user address.\<close>

fun load_bytes :: "u64 \<Rightarrow> nat \<Rightarrow> mm \<Rightarrow> u8 list option" where
  "load_bytes va 0 s = Some []"
| "load_bytes va (Suc n) s = do { b \<leftarrow> load_byte va s; bs \<leftarrow> load_bytes (va + 1) n s; Some (b # bs) }"

definition sys_spawn :: "u64 \<Rightarrow> u64 \<Rightarrow> 'h kernel \<Rightarrow> (u64 \<times> 'h kernel) option" where
  "sys_spawn path_ptr path_len k =
     (if path_len = 0 \<or> path_len > 256 then Some (EINVAL, k)
      else do {
        valid \<leftarrow> user_range_valid path_ptr path_len (k_mm k);
        if \<not> valid then Some (EINVAL, k)
        else do {
          path \<leftarrow> load_bytes path_ptr (unat path_len) (k_mm k);
          (pid, k) \<leftarrow> spawn_program path k;
          Some (case pid of Some i \<Rightarrow> of_nat i | None \<Rightarrow> EINVAL, k)
        }
      })"

definition sys_write :: "u64 \<Rightarrow> u64 \<Rightarrow> u64 \<Rightarrow> 'h kernel \<Rightarrow> (u64 \<times> 'h kernel) option" where
  "sys_write fd buffer len k =
     (if fd \<noteq> 1 \<and> fd \<noteq> 2 then Some (EINVAL, k)
      else if len = 0 then Some (0, k)
      else do {
        valid \<leftarrow> user_range_valid buffer len (k_mm k);
        if \<not> valid then Some (EINVAL, k)
        else do {
          con \<leftarrow> for_each [0..<unat len] (\<lambda>written con. do { byte \<leftarrow> load_byte (buffer + of_nat written) (k_mm k); putc byte con }) (k_con k);
          Some (len, k\<lparr>k_con := con\<rparr>)
        }
      })"

fun mmap_loop :: "u64 \<Rightarrow> nat list \<Rightarrow> mm \<Rightarrow> (bool \<times> mm) option" where
  "mmap_loop lo [] s = Some (True, s)"
| "mmap_loop lo (page # pages) s = do {
     d \<leftarrow> cmul (of_nat page) PAGE_SIZE;
     va \<leftarrow> cadd lo d;
     (frame, s) \<leftarrow> map_zeroed_page va s;
     if frame = PMM_NO_PAGE then Some (False, s) else mmap_loop lo pages s
   }"

definition sys_mmap :: "u64 \<Rightarrow> 'h kernel \<Rightarrow> (u64 \<times> 'h kernel) option" where
  "sys_mmap sz k =
     (if sz = 0 \<or> sz > push_bit 40 1 then Some (EINVAL, k)
      else do {
        a \<leftarrow> cadd sz PAGE_SIZE;
        a \<leftarrow> csub a 1;
        let pages = a div PAGE_SIZE;
        len \<leftarrow> cmul pages PAGE_SIZE;
        let base = MMAP_NEXT k;
        case cadd base len of
          None \<Rightarrow> Some (EINVAL, k)
        | Some e \<Rightarrow>
            if \<not> e \<le> USER_ADDRESS_MAX then Some (EINVAL, k)
            else do {
              let k = k\<lparr>MMAP_NEXT := e\<rparr>;
              (ok, m) \<leftarrow> mmap_loop base [0..<unat pages] (k_mm k);
              Some (if ok then base else EINVAL, k\<lparr>k_mm := m\<rparr>)
            }
      })"

definition sys_fb_map :: "u64 \<Rightarrow> 'h kernel \<Rightarrow> (u64 \<times> 'h kernel) option" where
  "sys_fb_map info_ptr k = do {
     valid \<leftarrow> user_range_valid info_ptr 40 (k_mm k);
     if \<not> valid then Some (EINVAL, k)
     else
       let width = framebuffer_width (k_con k); height = framebuffer_height (k_con k);
           pitch = framebuffer_pitch (k_con k); bpp = framebuffer_bpp (k_con k); base = framebuffer_address (k_con k)
       in if width = 0 \<or> height = 0 \<or> pitch = 0 \<or> bpp = 0 then Some (EINVAL, k)
       else if base = 0 then Some (EINVAL, k)
       else do {
         h \<leftarrow> hhdm_offset (k_mm k);
         physical \<leftarrow> csub base h;
         case cmul pitch height of
           None \<Rightarrow> Some (EINVAL, k)
         | Some sz \<Rightarrow> do {
             k \<leftarrow> (if FB_MAPPED k then Some k
                  else do {
                    let offset = physical AND (PAGE_SIZE - 1);
                    let physical_base = physical - offset;
                    a \<leftarrow> cadd sz offset;
                    a \<leftarrow> cadd a PAGE_SIZE;
                    a \<leftarrow> csub a 1;
                    let pages = a div PAGE_SIZE;
                    m \<leftarrow> for_each [0..<unat pages] (\<lambda>page s. do {
                           d \<leftarrow> cmul (of_nat page) PAGE_SIZE;
                           va \<leftarrow> cadd FB_USER_BASE d;
                           p \<leftarrow> cadd physical_base d;
                           vmm_map_user_mmio va p s
                         }) (k_mm k);
                    Some (k\<lparr>k_mm := m, FB_MAPPED := True\<rparr>)
                  });
             m \<leftarrow> store_bytes info_ptr (info_bytes \<lparr>info_address = FB_USER_BASE, info_width = width, info_height = height, info_pitch = pitch, info_bpp = bpp\<rparr>) (k_mm k);
             Some (0, k\<lparr>k_mm := m\<rparr>)
           }
       }
   }"

text \<open>The loop over pending keys, with the number of events there is still room for.\<close>

fun event_loop :: "u64 \<Rightarrow> nat \<Rightarrow> u64 \<Rightarrow> 'h kernel \<Rightarrow> (u64 \<times> 'h kernel) option" where
  "event_loop buffer 0 count k = Some (count, k)"
| "event_loop buffer (Suc left) count k =
     (if \<not> has_input (k_kbd k) then Some (count, k)
      else let (code, kb) = input (k_kbd k); k = k\<lparr>k_kbd := kb\<rparr> in
        if code = KEY_NONE then Some (count, k)
        else do {
          m \<leftarrow> store_bytes (buffer + 16 * count) (event_bytes \<lparr>ev_kind = PINX_EVENT_KEY, ev_code = ucast code, ev_value = 1, ev_reserved = 0\<rparr>) (k_mm k);
          event_loop buffer left (count + 1) (k\<lparr>k_mm := m\<rparr>)
        })"

text \<open>The inner option is the source's \<^verbatim>\<open>Result\<close>: nothing for a bad buffer.\<close>

definition sys_event_read :: "u64 \<Rightarrow> u64 \<Rightarrow> 'h kernel \<Rightarrow> (u64 option \<times> 'h kernel) option" where
  "sys_event_read buffer max_events k =
     (if max_events = 0 then Some (Some 0, k)
      else case cmul max_events 16 of
        None \<Rightarrow> Some (None, k)
      | Some bytes \<Rightarrow> do {
          valid \<leftarrow> user_range_valid buffer bytes (k_mm k);
          if \<not> valid then Some (None, k)
          else do {
            (count, k) \<leftarrow> event_loop buffer (unat max_events) 0 k;
            Some (Some count, k)
          }
        })"

definition sched_do :: "(sched \<Rightarrow> sched) \<Rightarrow> 'h kernel \<Rightarrow> 'h kernel" where
  "sched_do f k = k\<lparr>k_sched := f (k_sched k)\<rparr>"

definition reschedule :: "nat \<Rightarrow> u64 \<Rightarrow> 'h kernel \<Rightarrow> u64 \<times> 'h kernel" where
  "reschedule c frm k = (let (frm, s) = schedule c frm (k_sched k) in (frm, k\<lparr>k_sched := s\<rparr>))"

definition dispatch :: "nat \<Rightarrow> u64 \<Rightarrow> 'h kernel \<Rightarrow> (u64 \<times> 'h kernel) option" where
  "dispatch c frm k =
     (let nr = frame_get frm Rax k; rdi = frame_get frm Rdi k; rsi = frame_get frm Rsi k; rdx = frame_get frm Rdx k in
      if nr = SYS_WRITE then do { (r, k) \<leftarrow> sys_write rdi rsi rdx k; Some (frm, set_rax frm r k) }
      else if nr = SYS_EXIT then Some (reschedule c frm (sched_do (mark_current_dead c) k))
      else if nr = SYS_YIELD then Some (reschedule c frm (set_rax frm 0 k))
      else if nr = SYS_SPAWN then do { (r, k) \<leftarrow> sys_spawn rdi rsi k; Some (frm, set_rax frm r k) }
      else if nr = SYS_FB_MAP then do { (r, k) \<leftarrow> sys_fb_map rdi k; Some (frm, set_rax frm r k) }
      else if nr = SYS_EVENT_READ then do {
        (r, k) \<leftarrow> sys_event_read rdi rsi k;
        case r of
          None \<Rightarrow> Some (frm, set_rax frm EINVAL k)
        | Some count \<Rightarrow>
            if count = 0 \<and> rdx \<noteq> 0 then Some (reschedule c frm (sched_do (block_current_input c) (set_rax frm 0 k)))
            else Some (frm, set_rax frm count k)
      }
      else if nr = SYS_MMAP then do { (r, k) \<leftarrow> sys_mmap rdi k; Some (frm, set_rax frm r k) }
      else if nr = SYS_SLEEP then
        (let k = set_rax frm 0 k in
         if rdi = 0 then Some (reschedule c frm k)
         else do {
           deadline \<leftarrow> cadd (uptime_ms (k_apic k)) rdi;
           Some (reschedule c frm (sched_do (block_current_until c deadline) k))
         })
      else Some (frm, set_rax frm EINVAL k))"

section \<open>The interrupt entry\<close>

text \<open>\<open>scancode\<close> is the byte the keyboard controller offers.\<close>

definition irq_common_handler :: "nat \<Rightarrow> u8 \<Rightarrow> u64 \<Rightarrow> 'h kernel \<Rightarrow> (u64 \<times> 'h kernel) option" where
  "irq_common_handler c scancode frm k =
     (let vector = frame_get frm Vector k in
      if vector = of_nat IDT_SYSCALL_VECTOR then dispatch c frm k
      else if vector = ucast TIMER_VECTOR then
        (let k = k\<lparr>k_apic := send_eoi (timer_irq c (k_apic k))\<rparr>;
             k = sched_do (wake_sleepers (uptime_ms (k_apic k))) k
         in Some (reschedule c frm k))
      else
        (let k = (if vector = ucast IRQ_VECTOR then sched_do wake_input_waiters (k\<lparr>k_kbd := irq scancode (k_kbd k)\<rparr>) else k)
         in Some (frm, k\<lparr>k_apic := send_eoi (k_apic k)\<rparr>)))"

definition irq_spurious_handler :: "u64 \<Rightarrow> 'h kernel \<Rightarrow> u64 \<times> 'h kernel" where
  "irq_spurious_handler frm k = (frm, k\<lparr>k_apic := send_eoi (k_apic k)\<rparr>)"

section \<open>User ranges\<close>

text \<open>The ranges the kernel may touch for a caller: inside the user half, with every byte mapped.\<close>

definition readable :: "u64 \<Rightarrow> nat \<Rightarrow> mm \<Rightarrow> bool" where
  "readable address n s \<longleftrightarrow> address \<noteq> 0 \<and> unat address + n \<le> unat USER_ADDRESS_MAX \<and> (\<forall>i<n. load_byte (address + of_nat i) s \<noteq> None)"

lemma translate_total:
  assumes "user_ok h s" "va < USER_ADDRESS_MAX"
  shows "\<exists>p. vmm_virt_to_phys va s = Some p \<and> (p = VMM_NO_PHYS \<longleftrightarrow> load_byte va s = None)"
proof (cases "unmapped s va")
  case True
  then show ?thesis by (auto simp: load_unmapped) (simp add: unmapped_def)
next
  case False
  then obtain f where "maps_to s va f" using user_okD(4) [OF assms] by blast
  from maps_to_mapped [OF this] show ?thesis using False load_none_iff [OF assms] by auto
qed

lemma page_loads:
  assumes "user_ok h s" "va < USER_ADDRESS_MAX" "vb < USER_ADDRESS_MAX" "pg va = pg vb"
  shows "load_byte va s = None \<longleftrightarrow> load_byte vb s = None"
  unfolding load_none_iff [OF assms(1,2)] load_none_iff [OF assms(1,3)] using unmapped_page [OF assms(1)] assms(2-4) by metis

lemma range_loop_ok:
  assumes "user_ok h s" "page \<le> USER_ADDRESS_MAX" "page AND 0xFFF = 0" "unat e \<le> unat page + 4096 * n" and e: "e \<le> USER_ADDRESS_MAX"
  shows "range_loop page e s = Some (\<forall>va<USER_ADDRESS_MAX. page \<le> va \<longrightarrow> pg va < e \<longrightarrow> load_byte va s \<noteq> None)"
  using assms(1-4)
proof (induction n arbitrary: page)
  case (0 page)
  have "\<not> pg va < e" if "page \<le> va" for va using 0(4) that page_lower [OF 0(3), of va] by (auto simp: word_le_nat_alt word_less_nat_alt)
  moreover have "\<not> page < e" using 0(4) by (simp add: word_less_nat_alt)
  ultimately show ?case by (subst range_loop.simps) auto
next
  case (Suc n page)
  show ?case
  proof (cases "page < e")
    case False
    have "\<not> pg va < e" if "page \<le> va" for va using False that page_lower [OF Suc.prems(3), of va] by auto
    then show ?thesis using False by (subst range_loop.simps) auto
  next
    case True
    then have p: "page < USER_ADDRESS_MAX" using e by simp
    note nx = page_next [OF Suc.prems(3) p]
    from translate_total [OF Suc.prems(1) p] obtain q where q: "vmm_virt_to_phys page s = Some q" "q = VMM_NO_PHYS \<longleftrightarrow> load_byte page s = None"
      by (elim exE conjE) (rule that)
    have pp: "pg page = page" by (rule pg_idem [OF Suc.prems(3)])
    have all: "load_byte va s = None \<longleftrightarrow> load_byte page s = None" if "va < USER_ADDRESS_MAX" "pg va = page" for va
      using page_loads [OF Suc.prems(1) that(1) p] that(2) pp by simp
    have "unat e \<le> unat (page + 4096) + 4096 * n" using Suc.prems(4) nx(2) by simp
    note IH = Suc.IH [OF Suc.prems(1) nx(4,3) this]
    show ?thesis
    proof (cases "load_byte page s = None")
      case none: True
      then have "\<not> (\<forall>va<USER_ADDRESS_MAX. page \<le> va \<longrightarrow> pg va < e \<longrightarrow> load_byte va s \<noteq> None)" using p True pp by auto
      then show ?thesis using True q none by (subst range_loop.simps) simp
    next
      case some: False
      have "(\<forall>va<USER_ADDRESS_MAX. page \<le> va \<longrightarrow> pg va < e \<longrightarrow> load_byte va s \<noteq> None) \<longleftrightarrow>
          (\<forall>va<USER_ADDRESS_MAX. page + 4096 \<le> va \<longrightarrow> pg va < e \<longrightarrow> load_byte va s \<noteq> None)"
        using nx(5) all some by metis
      then show ?thesis using True q some nx(1) IH by (subst range_loop.simps) simp
    qed
  qed
qed

lemma user_range_valid_ok:
  assumes ok: "user_ok h s" and len: "len \<noteq> 0"
  shows "user_range_valid address len s = Some (readable address (unat len) s)"
proof (cases "unat address + unat len \<le> unat USER_ADDRESS_MAX")
  case False
  have "cadd address len = None \<or> (\<exists>e. cadd address len = Some e \<and> e > USER_ADDRESS_MAX)"
    using False by (auto simp: cadd_def word_less_nat_alt unat_add_bounded)
  then show ?thesis using False by (auto simp: user_range_valid_def readable_def)
next
  case True
  have m: "unat USER_ADDRESS_MAX = 2 ^ 47" by (simp add: USER_ADDRESS_MAX_def)
  let ?e = "address + len"
  have u: "unat ?e = unat address + unat len" using True m by (simp add: unat_add_bounded)
  have c: "cadd address len = Some ?e" using True m by (simp add: cadd_def)
  have e: "?e \<le> USER_ADDRESS_MAX" "pg address \<le> USER_ADDRESS_MAX" using True u pg_le [of address] by (simp_all add: word_le_nat_alt)
  have n: "unat ?e \<le> unat (pg address) + 4096 * seg_pages address len"
    using pages_cover [of "unat address mod 4096 + unat len"] div_mult_mod_eq [of "unat address" 4096] unfolding u unat_pg seg_pages_def by linarith
  have iff: "(\<forall>va<USER_ADDRESS_MAX. pg address \<le> va \<longrightarrow> pg va < ?e \<longrightarrow> load_byte va s \<noteq> None) \<longleftrightarrow> (\<forall>i<unat len. load_byte (address + of_nat i) s \<noteq> None)"
  proof (intro iffI allI impI)
    fix i assume all: "\<forall>va<USER_ADDRESS_MAX. pg address \<le> va \<longrightarrow> pg va < ?e \<longrightarrow> load_byte va s \<noteq> None" and i: "i < unat len"
    have ui: "unat (address + of_nat i) = unat address + i" using i True m by (subst unat_add_bounded) (simp_all add: unat_of_nat_bounded)
    have "address + of_nat i < USER_ADDRESS_MAX" "address + of_nat i < ?e" "address \<le> address + of_nat i" using ui u i True by (simp_all add: word_less_nat_alt word_le_nat_alt)
    moreover from this have "pg (address + of_nat i) < ?e" "pg address \<le> address + of_nat i" using pg_le order.trans le_less_trans by blast+
    ultimately show "load_byte (address + of_nat i) s \<noteq> None" using all by blast
  next
    fix va assume all: "\<forall>i<unat len. load_byte (address + of_nat i) s \<noteq> None" and va: "va < USER_ADDRESS_MAX" "pg address \<le> va" "pg va < ?e"
    obtain vb where vb: "address \<le> vb" "vb < ?e" "pg vb = pg va"
    proof (cases "address \<le> pg va")
      case True
      then show ?thesis using that [of "pg va"] va(3) pg_idem [OF pg_aligned] by simp
    next
      case False
      then have "pg va \<le> pg address" "pg address \<le> pg va" using page_lower [OF pg_aligned, of va address] page_lower [OF pg_aligned, of address va] va(2) by (simp_all add: not_le less_imp_le)
      moreover have "address < ?e" using len u by (simp add: word_less_nat_alt unat_gt_0)
      ultimately show ?thesis using that [of address] by simp
    qed
    have "unat vb - unat address < unat len" "address + of_nat (unat vb - unat address) = vb"
      using vb(1,2) u by (simp_all add: word_le_nat_alt word_less_nat_alt)
    then have "load_byte vb s \<noteq> None" using all by metis
    moreover have "vb < USER_ADDRESS_MAX" using vb(2) e(1) by simp
    ultimately show "load_byte va s \<noteq> None" using page_loads [OF ok _ va(1) vb(3)] by simp
  qed
  have pv: "address AND NOT (PAGE_SIZE - 1) = pg address" by (simp add: pg_def PAGE_SIZE_def)
  have "\<not> USER_ADDRESS_MAX < ?e" using e(1) by simp
  then have "user_range_valid address len s = (if address = 0 then Some False else range_loop (pg address) ?e s)"
    unfolding user_range_valid_def c pv using len by simp
  also have "range_loop (pg address) ?e s = Some (\<forall>i<unat len. load_byte (address + of_nat i) s \<noteq> None)"
    unfolding range_loop_ok [OF ok e(2) pg_aligned n e(1)] iff by (rule refl)
  finally show ?thesis using True by (simp add: readable_def)
qed

lemma load_bytes_iff: "load_bytes va n s = Some bs \<longleftrightarrow> length bs = n \<and> (\<forall>i<n. load_byte (va + of_nat i) s = Some (bs ! i))"
proof (induction n arbitrary: va bs)
  case (Suc n)
  show ?case
  proof (cases bs)
    case (Cons b cs)
    then show ?thesis using Suc [of "va + 1" cs] by (auto simp: All_less_Suc2 bind_eq_Some_conv add.assoc)
  qed (auto simp: bind_eq_Some_conv)
qed auto

lemma load_bytes_total: "(\<exists>bs. load_bytes va n s = Some bs) \<longleftrightarrow> (\<forall>i<n. load_byte (va + of_nat i) s \<noteq> None)"
proof
  assume "\<forall>i<n. load_byte (va + of_nat i) s \<noteq> None"
  then have "load_bytes va n s = Some (map (\<lambda>i. the (load_byte (va + of_nat i) s)) [0..<n])" by (simp add: load_bytes_iff)
  then show "\<exists>bs. load_bytes va n s = Some bs" by blast
qed (auto simp: load_bytes_iff)

text \<open>A run of bytes written over user memory, from an address on.\<close>

definition written :: "u64 \<Rightarrow> nat \<Rightarrow> u8 list \<Rightarrow> mm \<Rightarrow> mm \<Rightarrow> bool" where
  "written h a bs s s' \<longleftrightarrow> user_ok h s' \<and>
     (\<forall>va<USER_ADDRESS_MAX. load_byte va s' = (if a \<le> unat va \<and> unat va < a + length bs then Some (bs ! (unat va - a)) else load_byte va s))"

lemma written_Nil: "user_ok h s \<Longrightarrow> written h a [] s s"
  by (auto simp: written_def)

lemma written_append:
  assumes "written h a xs s t" "written h (a + length xs) ys t u"
  shows "written h a (xs @ ys) s u"
proof -
  have "load_byte va u = (if a \<le> unat va \<and> unat va < a + length (xs @ ys) then Some ((xs @ ys) ! (unat va - a)) else load_byte va s)" if va: "va < USER_ADDRESS_MAX" for va
  proof -
    have 1: "load_byte va t = (if a \<le> unat va \<and> unat va < a + length xs then Some (xs ! (unat va - a)) else load_byte va s)" using assms(1) va by (simp add: written_def)
    have 2: "load_byte va u = (if a + length xs \<le> unat va \<and> unat va < a + length xs + length ys then Some (ys ! (unat va - (a + length xs))) else load_byte va t)"
      using assms(2) va by (simp add: written_def)
    show ?thesis unfolding 2 1 by (auto simp: nth_append)
  qed
  then show ?thesis using assms(2) by (simp add: written_def)
qed

lemma written_loads: "written h a bs s s' \<Longrightarrow> va < USER_ADDRESS_MAX \<Longrightarrow> load_byte va s \<noteq> None \<Longrightarrow> load_byte va s' \<noteq> None"
  by (simp add: written_def)

lemma store_byte_ok:
  assumes ok: "user_ok h s" and va: "va < USER_ADDRESS_MAX" and l: "load_byte va s \<noteq> None"
  shows "\<exists>s'. store_byte va b s = Some s' \<and> written h (unat va) [b] s s'"
proof -
  have "\<not> unmapped s va" using l load_unmapped [of s va] by auto
  with user_okD(4) [OF ok va] obtain f where f: "maps_to s va f" "owned h s f" by (elim disjE exE conjE) (erule notE, assumption, rule that)
  let ?o = "unat (va AND 0xFFF)"
  have len: "?o + length [b] \<le> 4096" by (simp add: unat_offset_bits)
  have "f AND PTE_ADDR_MASK = f" "phys_to_ptr s f \<noteq> None" using f by (simp_all add: maps_to_def owned_def)
  then have "phys_to_virt s (f + (va AND 0xFFF)) = Some (f + h + (va AND 0xFFF))" using frame_addr(2) [OF user_okD(1) [OF ok]] by simp
  then have st: "store_byte va b s = Some (copied h f ?o [b] s)" using maps_to_mapped [OF f(1)] by (simp add: store_byte_def copied_def)
  have same: "pg vb = pg va \<and> ?o \<le> unat (vb AND 0xFFF) \<and> unat (vb AND 0xFFF) < ?o + length [b] \<longleftrightarrow> unat va \<le> unat vb \<and> unat vb < unat va + length [b]" for vb
  proof -
    have "pg vb = pg va \<and> vb AND 0xFFF = va AND 0xFFF \<longleftrightarrow> vb = va" using pg_plus [of va] pg_plus [of vb] by metis
    then show ?thesis unfolding word_unat_eq_iff [of vb va] word_unat_eq_iff [of "vb AND 0xFFF"] by auto
  qed
  have "load_byte vb (copied h f ?o [b] s) = (if unat va \<le> unat vb \<and> unat vb < unat va + length [b] then Some ([b] ! (unat vb - unat va)) else load_byte vb s)"
    if vb: "vb < USER_ADDRESS_MAX" for vb
    unfolding user_copied_load [OF ok va f len vb] Let_def same using same [of vb] by auto
  then have "written h (unat va) [b] s (copied h f ?o [b] s)" using user_copied [OF ok f len] by (simp add: written_def)
  then show ?thesis using st by blast
qed

lemma store_bytes_ok:
  assumes "user_ok h s" "unat va + length bs \<le> 2 ^ 47" "\<And>vb. unat va \<le> unat vb \<Longrightarrow> unat vb < unat va + length bs \<Longrightarrow> load_byte vb s \<noteq> None"
  shows "\<exists>s'. store_bytes va bs s = Some s' \<and> written h (unat va) bs s s'"
  using assms
proof (induction bs arbitrary: va s)
  case (Cons b bs)
  have m: "vb < USER_ADDRESS_MAX \<longleftrightarrow> unat vb < 2 ^ 47" for vb by (simp add: USER_ADDRESS_MAX_def word_less_nat_alt)
  have u: "unat (va + 1) = unat va + 1" using Cons.prems(2) by (subst unat_add_bounded) simp_all
  have "va < USER_ADDRESS_MAX" "load_byte va s \<noteq> None" using Cons.prems(2) Cons.prems(3) [of va] m by simp_all
  from store_byte_ok [OF Cons.prems(1) this, of b] obtain t where t: "store_byte va b s = Some t" "written h (unat va) [b] s t" by (elim exE conjE) (rule that)
  have "\<exists>s'. store_bytes (va + 1) bs t = Some s' \<and> written h (unat (va + 1)) bs t s'"
  proof (rule Cons.IH)
    fix vb :: u64 assume "unat (va + 1) \<le> unat vb" "unat vb < unat (va + 1) + length bs"
    then show "load_byte vb t \<noteq> None" using Cons.prems(2,3) u m by (intro written_loads [OF t(2)]) simp_all
  qed (use t(2) Cons.prems(2) u in \<open>simp_all add: written_def\<close>)
  then obtain s' where "store_bytes (va + 1) bs t = Some s'" and w: "written h (unat va + length [b]) bs t s'" using u by auto
  then show ?case using t(1) written_append [OF t(2) w] by auto
qed (auto simp: written_Nil)

section \<open>Anonymous memory\<close>

lemma mmap_loop_ok:
  assumes "zero_run h lo i s t" "i \<le> n" and lo: "lo AND 0xFFF = 0" "unat lo + 4096 * n \<le> unat USER_ADDRESS_MAX" and fr: "4 * n \<le> card (free_frames (frames s))"
  shows "\<exists>t'. mmap_loop lo [i..<n] t = Some (True, t') \<and> zero_run h lo n s t'"
  using assms(2,1)
proof (induction i arbitrary: t rule: inc_induct)
  case (step i)
  have "unat lo + 4096 * Suc i \<le> unat USER_ADDRESS_MAX" "4 * Suc i \<le> card (free_frames (frames s))" using step.hyps(2) lo(2) fr by simp_all
  from zero_run_step [OF step.prems lo(1) this] obtain f t' where z: "map_zeroed_page (lo + of_nat i * 4096) t = Some (f, t')" "f \<noteq> PMM_NO_PAGE" "zero_run h lo (Suc i) s t'" by blast
  have m: "unat USER_ADDRESS_MAX = 2 ^ 47" by (simp add: USER_ADDRESS_MAX_def)
  have "cmul (of_nat i) PAGE_SIZE = Some (of_nat i * 4096 :: u64)" "unat (of_nat i * 4096 :: u64) = i * 4096"
    using step.hyps(2) lo(2) m by (simp_all add: cmul_def PAGE_SIZE_def unat_mult_bounded unat_of_nat_bounded)
  moreover from this have "cadd lo (of_nat i * 4096) = Some (lo + of_nat i * 4096)" using step.hyps(2) lo(2) m by (simp add: cadd_def)
  ultimately show ?case using step.IH [OF z(3)] z(1,2) step.hyps(2) by (simp add: upt_conv_Cons)
qed simp

text \<open>The bytes of the pages that cover a size.\<close>

definition page_span :: "u64 \<Rightarrow> nat" where "page_span sz = 4096 * ((unat sz + 4095) div 4096)"

lemma sys_mmap_pages:
  assumes "sz \<noteq> 0" "\<not> sz > push_bit 40 1" and n: "n = (unat sz + 4095) div 4096"
  shows "sys_mmap sz k =
    (if unat (MMAP_NEXT k) + page_span sz > 2 ^ 47 then Some (EINVAL, k)
     else do { (ok, m) \<leftarrow> mmap_loop (MMAP_NEXT k) [0..<n] (k_mm k);
               Some (if ok then MMAP_NEXT k else EINVAL, k\<lparr>MMAP_NEXT := MMAP_NEXT k + of_nat (page_span sz), k_mm := m\<rparr>) })"
proof -
  have s: "unat sz \<le> 2 ^ 40" using assms(2) by (simp add: word_less_nat_alt push_bit_eq_mult)
  have c: "cadd sz PAGE_SIZE = Some (sz + 4096)" "unat (sz + 4096) = unat sz + 4096" using s by (simp_all add: cadd_def PAGE_SIZE_def unat_add_bounded)
  have d: "csub (sz + 4096) 1 = Some (sz + 4095)" "unat (sz + 4095) = unat sz + 4095" using c(2) s by (simp_all add: csub_def word_le_nat_alt unat_add_bounded)
  have p: "unat ((sz + 4095) div 4096) = n" unfolding n by (simp add: unat_div d(2))
  have l: "cmul ((sz + 4095) div 4096) PAGE_SIZE = Some (of_nat (page_span sz))" "unat (of_nat (page_span sz) :: u64) = page_span sz"
  proof -
    have "page_span sz < 2 ^ 64" using s by (simp add: page_span_def)
    then show "unat (of_nat (page_span sz) :: u64) = page_span sz" by (simp add: unat_of_nat_bounded)
    moreover have "(sz + 4095) div 4096 * 4096 = of_nat (page_span sz)" unfolding page_span_def n [symmetric] p [symmetric] by simp
    ultimately show "cmul ((sz + 4095) div 4096) PAGE_SIZE = Some (of_nat (page_span sz))"
      using p n \<open>page_span sz < 2 ^ 64\<close> by (simp add: cmul_def PAGE_SIZE_def page_span_def mult.commute)
  qed
  have e: "(case cadd (MMAP_NEXT k) (of_nat (page_span sz)) of None \<Rightarrow> x | Some e \<Rightarrow> if \<not> e \<le> USER_ADDRESS_MAX then x else f e) =
      (if unat (MMAP_NEXT k) + page_span sz > 2 ^ 47 then x else f (MMAP_NEXT k + of_nat (page_span sz)))" for x :: "(u64 \<times> 'a kernel) option" and f
    using l(2) by (auto simp: cadd_def word_le_nat_alt unat_add_bounded USER_ADDRESS_MAX_def)
  show ?thesis using assms(1,2) c d p l e by (simp add: sys_mmap_def Let_def PAGE_SIZE_def)
qed

lemma sys_mmap_ok:
  assumes ok: "user_ok h (k_mm k)" and base: "MMAP_NEXT k AND 0xFFF = 0" and fr: "sz \<le> push_bit 40 1 \<Longrightarrow> page_span sz \<le> 1024 * card (free_frames (frames (k_mm k)))"
  shows "if sz = 0 \<or> sz > push_bit 40 1 \<or> unat (MMAP_NEXT k) + page_span sz > 2 ^ 47 then sys_mmap sz k = Some (EINVAL, k)
    else \<exists>m. sys_mmap sz k = Some (MMAP_NEXT k, k\<lparr>MMAP_NEXT := MMAP_NEXT k + of_nat (page_span sz), k_mm := m\<rparr>) \<and>
      zero_run h (MMAP_NEXT k) (page_span sz div 4096) (k_mm k) m"
proof (cases "sz = 0 \<or> sz > push_bit 40 1")
  case True
  then show ?thesis by (auto simp: sys_mmap_def)
next
  case False
  define n where "n = (unat sz + 4095) div 4096"
  have sp: "page_span sz = 4096 * n" by (simp add: page_span_def n_def)
  note q = sys_mmap_pages [of sz n k, OF _ _ n_def]
  show ?thesis
  proof (cases "unat (MMAP_NEXT k) + page_span sz > 2 ^ 47")
    case True
    then show ?thesis using q False by auto
  next
    case fits: False
    have "unat (MMAP_NEXT k) + 4096 * n \<le> unat USER_ADDRESS_MAX" "4 * n \<le> card (free_frames (frames (k_mm k)))" using fits fr sp False by (simp_all add: USER_ADDRESS_MAX_def not_less)
    from mmap_loop_ok [OF zero_run_0 [OF ok] _ base this] obtain m where "mmap_loop (MMAP_NEXT k) [0..<n] (k_mm k) = Some (True, m)" "zero_run h (MMAP_NEXT k) n (k_mm k) m"
      by auto
    then show ?thesis using q False fits by (auto simp: sp)
  qed
qed

section \<open>Input events\<close>

text \<open>What a pending key becomes in the caller's buffer.\<close>

definition key_event :: "u8 \<Rightarrow> u8 list" where
  "key_event code = event_bytes \<lparr>ev_kind = PINX_EVENT_KEY, ev_code = ucast code, ev_value = 1, ev_reserved = 0\<rparr>"

lemma length_key_event [simp]: "length (key_event c) = 16"
  by (simp add: key_event_def event_bytes_def)

lemma event_loop_step:
  assumes ok: "user_ok h (k_mm k)" and inv: "kb_inv (k_kbd k)" and b: "unat buffer + 16 * unat count + 16 \<le> 2 ^ 47"
    and l: "\<And>va. unat buffer + 16 * unat count \<le> unat va \<Longrightarrow> unat va < unat buffer + 16 * unat count + 16 \<Longrightarrow> load_byte va (k_mm k) \<noteq> None"
    and q: "kb_queue (k_kbd k) = c # cs"
  shows "\<exists>kb m. event_loop buffer (Suc left) count k = event_loop buffer left (count + 1) (k\<lparr>k_kbd := kb, k_mm := m\<rparr>) \<and>
    kb_inv kb \<and> kb_queue kb = cs \<and> written h (unat buffer + 16 * unat count) (key_event c) (k_mm k) m"
proof -
  have wf: "kb_wf (k_kbd k)" using inv by (simp add: kb_inv_def)
  have ne: "kb_queue (k_kbd k) \<noteq> []" using q by simp
  obtain kb where kb: "input (k_kbd k) = (c, kb)" "kb_queue kb = cs"
    using kb_queue_input [OF wf ne] unfolding q by (cases "input (k_kbd k)") simp
  have inv': "kb_inv kb" using kb_inv_step [OF inv, of Input] kb(1) by simp
  have c: "c \<noteq> KEY_NONE" "has_input (k_kbd k)" using inv q kb.ready_queue [OF wf] by (auto simp: kb_inv_def)
  have u1: "unat (16 * count) = 16 * unat count" using b by (subst unat_mult_bounded) simp_all
  have u2: "unat (buffer + 16 * count) = unat buffer + 16 * unat count" using b u1 by (subst unat_add_bounded) simp_all
  have "\<exists>m. store_bytes (buffer + 16 * count) (key_event c) (k_mm k) = Some m \<and> written h (unat (buffer + 16 * count)) (key_event c) (k_mm k) m"
    by (rule store_bytes_ok [OF ok]) (use b in \<open>simp_all add: u2 l\<close>)
  then obtain m where m: "store_bytes (buffer + 16 * count) (key_event c) (k_mm k) = Some m" "written h (unat buffer + 16 * unat count) (key_event c) (k_mm k) m"
    unfolding u2 by (elim exE conjE) (rule that)
  have "event_loop buffer (Suc left) count k = event_loop buffer left (count + 1) (k\<lparr>k_kbd := kb, k_mm := m\<rparr>)"
    using m(1) kb(1) c by (simp add: key_event_def)
  then show ?thesis using inv' kb(2) m(2) by blast
qed

lemma event_loop_ok:
  assumes "user_ok h (k_mm k)" "kb_inv (k_kbd k)" "unat buffer + 16 * (unat count + left) \<le> 2 ^ 47"
    "\<And>va. unat buffer + 16 * unat count \<le> unat va \<Longrightarrow> unat va < unat buffer + 16 * (unat count + left) \<Longrightarrow> load_byte va (k_mm k) \<noteq> None"
    "q = kb_queue (k_kbd k)"
  shows "\<exists>m kb. event_loop buffer left count k = Some (count + of_nat (length (take left q)), k\<lparr>k_kbd := kb, k_mm := m\<rparr>) \<and>
    kb_inv kb \<and> kb_queue kb = drop left q \<and> written h (unat buffer + 16 * unat count) (concat (map key_event (take left q))) (k_mm k) m"
  using assms
proof (induction left arbitrary: count k q)
  case 0
  then show ?case by (auto intro!: exI [of _ "k_mm k"] exI [of _ "k_kbd k"] simp: written_Nil)
next
  case (Suc left)
  have wf: "kb_wf (k_kbd k)" using Suc.prems(2) by (simp add: kb_inv_def)
  show ?case
  proof (cases q)
    case Nil
    then show ?thesis using Suc.prems kb.ready_queue [OF wf] by (auto intro!: exI [of _ "k_mm k"] exI [of _ "k_kbd k"] simp: written_Nil)
  next
    case (Cons c cs)
    have b: "unat buffer + 16 * unat count + 16 \<le> 2 ^ 47" "kb_queue (k_kbd k) = c # cs" using Suc.prems(3,5) Cons by simp_all
    have u3: "unat (count + 1) = unat count + 1" using Suc.prems(3) by (subst unat_add_bounded) simp_all
    then have u4: "unat buffer + 16 * unat (count + 1) = unat buffer + 16 * unat count + length (key_event c)" by simp
    from event_loop_step [OF Suc.prems(1,2) b(1) Suc.prems(4) b(2), of left] obtain kb m where
      st: "event_loop buffer (Suc left) count k = event_loop buffer left (count + 1) (k\<lparr>k_kbd := kb, k_mm := m\<rparr>)" "kb_inv kb" "kb_queue kb = cs"
      and w: "written h (unat buffer + 16 * unat count) (key_event c) (k_mm k) m" by fastforce
    let ?k = "k\<lparr>k_kbd := kb, k_mm := m\<rparr>"
    have km: "k_mm ?k = m" by simp
    have "\<exists>m' kb'. event_loop buffer left (count + 1) ?k = Some (count + 1 + of_nat (length (take left cs)), ?k\<lparr>k_kbd := kb', k_mm := m'\<rparr>) \<and>
      kb_inv kb' \<and> kb_queue kb' = drop left cs \<and> written h (unat buffer + 16 * unat (count + 1)) (concat (map key_event (take left cs))) (k_mm ?k) m'"
    proof (rule Suc.IH)
      fix va :: u64 assume va: "unat buffer + 16 * unat (count + 1) \<le> unat va" "unat va < unat buffer + 16 * (unat (count + 1) + left)"
      then have "va < USER_ADDRESS_MAX" using Suc.prems(3) u3 by (simp add: USER_ADDRESS_MAX_def word_less_nat_alt)
      moreover have "load_byte va (k_mm k) \<noteq> None" using va u3 by (intro Suc.prems(4)) simp_all
      ultimately show "load_byte va (k_mm ?k) \<noteq> None" using written_loads [OF w] by simp
    qed (use w st u3 Suc.prems(3) in \<open>simp_all add: written_def\<close>)
    then obtain m' kb' where e: "event_loop buffer left (count + 1) ?k = Some (count + 1 + of_nat (length (take left cs)), ?k\<lparr>k_kbd := kb', k_mm := m'\<rparr>)"
      "kb_inv kb'" "kb_queue kb' = drop left cs" and w': "written h (unat buffer + 16 * unat count + length (key_event c)) (concat (map key_event (take left cs))) m m'"
      unfolding u4 km by (elim exE conjE) (rule that)
    show ?thesis using e written_append [OF w w'] unfolding st(1) Cons by (auto simp: add_ac)
  qed
qed

lemma readableD:
  assumes "readable address n s"
  shows "unat address + n \<le> 2 ^ 47" "\<And>va. unat address \<le> unat va \<Longrightarrow> unat va < unat address + n \<Longrightarrow> load_byte va s \<noteq> None"
proof -
  show "unat address + n \<le> 2 ^ 47" using assms by (simp add: readable_def USER_ADDRESS_MAX_def)
  fix va :: u64 assume va: "unat address \<le> unat va" "unat va < unat address + n"
  then have "address + of_nat (unat va - unat address) = va" by simp
  moreover have "unat va - unat address < n" using va by simp
  ultimately show "load_byte va s \<noteq> None" using assms unfolding readable_def by metis
qed

lemma sys_event_read_ok:
  assumes ok: "user_ok h (k_mm k)" and kb: "kb_inv (k_kbd k)"
  shows "if max_events = 0 then sys_event_read buffer max_events k = Some (Some 0, k)
    else if \<not> readable buffer (16 * unat max_events) (k_mm k) then sys_event_read buffer max_events k = Some (None, k)
    else \<exists>m kb. sys_event_read buffer max_events k =
        Some (Some (of_nat (length (take (unat max_events) (kb_queue (k_kbd k))))), k\<lparr>k_kbd := kb, k_mm := m\<rparr>) \<and>
      kb_inv kb \<and> kb_queue kb = drop (unat max_events) (kb_queue (k_kbd k)) \<and>
      written h (unat buffer) (concat (map key_event (take (unat max_events) (kb_queue (k_kbd k))))) (k_mm k) m"
proof (cases "cmul max_events 16")
  case None
  then have "\<not> readable buffer (16 * unat max_events) (k_mm k)" by (auto simp: readable_def USER_ADDRESS_MAX_def cmul_def split: if_splits)
  then show ?thesis using None by (simp add: sys_event_read_def)
next
  case (Some bytes)
  then have u: "unat bytes = 16 * unat max_events" by (auto simp: cmul_def unat_mult_bounded split: if_splits)
  show ?thesis
  proof (cases "max_events = 0")
    case True
    then show ?thesis by (simp add: sys_event_read_def)
  next
    case nz: False
    then have "bytes \<noteq> 0" using u by (auto simp: unat_eq_zero)
    note v = user_range_valid_ok [OF ok this, of buffer, unfolded u]
    show ?thesis
    proof (cases "readable buffer (16 * unat max_events) (k_mm k)")
      case False
      then show ?thesis using nz Some v by (simp add: sys_event_read_def)
    next
      case True
      have "\<exists>m kb. event_loop buffer (unat max_events) 0 k = Some (0 + of_nat (length (take (unat max_events) (kb_queue (k_kbd k)))), k\<lparr>k_kbd := kb, k_mm := m\<rparr>) \<and>
        kb_inv kb \<and> kb_queue kb = drop (unat max_events) (kb_queue (k_kbd k)) \<and>
        written h (unat buffer + 16 * unat (0 :: u64)) (concat (map key_event (take (unat max_events) (kb_queue (k_kbd k))))) (k_mm k) m"
        by (rule event_loop_ok [OF ok kb _ _ refl]) (use readableD [OF True] in simp_all)
      then show ?thesis using nz True Some v by (auto simp: sys_event_read_def)
    qed
  qed
qed

section \<open>Output\<close>

lemma sys_write_loop:
  "load_bytes buffer n m = Some bs \<Longrightarrow>
   for_each [0..<n] (\<lambda>written con. do { byte \<leftarrow> load_byte (buffer + of_nat written) m; putc byte con }) con = puts bs con" for con :: "'a tty"
proof (induction n arbitrary: bs)
  case (Suc n)
  have l: "length bs = Suc n" "\<And>i. i < Suc n \<Longrightarrow> load_byte (buffer + of_nat i) m = Some (bs ! i)" using Suc.prems unfolding load_bytes_iff by simp_all
  then have "load_bytes buffer n m = Some (take n bs)" by (simp add: load_bytes_iff)
  note IH = Suc.IH [OF this]
  have "bs = take n bs @ [bs ! n]" using l(1) by (metis lessI take_Suc_conv_app_nth take_all_iff order_refl)
  then have "puts bs con = Option.bind (puts (take n bs) con) (for_each [bs ! n] putc)" unfolding puts_def by (metis for_each_append)
  moreover have "for_each [n] (\<lambda>written (con :: 'a tty). do { byte \<leftarrow> load_byte (buffer + of_nat written) m; putc byte con }) = for_each [bs ! n] putc"
    using l(2) [of n] by (simp add: fun_eq_iff split: Option.bind_split)
  ultimately show ?case by (simp add: for_each_append IH)
qed (simp add: puts_def)

lemma sys_write_ok:
  assumes ok: "user_ok h (k_mm k)" and fb: "term_fb fb" "term_ok fb (k_con k)"
  shows "if fd \<noteq> 1 \<and> fd \<noteq> 2 then sys_write fd buffer len k = Some (EINVAL, k)
    else if len = 0 then sys_write fd buffer len k = Some (0, k)
    else if \<not> readable buffer (unat len) (k_mm k) then sys_write fd buffer len k = Some (EINVAL, k)
    else \<exists>bs con. load_bytes buffer (unat len) (k_mm k) = Some bs \<and> puts bs (k_con k) = Some con \<and>
      printed fb (k_con k) con \<and> term_ok fb con \<and> sys_write fd buffer len k = Some (len, k\<lparr>k_con := con\<rparr>)"
proof (cases "len \<noteq> 0 \<and> readable buffer (unat len) (k_mm k)")
  case True
  then obtain bs where bs: "load_bytes buffer (unat len) (k_mm k) = Some bs" using load_bytes_total [of buffer "unat len"] unfolding readable_def by blast
  obtain con where "puts bs (k_con k) = Some con" "printed fb (k_con k) con" "term_ok fb con" using puts_ok [OF fb] by blast
  then show ?thesis using True bs user_range_valid_ok [OF ok, of len buffer] sys_write_loop [OF bs, of "k_con k"] by (auto simp: sys_write_def)
next
  case False
  then show ?thesis using user_range_valid_ok [OF ok, of len buffer] by (auto simp: sys_write_def)
qed

section \<open>The kernel between interrupts\<close>

text \<open>The invariants of the components, for a kernel with its terminal on \<open>fb\<close>.\<close>

definition kernel_ok :: "u64 \<Rightarrow> LimineFramebuffer \<Rightarrow> 'h kernel \<Rightarrow> bool" where
  "kernel_ok h fb k \<longleftrightarrow> user_ok h (k_mm k) \<and> kb_inv (k_kbd k) \<and> term_fb fb \<and> term_ok fb (k_con k) \<and> sched_inv (k_sched k) \<and> MMAP_NEXT k AND 0xFFF = 0"

lemma kernel_okD:
  assumes "kernel_ok h fb k"
  shows "user_ok h (k_mm k)" "kb_inv (k_kbd k)" "term_fb fb" "term_ok fb (k_con k)" "sched_inv (k_sched k)" "MMAP_NEXT k AND 0xFFF = 0"
  using assms by (simp_all add: kernel_ok_def)

text \<open>The entries into the kernel the theorem below covers: the calls that load a program or map the framebuffer are not among them.\<close>

definition entry_ok :: "u64 \<Rightarrow> 'h kernel \<Rightarrow> bool" where
  "entry_ok frm k \<longleftrightarrow> frame_get frm Vector k = of_nat IDT_SYSCALL_VECTOR \<longrightarrow>
     (let nr = frame_get frm Rax k; rdi = frame_get frm Rdi k in
      nr \<noteq> SYS_SPAWN \<and> nr \<noteq> SYS_FB_MAP \<and>
      (nr = SYS_MMAP \<and> rdi \<le> push_bit 40 1 \<longrightarrow> page_span rdi \<le> 1024 * card (free_frames (frames (k_mm k)))) \<and>
      (nr = SYS_SLEEP \<longrightarrow> unat (uptime_ms (k_apic k)) + unat rdi < 2 ^ 64))"

lemma sched_inv_stacks [simp]: "sched_inv_at oc (s\<lparr>stacks := m\<rparr>) = sched_inv_at oc s"
proof -
  have "task (s\<lparr>stacks := m\<rparr>) p = task s p" for p by (cases p) simp_all
  then show ?thesis by (simp add: sched_inv_at_def)
qed

lemma set_rax_ok: "kernel_ok h fb k \<Longrightarrow> kernel_ok h fb (set_rax frm v k)"
  by (simp add: kernel_ok_def set_rax_def)

text \<open>A call that returns to its caller with a value, and one that goes through the scheduler.\<close>

definition kept :: "u64 \<Rightarrow> LimineFramebuffer \<Rightarrow> (u64 \<times> 'h kernel) option \<Rightarrow> bool" where
  "kept h fb r \<longleftrightarrow> (\<exists>v k. r = Some (v, k) \<and> kernel_ok h fb k)"

lemma kept_Some: "kernel_ok h fb k \<Longrightarrow> kept h fb (Some (v, k))"
  by (auto simp: kept_def)

lemma kept_return: "kept h fb r \<Longrightarrow> kept h fb (do { (v, k) \<leftarrow> r; Some (frm, set_rax frm v k) })"
  by (auto simp: kept_def set_rax_ok)

lemma kept_reschedule: "kernel_ok h fb k \<Longrightarrow> sched_inv_at (Some c) (f (k_sched k)) \<Longrightarrow> kept h fb (Some (reschedule c frm (sched_do f k)))"
  using schedule_inv [of c "f (k_sched k)" frm] by (auto simp: kept_def reschedule_def sched_do_def kernel_ok_def split: prod.split)

lemma kept_yield: "kernel_ok h fb k \<Longrightarrow> kept h fb (Some (reschedule c frm k))"
  using kept_reschedule [of h fb k c "\<lambda>s. s" frm] by (simp add: sched_do_def kernel_ok_def sched_inv_weaken)

lemma parked_inv: "sched_inv s \<Longrightarrow> sched_inv_at (Some c) (mark_current_dead c s)" "sched_inv s \<Longrightarrow> sched_inv_at (Some c) (block_current_until c t s)"
  "sched_inv s \<Longrightarrow> sched_inv_at (Some c) (block_current_input c s)"
  unfolding mark_current_dead_def block_current_until_def block_current_input_def by (rule update_current_state_inv; simp)+

lemma kept_parked:
  assumes k: "kernel_ok h fb k"
  shows "kept h fb (Some (reschedule c frm (sched_do (mark_current_dead c) k)))" "kept h fb (Some (reschedule c frm (sched_do (block_current_until c t) k)))"
    "kept h fb (Some (reschedule c frm (sched_do (block_current_input c) k)))"
  by (rule kept_reschedule [OF k], rule parked_inv, rule kernel_okD(5) [OF k])+

lemma kept_write:
  assumes k: "kernel_ok h fb k"
  shows "kept h fb (sys_write fd buffer len k)"
proof -
  have con: "kernel_ok h fb (k\<lparr>k_con := con\<rparr>)" if "term_ok fb con" for con using k that by (simp add: kernel_ok_def)
  show ?thesis using sys_write_ok [OF kernel_okD(1,3,4) [OF k], of fd buffer len] con k by (auto simp: kept_def split: if_splits)
qed

lemma kept_mmap:
  assumes k: "kernel_ok h fb k" and fr: "sz \<le> push_bit 40 1 \<Longrightarrow> page_span sz \<le> 1024 * card (free_frames (frames (k_mm k)))"
  shows "kept h fb (sys_mmap sz k)"
proof -
  have "kernel_ok h fb (k\<lparr>MMAP_NEXT := MMAP_NEXT k + of_nat (page_span sz), k_mm := m\<rparr>)" if "zero_run h lo n (k_mm k) m" for lo n m
  proof -
    have "(of_nat (page_span sz) :: u64) AND 0xFFF = 0" unfolding page_span_def aligned_dvd unat_of_nat by (rule dvd_mod) simp_all
    then show ?thesis using k that by (simp add: kernel_ok_def zero_run_def aligned_add)
  qed
  then show ?thesis using sys_mmap_ok [OF kernel_okD(1,6) [OF k] fr] k by (auto simp: kept_def split: if_splits)
qed

lemma kept_events:
  assumes k: "kernel_ok h fb k"
  shows "\<exists>r k'. sys_event_read buffer n k = Some (r, k') \<and> kernel_ok h fb k'"
proof -
  have "kernel_ok h fb (k\<lparr>k_kbd := kb, k_mm := m\<rparr>)" if "kb_inv kb" "written h a bs (k_mm k) m" for kb a bs m using k that by (simp add: kernel_ok_def written_def)
  then show ?thesis using sys_event_read_ok [OF kernel_okD(1,2) [OF k], of n buffer] k by (auto split: if_splits)
qed

lemma kept_if: "(b \<Longrightarrow> kept h fb x) \<Longrightarrow> (\<not> b \<Longrightarrow> kept h fb y) \<Longrightarrow> kept h fb (if b then x else y)"
  by simp

lemma kept_event_read:
  assumes k: "kernel_ok h fb k"
  shows "kept h fb (do {
        (r, k) \<leftarrow> sys_event_read buffer n k;
        case r of
          None \<Rightarrow> Some (frm, set_rax frm EINVAL k)
        | Some count \<Rightarrow>
            if count = 0 \<and> rdx \<noteq> 0 then Some (reschedule c frm (sched_do (block_current_input c) (set_rax frm 0 k)))
            else Some (frm, set_rax frm count k)
      })"
proof -
  from kept_events [OF k, of buffer n] obtain r k' where ev: "sys_event_read buffer n k = Some (r, k')" "kernel_ok h fb k'" by (elim exE conjE) (rule that)
  have r: "kernel_ok h fb (set_rax frm v k')" for v by (rule set_rax_ok [OF ev(2)])
  show ?thesis using kept_Some [OF r] kept_parked(3) [OF r] by (simp add: ev(1) split: option.split)
qed

lemma kept_sleep:
  assumes k: "kernel_ok h fb k" and t: "unat (uptime_ms (k_apic k)) + unat ms < 2 ^ 64"
  shows "kept h fb (do { deadline \<leftarrow> cadd (uptime_ms (k_apic k)) ms; Some (reschedule c frm (sched_do (block_current_until c deadline) k)) })"
  using kept_parked(2) [OF k] t by (simp add: cadd_def)

lemma dispatch_kept:
  assumes k: "kernel_ok h fb k" and e: "entry_ok frm k" and v: "frame_get frm Vector k = of_nat IDT_SYSCALL_VECTOR"
  shows "kept h fb (dispatch c frm k)"
proof -
  have ap: "k_apic (set_rax frm 0 k) = k_apic k" by (simp add: set_rax_def)
  note call = e [unfolded entry_ok_def Let_def, rule_format, OF v]
  show ?thesis unfolding dispatch_def Let_def
  proof (intro kept_if)
    show "kept h fb (do { (r, k) \<leftarrow> sys_mmap (frame_get frm Rdi k) k; Some (frm, set_rax frm r k) })" if "frame_get frm Rax k = SYS_MMAP"
      using call that by (intro kept_return kept_mmap [OF k]) simp
    show "kept h fb (do { deadline \<leftarrow> cadd (uptime_ms (k_apic (set_rax frm 0 k))) (frame_get frm Rdi k);
        Some (reschedule c frm (sched_do (block_current_until c deadline) (set_rax frm 0 k))) })" if "frame_get frm Rax k = SYS_SLEEP"
      using call that by (intro kept_sleep set_rax_ok [OF k]) (simp add: ap)
  qed (use call in \<open>simp_all add: kept_return kept_write [OF k] kept_event_read [OF k] kept_yield set_rax_ok [OF k] kept_parked(1) [OF k] kept_Some\<close>)
qed

lemma interrupt_kept:
  assumes k: "kernel_ok h fb k" and e: "entry_ok frm k"
  shows "kept h fb (irq_common_handler c scancode frm k)"
proof (cases "frame_get frm Vector k = of_nat IDT_SYSCALL_VECTOR")
  case True
  then show ?thesis using dispatch_kept [OF k e] by (simp add: irq_common_handler_def)
next
  case False
  have ap: "kernel_ok h fb (k\<lparr>k_apic := a\<rparr>)" for a using k by (simp add: kernel_ok_def)
  have wk: "kernel_ok h fb (sched_do (wake_sleepers t) k)" "kernel_ok h fb (sched_do wake_input_waiters k)" if "kernel_ok h fb k" for t k
    using that wake_inv by (simp_all add: kernel_ok_def sched_do_def)
  have kb: "kernel_ok h fb (k\<lparr>k_kbd := irq scancode (k_kbd k)\<rparr>)" using k kb_inv_step [of "k_kbd k" "Irq scancode"] by (simp add: kernel_ok_def)
  have ka: "kernel_ok h fb (k\<lparr>k_apic := a\<rparr>)" if "kernel_ok h fb k" for a k using that by (simp add: kernel_ok_def)
  have "kept h fb (Some (reschedule c frm (sched_do (wake_sleepers t) (k\<lparr>k_apic := a\<rparr>))))" for t a by (rule kept_yield [OF wk(1) [OF ap]])
  then show ?thesis using False unfolding irq_common_handler_def Let_def
    by (simp add: kept_Some ka wk(2) [OF kb] k)
qed

text \<open>A reader that finds no key is off every CPU until a key arrives.\<close>

lemma input_wait_parks:
  assumes inv: "sched_inv s" and cu: "cur s c = Some (Slot i)"
  shows "let s' = snd (schedule c f (block_current_input c s)) in
    st s' i = Blocked \<and> frame (TASKS s' i) = f \<and> (\<forall>d. cur s' d \<noteq> Some (Slot i) \<and> dfr s' d \<noteq> Some (Slot i)) \<and>
    st (wake_input_waiters s') i = Ready \<and> (\<forall>now. st (wake_sleepers now s') i = Blocked)"
proof -
  define b where "b = block_current_input c s"
  define s' where "s' = snd (schedule c f b)"
  have i: "i < MAX_TASKS" using sched_invD(2) [OF inv cu] by auto
  have bi: "sched_inv_at (Some c) b" unfolding b_def by (rule parked_inv [OF inv])
  have b: "st b i = Blocked" "wait_input (TASKS b i)" "cur b c = Some (Slot i)" using cu by (simp_all add: b_def block_current_input_def)
  have t: "TASKS s' i = (TASKS b i)\<lparr>frame := f\<rparr>" unfolding s'_def by (rule schedule_parked [OF bi b(3)]) (simp add: b)
  have inv': "sched_inv s'" unfolding s'_def by (rule schedule_inv [OF bi])
  have "cur s' d \<noteq> Some (Slot i) \<and> dfr s' d \<noteq> Some (Slot i)" for d
    using sched_invD(4) [OF inv', of d i] sched_invD(6) [OF inv', of d "Slot i"] t b(1) by auto
  then show ?thesis using t b i by (simp add: Let_def wake_input_waiters_def wake_sleepers_def map_tasks_def flip: s'_def b_def)
qed

lemma schedule_stacks: "stacks (snd (schedule c f s)) = stacks s"
proof -
  have t: "stacks (set_task p x s) = stacks s" for p x s by (cases p) simp_all
  have p: "stacks (set_per c x s) = stacks s" for x s by (simp add: set_per_def)
  have "stacks (snd (switch_to c cu q s)) = stacks s" for cu q s by (simp add: switch_to_def Let_def t p)
  moreover have "stacks (saved c f s) = stacks s" by (auto simp: saved_def update_current_def publish_deferred_def t p split: option.split)
  ultimately show ?thesis by (cases "INITIALIZED s") (auto simp: schedule_cases split: option.split, simp add: schedule_def)
qed

lemma sys_event_read_empty:
  assumes ok: "user_ok h (k_mm k)" and kb: "kb_inv (k_kbd k)" "kb_queue (k_kbd k) = []" and r: "n \<noteq> 0" "readable buffer (16 * unat n) (k_mm k)"
  shows "sys_event_read buffer n k = Some (Some 0, k)"
proof -
  have b: "16 * unat n < 2 ^ 64" using readableD(1) [OF r(2)] by simp
  then have u: "cmul n 16 = Some (n * 16)" "unat (n * 16) = 16 * unat n" by (simp_all add: cmul_def unat_mult_bounded)
  then have "n * 16 \<noteq> 0" using r(1) by (metis unat_eq_0 mult_eq_0_iff zero_neq_numeral)
  note v = user_range_valid_ok [OF ok this, of buffer, unfolded u(2)]
  have "\<not> has_input (k_kbd k)" using kb.ready_queue [of "k_kbd k"] kb by (simp add: kb_inv_def)
  moreover obtain m where "unat n = Suc m" using r(1) by (cases "unat n") (simp_all add: unat_eq_0)
  ultimately show ?thesis using r u(1) v by (simp add: sys_event_read_def)
qed

text \<open>A sample: task 0 runs on CPU 0 and calls the kernel to read one event, with the blocking flag; a page of anonymous memory is its buffer.\<close>

definition live_kernel :: "mm \<Rightarrow> ram_hba kernel" where
  "live_kernel m = sample_kernel\<lparr>k_mm := m, k_sched := sample_sched\<lparr>stacks := store_words 0x1000
     [0, 0, 0, 0, 0, 0, 0, 0, 0, 0x600000000000, 1, 1, 0, 0, SYS_EVENT_READ, 0x80] (\<lambda>_. 0)\<rparr>\<rparr>"

lemma live_frame:
  "frame_get 0x1000 Rdi (live_kernel m) = 0x600000000000" "frame_get 0x1000 Rsi (live_kernel m) = 1" "frame_get 0x1000 Rdx (live_kernel m) = 1"
  "frame_get 0x1000 Rax (live_kernel m) = SYS_EVENT_READ" "frame_get 0x1000 Vector (live_kernel m) = of_nat IDT_SYSCALL_VECTOR"
  by (simp_all add: frame_get_def live_kernel_def IDT_SYSCALL_VECTOR_def)

lemma sample_mapped: "\<exists>m. user_ok 0xFFFF800000000000 m \<and> readable 0x600000000000 4096 m"
proof -
  have k: "k_mm sample_kernel = roomy_mm" "MMAP_NEXT sample_kernel = 0x600000000000" by (simp_all add: sample_kernel_def)
  obtain m where "zero_run 0xFFFF800000000000 0x600000000000 1 roomy_mm m"
    using sys_mmap_ok [of "0xFFFF800000000000" sample_kernel 4096] roomy_user_ok roomy_free unfolding k by (auto simp: page_span_def)
  then have m: "user_ok 0xFFFF800000000000 m" "\<And>va. unat va < 2 ^ 47 \<Longrightarrow> 0x600000000000 \<le> unat va \<Longrightarrow> unat va < 0x600000001000 \<Longrightarrow> load_byte va m = Some 0"
    by (simp_all add: zero_run_def USER_ADDRESS_MAX_def word_less_nat_alt)
  have "unat (0x600000000000 + of_nat i :: u64) = 0x600000000000 + i" if "i < 4096" for i using that by (subst unat_add_bounded) (simp_all add: unat_of_nat_bounded)
  then have "readable 0x600000000000 4096 m" using m(2) by (simp add: readable_def USER_ADDRESS_MAX_def)
  then show ?thesis using m(1) by blast
qed

lemma readable_less: "readable a n s \<Longrightarrow> m \<le> n \<Longrightarrow> readable a m s"
  by (auto simp: readable_def)

lemma live_kernel_ok: "user_ok h m \<Longrightarrow> kernel_ok h (the (FB sample_tty)) (live_kernel m)"
  using sample_sched_inv kb_inv_start
  by (simp add: kernel_ok_def live_kernel_def sample_kernel_def terminal.defs term_fb_def term_ok_def fb_ok_def sample_tty_def LINE_HEIGHT_def FONT_WIDTH_def)

lemma if_weaken: "(if b then A else B) \<Longrightarrow> (B \<Longrightarrow> C) \<Longrightarrow> (if b then A else C)"
  by simp

section \<open>Properties\<close>

text \<open>
  C4: \<open>user_range_valid\<close> accepts a nonempty range exactly when it does not start at address zero, ends inside the user half of the address space without
  wrapping around, and every byte of it can be read through the page tables.
\<close>

theorem user_range_valid_exact:
  assumes "user_ok h s" "len \<noteq> 0"
  shows "user_range_valid address len s =
    Some (address \<noteq> 0 \<and> unat address + unat len \<le> 2 ^ 47 \<and> (\<exists>bs. load_bytes address (unat len) s = Some bs))"
  unfolding user_range_valid_ok [OF assms] readable_def load_bytes_total by (simp add: USER_ADDRESS_MAX_def)

theorem user_range_valid_exact_witness:
  "(\<exists>m. user_range_valid 0x600000000000 2 m = Some True) \<and> user_range_valid 0xFFFF800000000000 8 roomy_mm = Some False"
proof -
  obtain m where m: "user_ok 0xFFFF800000000000 m" "readable 0x600000000000 4096 m" using sample_mapped by blast
  have "\<exists>bs. load_bytes 0x600000000000 2 m = Some bs" using readable_less [OF m(2), of 2] unfolding load_bytes_total readable_def by simp
  then show ?thesis using user_range_valid_exact [OF m(1), of 2 "0x600000000000"] user_range_valid_exact [OF roomy_user_ok, of 8 "0xFFFF800000000000"] by auto
qed

text \<open>
  C15: \<open>sys_write\<close> prints exactly the caller's bytes: for the console and a readable range it prints the bytes at the address, in order, stays on the screen and
  returns the length.  Another descriptor or a range that is not readable gives the error value and prints nothing; no length makes it panic.
\<close>

theorem sys_write_prints:
  assumes ok: "user_ok h (k_mm k)" and fb: "term_fb fb" "term_ok fb (k_con k)"
  shows "if fd \<noteq> 1 \<and> fd \<noteq> 2 then sys_write fd buffer len k = Some (EINVAL, k)
    else if len = 0 then sys_write fd buffer len k = Some (0, k)
    else if \<not> readable buffer (unat len) (k_mm k) then sys_write fd buffer len k = Some (EINVAL, k)
    else \<exists>bs con. load_bytes buffer (unat len) (k_mm k) = Some bs \<and> puts bs (k_con k) = Some con \<and>
      printed fb (k_con k) con \<and> term_ok fb con \<and> sys_write fd buffer len k = Some (len, k\<lparr>k_con := con\<rparr>)"
  by (rule sys_write_ok [OF ok fb])

theorem sys_write_prints_witness:
  "\<exists>m con. sys_write 1 0x600000000000 2 (live_kernel m) = Some (2, (live_kernel m)\<lparr>k_con := con\<rparr>) \<and> sys_write 0 0x600000000000 2 (live_kernel m) = Some (EINVAL, live_kernel m)"
proof -
  obtain m where m: "user_ok 0xFFFF800000000000 m" "readable 0x600000000000 4096 m" using sample_mapped by blast
  have r: "readable 0x600000000000 (unat (2 :: u64)) (k_mm (live_kernel m))" using readable_less [OF m(2), of 2] by (simp add: live_kernel_def)
  note p = sys_write_prints [OF kernel_okD(1,3,4) [OF live_kernel_ok [OF m(1)]], of _ "0x600000000000" 2]
  show ?thesis using p [of 1] p [of 0] r by auto
qed



text \<open>
  C14: \<open>sys_event_read\<close> delivers keys in the order they were pressed, each once: with room for \<open>max_events\<close> events it takes that many keys, or all there are, off the
  front of the key queue, writes one event for each into the caller's buffer, leaves all other user memory as it was and returns their number.  A buffer
  that is not readable for that many events is refused with the queue untouched.
\<close>

theorem sys_event_read_delivers:
  assumes ok: "user_ok h (k_mm k)" and kb: "kb_inv (k_kbd k)"
  shows "if max_events = 0 then sys_event_read buffer max_events k = Some (Some 0, k)
    else if \<not> readable buffer (16 * unat max_events) (k_mm k) then sys_event_read buffer max_events k = Some (None, k)
    else \<exists>m kb. sys_event_read buffer max_events k =
        Some (Some (of_nat (length (take (unat max_events) (kb_queue (k_kbd k))))), k\<lparr>k_kbd := kb, k_mm := m\<rparr>) \<and>
      kb_inv kb \<and> kb_queue kb = drop (unat max_events) (kb_queue (k_kbd k)) \<and>
      written h (unat buffer) (concat (map key_event (take (unat max_events) (kb_queue (k_kbd k))))) (k_mm k) m"
  by (rule sys_event_read_ok [OF ok kb])

theorem sys_event_read_delivers_witness:
  "\<exists>m k. sys_event_read 0x600000000000 4 ((live_kernel m)\<lparr>k_kbd := fold buffer_push [0x61, 0x62] keyboard_start\<rparr>) = Some (Some 2, k) \<and>
     kb_queue (k_kbd k) = [] \<and> load_byte 0x600000000004 (k_mm k) = Some 0x61 \<and> load_byte 0x600000000014 (k_mm k) = Some 0x62"
proof -
  obtain m where m: "user_ok 0xFFFF800000000000 m" "readable 0x600000000000 4096 m" using sample_mapped by blast
  let ?kb = "fold buffer_push [0x61, 0x62] keyboard_start"
  let ?k = "(live_kernel m)\<lparr>k_kbd := ?kb\<rparr>"
  have i: "kb_inv keyboard_start" "kb_queue keyboard_start = []" "kb_wf keyboard_start" using kb_inv_start by (simp_all add: kb_inv_def kb_queue_def kb_count_def keyboard_start_def)
  have q: "kb_queue ?kb = [0x61, 0x62]" using kb.queue_pushes [OF i(3), of "[0x61, 0x62]"] i(2) by simp
  have kb: "kb_inv (k_kbd ?k)" using kb.invar_pushes [OF i(3), of "[0x61, 0x62]"] q by (simp add: kb_inv_def KEY_NONE_def)
  have u: "user_ok 0xFFFF800000000000 (k_mm ?k)" using m(1) by (simp add: live_kernel_def)
  have r: "readable 0x600000000000 (16 * unat (4 :: u64)) (k_mm ?k)" using readable_less [OF m(2), of 64] by (simp add: live_kernel_def)
  have e: "concat (map key_event [0x61, 0x62]) = [1, 0, 0, 0, 0x61, 0, 0, 0, 1, 0, 0, 0, 0, 0, 0, 0, 1, 0, 0, 0, 0x62, 0, 0, 0, 1, 0, 0, 0, 0, 0, 0, 0]" by code_simp
  have "\<exists>m' kb. sys_event_read 0x600000000000 4 ?k = Some (Some 2, ?k\<lparr>k_kbd := kb, k_mm := m'\<rparr>) \<and> kb_queue kb = [] \<and>
      written 0xFFFF800000000000 0x600000000000 (concat (map key_event [0x61, 0x62])) (k_mm ?k) m'"
    using sys_event_read_delivers [OF u kb, of 4 "0x600000000000"] r q by auto
  then obtain m' kb where k': "sys_event_read 0x600000000000 4 ?k = Some (Some 2, ?k\<lparr>k_kbd := kb, k_mm := m'\<rparr>)" "kb_queue kb = []"
    and w: "written 0xFFFF800000000000 0x600000000000 (concat (map key_event [0x61, 0x62])) (k_mm ?k) m'" by (elim exE conjE) (rule that)
  have "load_byte 0x600000000004 m' = Some 0x61" "load_byte 0x600000000014 m' = Some 0x62" using w unfolding written_def e by (simp_all add: USER_ADDRESS_MAX_def)
  then show ?thesis by (intro exI [of _ m] exI [of _ "?k\<lparr>k_kbd := kb, k_mm := m'\<rparr>"]) (use k' in simp)
qed

text \<open>
  C16: Waiting for input.  A task that reads events with the blocking flag and an empty queue is parked: it is on no CPU, its frame is saved and will return zero.
  The next keyboard interrupt, on any CPU, makes it ready, with the key in the queue.
\<close>

theorem read_blocks_until_key:
  assumes k: "kernel_ok h fb k" and cu: "cur (k_sched k) c = Some (Slot i)"
    and call: "frame_get frm Vector k = of_nat IDT_SYSCALL_VECTOR" "frame_get frm Rax k = SYS_EVENT_READ" "frame_get frm Rdx k \<noteq> 0"
    and buf: "frame_get frm Rsi k \<noteq> 0" "readable (frame_get frm Rdi k) (16 * unat (frame_get frm Rsi k)) (k_mm k)" and q: "kb_queue (k_kbd k) = []"
  shows "\<exists>frm' k'. irq_common_handler c sc frm k = Some (frm', k') \<and> st (k_sched k') i = Blocked \<and> frame (TASKS (k_sched k') i) = frm \<and>
    (\<forall>d. cur (k_sched k') d \<noteq> Some (Slot i)) \<and> frame_get frm Rax k' = 0 \<and>
    (\<forall>d scancode g. frame_get g Vector k' = ucast IRQ_VECTOR \<longrightarrow>
       (\<exists>k2. irq_common_handler d scancode g k' = Some (g, k2) \<and> st (k_sched k2) i = Ready \<and> k_kbd k2 = irq scancode (k_kbd k)))"
proof -
  let ?k = "set_rax frm 0 k"
  obtain s' frm' where sch: "schedule c frm (block_current_input c (k_sched ?k)) = (frm', s')" by fastforce
  define k' where "k' = ?k\<lparr>k_sched := s'\<rparr>"
  have s: "sched_inv (k_sched ?k)" "cur (k_sched ?k) c = Some (Slot i)" using kernel_okD(5) [OF set_rax_ok [OF k]] cu by (simp_all add: set_rax_def)
  note p = input_wait_parks [OF s, of frm, unfolded sch snd_conv Let_def]
  have d: "irq_common_handler c sc frm k = Some (frm', k')"
    using call sys_event_read_empty [OF kernel_okD(1,2) [OF k] q buf] sch
    by (simp add: irq_common_handler_def dispatch_def reschedule_def sched_do_def k'_def SYS_WRITE_def SYS_EXIT_def SYS_YIELD_def SYS_SPAWN_def SYS_FB_MAP_def SYS_EVENT_READ_def)
  have "stacks s' = stacks (k_sched ?k)"
    using schedule_stacks [of c frm "block_current_input c (k_sched ?k)"] s(2) unfolding sch by (simp add: block_current_input_def update_current_def)
  then have rax: "frame_get frm Rax k' = 0" by (simp add: k'_def frame_get_def set_rax_def)
  have "irq_common_handler e scancode g k' = Some (g, sched_do wake_input_waiters (k'\<lparr>k_kbd := irq scancode (k_kbd k')\<rparr>)\<lparr>k_apic := send_eoi (k_apic k')\<rparr>)"
    if "frame_get g Vector k' = ucast IRQ_VECTOR" for e scancode g
    using that by (simp add: irq_common_handler_def IRQ_VECTOR_def TIMER_VECTOR_def IDT_SYSCALL_VECTOR_def sched_do_def)
  then show ?thesis using d p rax by (auto simp: k'_def sched_do_def set_rax_def)
qed

theorem read_blocks_until_key_witness:
  "\<exists>m frm k. irq_common_handler 0 0 0x1000 (live_kernel m) = Some (frm, k) \<and> st (k_sched k) 0 = Blocked \<and> (\<forall>d. cur (k_sched k) d \<noteq> Some (Slot 0))"
proof -
  obtain m where m: "user_ok 0xFFFF800000000000 m" "readable 0x600000000000 4096 m" using sample_mapped by blast
  have r: "readable 0x600000000000 (16 * unat (1 :: u64)) (k_mm (live_kernel m))" using readable_less [OF m(2), of 16] by (simp add: live_kernel_def)
  have c: "cur (k_sched (live_kernel m)) 0 = Some (Slot 0)" "kb_queue (k_kbd (live_kernel m)) = []"
    by (simp_all add: live_kernel_def sample_sched_def sample_kernel_def kb_queue_def kb_count_def keyboard_start_def)
  show ?thesis using read_blocks_until_key [OF live_kernel_ok [OF m(1)] c(1), of "0x1000" 0] c(2) r unfolding live_frame by auto
qed



end
