(* ===== verification/Spec2Isabelle.thy ===== *)
theory Spec2Isabelle
  imports Crc Keyboard Pmm Vmm Heap Smp Spinlock Gdt Scheduler Fs Klog Apic Idt Syscall
begin

text \<open>
  A verification development for the Pinx kernel.
\<close>

end
